(* ===== verification/Tdb_Prelude.thy ===== *)
theory Tdb_Prelude
  imports Main "HOL-Library.Word" "HOL-Library.Multiset"
begin

text \<open>
  Shared vocabulary of the TrieDB development: the C types the sources use, the faults a C
  program can run into, the sequencing of fallible computations, and generic lemmas on sums,
  lists and words that several components use.

  A C string (\<^verbatim>\<open>const char *\<close>) is the list of its bytes up to, not including, the terminating
  NUL. A raw buffer is a list of bytes of any content. Unsigned integers of the sources are
  words of their width. A pointer to a heap object is an address, and NULL is \<open>None\<close>.
\<close>

type_synonym byte = "8 word"
type_synonym u16 = "16 word"
type_synonym u32 = "32 word"
type_synonym u64 = "64 word"
type_synonym bytes = "byte list"
type_synonym cstring = "byte list"
type_synonym addr = nat

text \<open>
  What C leaves undefined or aborts on is a value of \<open>c_fault\<close>: reading through NULL, touching
  a released object, an access outside a buffer, overflow of a signed integer, a failed
  \<^verbatim>\<open>assert\<close>, a call through a NULL function pointer and a recursion deeper than the stack.
\<close>

datatype c_fault =
    NullDeref
  | UseAfterFree
  | OutOfBounds
  | SignedOverflow
  | AssertFailed
  | NullCall
  | StackExhausted

type_synonym 'a cres = "c_fault + 'a"

fun bindE :: "'a cres \<Rightarrow> ('a \<Rightarrow> 'b cres) \<Rightarrow> 'b cres" where
  "bindE (Inl e) f = Inl e"
| "bindE (Inr x) f = f x"

named_theorems fault_simps \<open>equations that evaluate fallible operations where they succeed\<close>
named_theorems abs_simps \<open>equations that push an abstraction function through an operation\<close>

lemma bindE_Inr_iff: "bindE m f = Inr y \<longleftrightarrow> (\<exists>x. m = Inr x \<and> f x = Inr y)"
  by (cases m) auto

lemma bindE_InrE [elim!]:
  assumes "bindE m f = Inr y"
  obtains x where "m = Inr x" and "f x = Inr y"
  using assms by (auto simp: bindE_Inr_iff)

lemma bindE_cong [fundef_cong]:
  "m = m' \<Longrightarrow> (\<And>x. m' = Inr x \<Longrightarrow> f x = g x) \<Longrightarrow> bindE m f = bindE m' g"
  by (cases m') auto

lemma bindE_assoc: "bindE (bindE m f) g = bindE m (\<lambda>x. bindE (f x) g)"
  by (cases m) auto

lemma bindE_Inr_right [simp]: "bindE m Inr = m"
  by (cases m) auto

text \<open>A fallible operation repeated over a list of arguments.\<close>

fun foldE :: "('s \<Rightarrow> 'a \<Rightarrow> 's cres) \<Rightarrow> 's \<Rightarrow> 'a list \<Rightarrow> 's cres" where
  "foldE f s [] = Inr s"
| "foldE f s (x # xs) = bindE (f s x) (\<lambda>s'. foldE f s' xs)"

lemma foldE_append: "foldE f s (xs @ ys) = bindE (foldE f s xs) (\<lambda>s'. foldE f s' ys)"
  by (induction xs arbitrary: s) (simp_all add: bindE_assoc)

text \<open>The content of a C string in a buffer: the bytes before the first NUL.\<close>

definition c_string :: "bytes \<Rightarrow> cstring" where
  "c_string b = takeWhile (\<lambda>x. x \<noteq> 0) b"

lemma c_string_no_nul [simp]: "0 \<notin> set (c_string b)"
  by (auto simp: c_string_def dest: set_takeWhileD)

lemma c_string_id: "0 \<notin> set b \<Longrightarrow> c_string b = b"
  unfolding c_string_def by (subst takeWhile_eq_all_conv) auto

lemma c_string_append_nul: "0 \<notin> set b \<Longrightarrow> c_string (b @ 0 # r) = b"
proof -
  assume "0 \<notin> set b"
  then have "takeWhile (\<lambda>x. x \<noteq> 0) (b @ 0 # r) = b @ takeWhile (\<lambda>x. x \<noteq> 0) (0 # r)"
    by (intro takeWhile_append2) auto
  then show ?thesis by (simp add: c_string_def)
qed

text \<open>Words that count: taking away no more than there is does not wrap.\<close>

lemma unat_of_nat_le:
  fixes w :: "'a::len word"
  assumes "m \<le> unat w"
  shows "unat (of_nat m :: 'a word) = m"
proof -
  have "m < 2 ^ LENGTH('a)" using assms unsigned_less [of w] by (rule le_less_trans)
  then show ?thesis by (simp add: unat_of_nat)
qed

lemma unat_minus_of_nat:
  fixes w :: "'a::len word"
  assumes "m \<le> unat w"
  shows "unat (w - of_nat m) = unat w - m"
  using assms by (simp add: unat_sub unat_of_nat_le word_le_nat_alt)

text \<open>A literal of the sources as bytes.\<close>

definition lit :: "string \<Rightarrow> cstring" where
  "lit s = map of_char s"


subsection \<open>Objects on the heap\<close>

text \<open>
  Objects that are reached through more than one pointer live in an explicit store from
  addresses to values. Allocation is assumed to succeed, as the sources mostly do; an address
  is not reused, so a read through a stale pointer is seen as a fault.
\<close>

type_synonym 'v heap = "addr \<rightharpoonup> 'v"

definition obj_read :: "'v heap \<Rightarrow> addr \<Rightarrow> 'v cres" where
  "obj_read h a = (case h a of None \<Rightarrow> Inl UseAfterFree | Some v \<Rightarrow> Inr v)"

definition obj_write :: "'v heap \<Rightarrow> addr \<Rightarrow> 'v \<Rightarrow> 'v heap cres" where
  "obj_write h a v = (if h a = None then Inl UseAfterFree else Inr (h(a \<mapsto> v)))"

definition obj_free :: "'v heap \<Rightarrow> addr \<Rightarrow> 'v heap cres" where
  "obj_free h a = (if h a = None then Inl UseAfterFree else Inr (h(a := None)))"

lemma obj_read_Some [fault_simps]: "h a = Some v \<Longrightarrow> obj_read h a = Inr v"
  by (simp add: obj_read_def)

lemma obj_write_Some [fault_simps]: "h a = Some w \<Longrightarrow> obj_write h a v = Inr (h(a \<mapsto> v))"
  by (simp add: obj_write_def)

lemma obj_free_Some [fault_simps]: "h a = Some w \<Longrightarrow> obj_free h a = Inr (h(a := None))"
  by (simp add: obj_free_def)

lemma obj_read_Inr [simp]: "obj_read h a = Inr v \<longleftrightarrow> h a = Some v"
  by (auto simp: obj_read_def split: option.splits)

lemma obj_free_Inr [simp]: "obj_free h a = Inr h' \<longleftrightarrow> h a \<noteq> None \<and> h' = h(a := None)"
  by (auto simp: obj_free_def)

end
