(* ===== verification/Tdb_Bst.thy ===== *)
theory Tdb_Bst
  imports Tdb_Prelude
begin

text \<open>
  The search tree of \<^verbatim>\<open>src/bst.c\<close>: the children of a trie node, keyed by one byte.
  A \<^verbatim>\<open>struct bst_node *\<close> is a value of \<open>bst_node\<close>, with \<open>BNull\<close> for NULL; the tree is owned by
  its root, so in-place updates are rebuilt values. The macros \<^verbatim>\<open>MAX\<close>, \<^verbatim>\<open>HEIGHT\<close> and \<^verbatim>\<open>BALANCE\<close>
  have no outer parentheses and are modelled by what they expand to at each use.
\<close>

datatype 'a bst_node =
    BNull
  | BNode (bkey: byte) (bheight: int) (bleft: "'a bst_node") (bright: "'a bst_node") (bdata: 'a)

definition bst_new :: "byte \<Rightarrow> 'a \<Rightarrow> 'a bst_node" where
  "bst_new key data = BNode key 1 BNull BNull data"

definition HEIGHT :: "'a bst_node \<Rightarrow> int" where
  "HEIGHT n = (case n of BNull \<Rightarrow> 0 | BNode k h l r d \<Rightarrow> h)"

definition BALANCE :: "'a bst_node \<Rightarrow> int" where
  "BALANCE n = (case n of BNull \<Rightarrow> 0 | BNode k h l r d \<Rightarrow> HEIGHT l - HEIGHT r)"

text \<open>
  \<^verbatim>\<open>1 + MAX((HEIGHT(l)), (HEIGHT(r)))\<close> expands to \<^verbatim>\<open>1 + hl > hr ? hl : hr\<close>: the sum is the left
  operand of the comparison, not part of the result.
\<close>

definition update_height :: "'a bst_node \<Rightarrow> 'a bst_node \<Rightarrow> int" where
  "update_height l r = (if 1 + HEIGHT l > HEIGHT r then HEIGHT l else HEIGHT r)"

text \<open>
  \<^verbatim>\<open>MAX(HEIGHT(l), HEIGHT(r)) + 1\<close> without inner parentheses expands to
  \<^verbatim>\<open>!l ? 0 : l->height > !r ? 0 : r->height ? !l ? 0 : l->height : !r ? 0 : r->height + 1\<close>,
  which C reads as a chain of conditionals and which reads \<^verbatim>\<open>r->height\<close> unguarded.
\<close>

definition rotate_height :: "'a bst_node \<Rightarrow> 'a bst_node \<Rightarrow> int cres" where
  "rotate_height l r =
     (if l = BNull then Inr 0
      else if HEIGHT l > (if r = BNull then 1 else 0) then Inr 0
      else (case r of
              BNull \<Rightarrow> Inl NullDeref
            | BNode k h rl rr d \<Rightarrow> if h \<noteq> 0 then Inr (HEIGHT l) else Inr (h + 1)))"

definition bst_rotate_right :: "'a bst_node \<Rightarrow> 'a bst_node cres" where
  "bst_rotate_right y =
     (case y of
        BNull \<Rightarrow> Inl NullDeref
      | BNode yk yh x yr yd \<Rightarrow>
          (case x of
             BNull \<Rightarrow> Inl NullDeref
           | BNode xk xh xl t2 xd \<Rightarrow>
               bindE (rotate_height t2 yr) (\<lambda>yh'.
                 let y' = BNode yk yh' t2 yr yd
                 in bindE (rotate_height xl y') (\<lambda>xh'. Inr (BNode xk xh' xl y' xd)))))"

text \<open>\<^verbatim>\<open>bst_rotate_left\<close> takes \<^verbatim>\<open>x->left\<close> as the pivot, too.\<close>

definition bst_rotate_left :: "'a bst_node \<Rightarrow> 'a bst_node cres" where
  "bst_rotate_left x =
     (case x of
        BNull \<Rightarrow> Inl NullDeref
      | BNode xk xh y xr xd \<Rightarrow>
          (case y of
             BNull \<Rightarrow> Inl NullDeref
           | BNode yk yh yl t2 yd \<Rightarrow>
               bindE (rotate_height t2 xr) (\<lambda>xh'.
                 let x' = BNode xk xh' t2 xr xd
                 in bindE (rotate_height yl x') (\<lambda>yh'. Inr (BNode yk yh' yl x' yd)))))"

fun bst_min :: "'a bst_node \<Rightarrow> 'a bst_node cres" where
  "bst_min BNull = Inl NullDeref"
| "bst_min (BNode k h BNull r d) = Inr (BNode k h BNull r d)"
| "bst_min (BNode k h (BNode lk lh ll lr ld) r d) = bst_min (BNode lk lh ll lr ld)"

text \<open>Field reads through a pointer that may be NULL.\<close>

definition bst_key_of :: "'a bst_node \<Rightarrow> byte cres" where
  "bst_key_of n = (case n of BNull \<Rightarrow> Inl NullDeref | BNode k h l r d \<Rightarrow> Inr k)"

text \<open>
  The part of \<^verbatim>\<open>bst_insert\<close> after the recursive call: the height update, the balance and the
  four rotation cases, in the order of the source.
\<close>

definition bst_insert_balance ::
    "byte \<Rightarrow> byte \<Rightarrow> 'a bst_node \<Rightarrow> 'a bst_node \<Rightarrow> 'a \<Rightarrow> 'a bst_node cres" where
  "bst_insert_balance key nk l r d =
     (let node = BNode nk (update_height l r) l r d;
          balance = BALANCE node
      in if balance > 1 then
           bindE (bst_key_of l) (\<lambda>lk.
             if key < lk then bst_rotate_right node
             else if key > lk then
               bindE (bst_rotate_left l) (\<lambda>l'.
                 bst_rotate_right (BNode nk (update_height l r) l' r d))
             else Inr node)
         else if balance < -1 then
           bindE (bst_key_of r) (\<lambda>rk.
             if key > rk then bst_rotate_left node
             else if key < rk then
               bindE (bst_rotate_right r) (\<lambda>r'.
                 bst_rotate_left (BNode nk (update_height l r) l r' d))
             else Inr node)
         else Inr node)"

fun bst_insert :: "'a bst_node \<Rightarrow> byte \<Rightarrow> 'a \<Rightarrow> 'a bst_node cres" where
  "bst_insert BNull key data = Inr (bst_new key data)"
| "bst_insert (BNode nk h l r d) key data =
     (if key < nk then
        bindE (bst_insert l key data) (\<lambda>l'. bst_insert_balance key nk l' r d)
      else if key > nk then
        bindE (bst_insert r key data) (\<lambda>r'. bst_insert_balance key nk l r' d)
      else Inr (BNode nk h l r d))"

fun bst_search :: "'a bst_node \<Rightarrow> byte \<Rightarrow> 'a bst_node" where
  "bst_search BNull key = BNull"
| "bst_search (BNode nk h l r d) key =
     (if key = nk then BNode nk h l r d
      else if key < nk then bst_search l key
      else bst_search r key)"


text \<open>
  \<^verbatim>\<open>balance > 1 && BALANCE(n) >= 0\<close> expands to \<^verbatim>\<open>balance > 1 && !n ? 0 : (hl) - (hr) >= 0\<close>: the
  guard and the NULL test form the condition, and the sign of the child's balance alone is the
  result in every other case, read through \<^verbatim>\<open>n\<close> even where \<^verbatim>\<open>n\<close> is NULL.
\<close>

definition guarded_balance :: "bool \<Rightarrow> 'a bst_node \<Rightarrow> (int \<Rightarrow> bool) \<Rightarrow> bool cres" where
  "guarded_balance guard n test =
     (if guard \<and> n = BNull then Inr False
      else (case n of
              BNull \<Rightarrow> Inl NullDeref
            | BNode k h l r d \<Rightarrow> Inr (test (HEIGHT l - HEIGHT r))))"

definition bst_delete_balance :: "'a bst_node \<Rightarrow> 'a bst_node cres" where
  "bst_delete_balance node =
     (case node of
        BNull \<Rightarrow> Inr BNull
      | BNode k h l r d \<Rightarrow>
          let h' = update_height l r; balance = HEIGHT l - HEIGHT r
          in bindE (guarded_balance (balance > 1) l (\<lambda>b. b \<ge> 0)) (\<lambda>c1.
             if c1 then bst_rotate_right (BNode k h' l r d)
             else bindE (guarded_balance (balance > 1) l (\<lambda>b. b < 0)) (\<lambda>c2.
             if c2 then bindE (bst_rotate_left l) (\<lambda>l'. bst_rotate_right (BNode k h' l' r d))
             else bindE (guarded_balance (balance < -1) r (\<lambda>b. b \<le> 0)) (\<lambda>c3.
             if c3 then bst_rotate_left (BNode k h' l r d)
             else bindE (guarded_balance (balance < -1) r (\<lambda>b. b > 0)) (\<lambda>c4.
             if c4 then bindE (bst_rotate_right r) (\<lambda>r'. bst_rotate_left (BNode k h' l r' d))
             else Inr (BNode k h' l r d))))))"

text \<open>
  In \<^verbatim>\<open>bst_delete\<close> the second test is not an \<^verbatim>\<open>else if\<close>: a key below the node's key takes the
  recursive call on the left and then the branch that removes the node itself.
\<close>

fun bst_delete :: "'a bst_node \<Rightarrow> byte \<Rightarrow> 'a bst_node cres" where
  "bst_delete BNull key = Inr BNull"
| "bst_delete (BNode nk h l r d) key =
     bindE (if key < nk then bst_delete l key else Inr l) (\<lambda>l'.
     bindE (if key > nk then bindE (bst_delete r key) (\<lambda>r'. Inr (BNode nk h l' r' d))
            else if l' = BNull \<or> r = BNull then Inr (if l' \<noteq> BNull then l' else r)
            else bindE (bst_min r) (\<lambda>tmp.
                 bindE (bst_delete r (bkey tmp)) (\<lambda>r'. Inr (BNode (bkey tmp) h l' r' d))))
       bst_delete_balance)"

text \<open>
  The trie writes through the pointer \<^verbatim>\<open>bst_search\<close> returns: \<open>bst_write\<close> is the tree after the
  data of the node found for a key has been replaced.
\<close>

fun bst_write :: "byte \<Rightarrow> 'a \<Rightarrow> 'a bst_node \<Rightarrow> 'a bst_node" where
  "bst_write key v BNull = BNull"
| "bst_write key v (BNode nk h l r d) =
     (if key = nk then BNode nk h l r v
      else if key < nk then BNode nk h (bst_write key v l) r d
      else BNode nk h l (bst_write key v r) d)"

definition bst_lookup :: "'a bst_node \<Rightarrow> byte \<Rightarrow> 'a option" where
  "bst_lookup t key = (case bst_search t key of BNull \<Rightarrow> None | BNode k h l r d \<Rightarrow> Some d)"

subsection \<open>Invariant\<close>

fun bst_keys :: "'a bst_node \<Rightarrow> byte set" where
  "bst_keys BNull = {}"
| "bst_keys (BNode k h l r d) = insert k (bst_keys l \<union> bst_keys r)"

fun bst_ordered :: "'a bst_node \<Rightarrow> bool" where
  "bst_ordered BNull = True"
| "bst_ordered (BNode k h l r d) =
     (bst_ordered l \<and> bst_ordered r \<and> (\<forall>x \<in> bst_keys l. x < k) \<and> (\<forall>x \<in> bst_keys r. k < x))"

fun unit_heights :: "'a bst_node \<Rightarrow> bool" where
  "unit_heights BNull = True"
| "unit_heights (BNode k h l r d) = (h = 1 \<and> unit_heights l \<and> unit_heights r)"

definition bst_inv :: "'a bst_node \<Rightarrow> bool" where
  "bst_inv t \<longleftrightarrow> bst_ordered t \<and> unit_heights t"

text \<open>Insertion into an unbalanced search tree, the reference for \<^verbatim>\<open>bst_insert\<close>.\<close>

fun bst_ins :: "'a bst_node \<Rightarrow> byte \<Rightarrow> 'a \<Rightarrow> 'a bst_node" where
  "bst_ins BNull key v = BNode key 1 BNull BNull v"
| "bst_ins (BNode k h l r d) key v =
     (if key < k then BNode k h (bst_ins l key v) r d
      else if key > k then BNode k h l (bst_ins r key v) d
      else BNode k h l r d)"

fun bst_depth :: "'a bst_node \<Rightarrow> nat" where
  "bst_depth BNull = 0"
| "bst_depth (BNode k h l r d) = Suc (max (bst_depth l) (bst_depth r))"

subsection \<open>Lemmas\<close>

lemma unit_height_cases: "unit_heights t \<Longrightarrow> HEIGHT t = (if t = BNull then 0 else 1)"
  by (cases t) (auto simp: HEIGHT_def)

lemma bst_ins_not_BNull [simp]: "bst_ins t k v \<noteq> BNull"
  by (cases t) auto

lemma bst_keys_ins [simp]: "bst_keys (bst_ins t k v) = insert k (bst_keys t)"
  by (induction t) auto

lemma unit_heights_ins [simp]: "unit_heights t \<Longrightarrow> unit_heights (bst_ins t k v)"
  by (induction t) auto

lemma bst_ordered_ins: "bst_ordered t \<Longrightarrow> bst_ordered (bst_ins t k v)"
  by (induction t) auto

lemma bst_inv_ins: "bst_inv t \<Longrightarrow> bst_inv (bst_ins t k v)"
  by (simp add: bst_inv_def bst_ordered_ins)

lemma bst_insert_balance_unit:
  assumes "unit_heights l" and "unit_heights r" and "l \<noteq> BNull \<or> r \<noteq> BNull"
  shows "bst_insert_balance key nk l r d = Inr (BNode nk 1 l r d)"
  using assms
  by (auto simp: bst_insert_balance_def update_height_def BALANCE_def Let_def unit_height_cases)

lemma bst_insert_eq_ins: "unit_heights t \<Longrightarrow> bst_insert t k v = Inr (bst_ins t k v)"
  by (induction t) (auto simp: bst_new_def bst_insert_balance_unit)

lemma bst_search_key: "bst_search t k = BNode k' h l r d \<Longrightarrow> k' = k"
  by (induction t) (auto split: if_splits)

lemma bst_search_BNull_iff: "bst_ordered t \<Longrightarrow> bst_search t k = BNull \<longleftrightarrow> k \<notin> bst_keys t"
  by (induction t) (auto simp: not_less_iff_gr_or_eq)

lemma bst_lookup_BNull [simp]: "bst_lookup BNull k = None"
  by (simp add: bst_lookup_def)

lemma bst_lookup_BNode [simp]:
  "bst_lookup (BNode nk h l r d) k =
     (if k = nk then Some d else if k < nk then bst_lookup l k else bst_lookup r k)"
  by (simp add: bst_lookup_def)

lemma bst_lookup_None_iff: "bst_ordered t \<Longrightarrow> bst_lookup t k = None \<longleftrightarrow> k \<notin> bst_keys t"
  using bst_search_BNull_iff [of t k] by (auto simp: bst_lookup_def split: bst_node.splits)

lemma bst_lookup_search: "bst_lookup t k = Some d \<Longrightarrow> \<exists>h l r. bst_search t k = BNode k h l r d"
  by (auto simp: bst_lookup_def split: bst_node.splits dest: bst_search_key)

lemma bst_lookup_ins:
  "bst_lookup (bst_ins t k v) x =
     (if x = k \<and> bst_lookup t k = None then Some v else bst_lookup t x)"
proof (induction t)
  case (BNode nk h l r d)
  show ?case
    using BNode.IH by (cases k nk rule: linorder_cases) (auto simp: order.asym)
qed simp

lemma bst_keys_write [simp]: "bst_keys (bst_write k v t) = bst_keys t"
  by (induction t) auto

lemma unit_heights_write [simp]: "unit_heights (bst_write k v t) = unit_heights t"
  by (induction t) auto

lemma bst_ordered_write [simp]: "bst_ordered (bst_write k v t) = bst_ordered t"
  by (induction t) auto

lemma bst_inv_write [simp]: "bst_inv (bst_write k v t) = bst_inv t"
  by (simp add: bst_inv_def)

lemma bst_lookup_write:
  "bst_lookup (bst_write k v t) x =
     (if x = k \<and> bst_lookup t k \<noteq> None then Some v else bst_lookup t x)"
  by (induction t) auto

lemma bst_inv_simps [simp]:
  "bst_inv BNull"
  "bst_inv (BNode k h l r d) \<longleftrightarrow>
     h = 1 \<and> bst_inv l \<and> bst_inv r \<and> (\<forall>x \<in> bst_keys l. x < k) \<and> (\<forall>x \<in> bst_keys r. k < x)"
  by (auto simp: bst_inv_def)


subsection \<open>The child map a trie node relies on\<close>

text \<open>
  What \<^verbatim>\<open>src/trie.c\<close> expects of the tree that holds the children of a node: a search, an
  insertion used only for a missing key, and the write through the pointer a search returned.
\<close>

locale child_map =
  fixes empty :: "'t"
    and lookup :: "'t \<Rightarrow> byte \<Rightarrow> 'a option"
    and ins :: "'t \<Rightarrow> byte \<Rightarrow> 'a \<Rightarrow> 't cres"
    and wr :: "byte \<Rightarrow> 'a \<Rightarrow> 't \<Rightarrow> 't"
    and invar :: "'t \<Rightarrow> bool"
  assumes lookup_empty: "lookup empty k = None"
    and invar_empty: "invar empty"
    and ins_fresh: "invar t \<Longrightarrow> lookup t k = None \<Longrightarrow>
          \<exists>t'. ins t k v = Inr t' \<and> invar t' \<and> lookup t' = (lookup t)(k \<mapsto> v)"
    and wr_found: "invar t \<Longrightarrow> lookup t k = Some v0 \<Longrightarrow>
          invar (wr k v t) \<and> lookup (wr k v t) = (lookup t)(k \<mapsto> v)"
begin

text \<open>Finding or creating a child and then writing it back: the step of a trie insertion.\<close>

lemma upsert:
  assumes "invar t"
  shows "\<exists>t'. (if lookup t k = None then bindE (ins t k c0) (\<lambda>t1. Inr (wr k v t1))
               else Inr (wr k v t)) = Inr t' \<and> invar t' \<and> lookup t' = (lookup t)(k \<mapsto> v)"
proof (cases "lookup t k")
  case None
  with ins_fresh [OF assms] obtain t1 where t1: "ins t k c0 = Inr t1" "invar t1"
    "lookup t1 = (lookup t)(k \<mapsto> c0)" by blast
  then have "lookup t1 k = Some c0" by simp
  from wr_found [OF t1(2) this, of v] t1 None show ?thesis by auto
next
  case (Some w)
  from wr_found [OF assms Some, of v] Some show ?thesis by auto
qed

text \<open>A write does not disturb the other children.\<close>

lemma wr_other:
  "invar t \<Longrightarrow> lookup t k = Some v0 \<Longrightarrow> x \<noteq> k \<Longrightarrow> lookup (wr k v t) x = lookup t x"
  by (simp add: wr_found)

end

lemma bst_insert_fresh:
  assumes "bst_inv t" and "bst_lookup t k = None"
  shows "\<exists>t'. bst_insert t k v = Inr t' \<and> bst_inv t' \<and> bst_lookup t' = (bst_lookup t)(k \<mapsto> v)"
proof -
  from assms(1) have "bst_insert t k v = Inr (bst_ins t k v)"
    by (simp add: bst_inv_def bst_insert_eq_ins)
  moreover have "bst_lookup (bst_ins t k v) = (bst_lookup t)(k \<mapsto> v)"
    using assms(2) by (auto simp: fun_eq_iff bst_lookup_ins)
  ultimately show ?thesis using bst_inv_ins [OF assms(1), of k v] by blast
qed

interpretation bst_children: child_map BNull bst_lookup bst_insert bst_write bst_inv
  by unfold_locales (auto intro: bst_insert_fresh simp: bst_lookup_write)

subsection \<open>Properties\<close>

text \<open>Building a tree by successive insertions, starting from NULL.\<close>

fun bst_insert_all :: "'a bst_node \<Rightarrow> (byte \<times> 'a) list \<Rightarrow> 'a bst_node cres" where
  "bst_insert_all t [] = Inr t"
| "bst_insert_all t ((k, v) # kvs) = bindE (bst_insert t k v) (\<lambda>t'. bst_insert_all t' kvs)"

fun bst_ins_all :: "'a bst_node \<Rightarrow> (byte \<times> 'a) list \<Rightarrow> 'a bst_node" where
  "bst_ins_all t [] = t"
| "bst_ins_all t ((k, v) # kvs) = bst_ins_all (bst_ins t k v) kvs"

lemma bst_insert_all_eq: "unit_heights t \<Longrightarrow> bst_insert_all t kvs = Inr (bst_ins_all t kvs)"
  by (induction t kvs rule: bst_insert_all.induct) (simp_all add: bst_insert_eq_ins)

text \<open>C33. Inserting a byte key into a well-formed child tree succeeds, keeps the tree well
  formed, binds the key if it was absent, leaves an existing binding alone, and changes no other
  key.\<close>

theorem bst_insert_correct:
  assumes "bst_inv t"
  shows "\<exists>t'. bst_insert t k v = Inr t' \<and> bst_inv t' \<and>
           bst_lookup t' k = Some (case bst_lookup t k of None \<Rightarrow> v | Some w \<Rightarrow> w) \<and>
           (\<forall>x. x \<noteq> k \<longrightarrow> bst_lookup t' x = bst_lookup t x)"
proof -
  from assms have "bst_insert t k v = Inr (bst_ins t k v)"
    by (simp add: bst_inv_def bst_insert_eq_ins)
  then show ?thesis using bst_inv_ins [OF assms]
    by (auto simp: bst_lookup_ins split: option.split)
qed

theorem bst_insert_correct_witness:
  "\<exists>t'. bst_insert (bst_ins (bst_new 7 ''a'') 3 ''b'') 9 ''c'' = Inr t' \<and> bst_inv t' \<and>
     bst_lookup t' 9 = Some ''c''"
proof -
  have "bst_inv (bst_ins (bst_new 7 ''a'') 3 ''b'')"
    by (simp add: bst_new_def)
  from bst_insert_correct [OF this, of 9 "''c''"] show ?thesis
    by (auto simp: bst_new_def)
qed

text \<open>A tree built by \<^verbatim>\<open>bst_insert\<close> from NULL is the one plain unbalanced insertion builds: no
  rotation is ever taken and no insertion faults, whatever the keys.\<close>

theorem bst_insert_is_unbalanced:
  "bst_insert_all BNull kvs = Inr (bst_ins_all BNull kvs)"
  by (simp add: bst_insert_all_eq)

lemma bst_ins_all_right:
  "\<forall>y \<in> set (map fst kvs). k < y \<Longrightarrow>
     bst_ins_all (BNode k h l r v) kvs = BNode k h l (bst_ins_all r kvs) v"
  by (induction r kvs rule: bst_ins_all.induct) (auto simp: order.asym)

lemma bst_ins_all_ascending:
  "sorted_wrt (<) (map fst kvs) \<Longrightarrow> bst_depth (bst_ins_all BNull kvs) = length kvs"
proof (induction kvs)
  case (Cons p kvs)
  obtain k v where p: "p = (k, v)" by force
  with Cons.prems have "bst_ins_all BNull (p # kvs) = BNode k 1 BNull (bst_ins_all BNull kvs) v"
    by (simp add: bst_ins_all_right)
  with Cons show ?case by simp
qed simp

text \<open>Keys that arrive in ascending order make a tree as deep as their number: the
  logarithmic depth the comments of \<^verbatim>\<open>bst_insert\<close> promise is not achieved.\<close>

theorem bst_insert_ascending_depth:
  assumes "sorted_wrt (<) (map fst kvs)"
  shows "\<exists>t. bst_insert_all BNull kvs = Inr t \<and> bst_depth t = length kvs"
  using assms by (simp add: bst_insert_all_eq bst_ins_all_ascending)

theorem bst_insert_ascending_depth_witness:
  "\<exists>t. bst_insert_all BNull [(1, ()), (2, ()), (3, ()), (4, ())] = Inr t \<and> bst_depth t = 4"
proof -
  have "sorted_wrt (<) (map fst [(1 :: byte, ()), (2, ()), (3, ()), (4, ())])" by simp
  from bst_insert_ascending_depth [OF this] show ?thesis by (simp del: bst_insert_all.simps add: numeral_eq_Suc)
qed

text \<open>Deleting the smaller of two keys of a tree whose root holds the larger one empties the
  tree, and deleting the larger of two keys whose root holds the smaller one reads through NULL.\<close>

theorem bst_delete_two_nodes:
  assumes "a < b"
  shows "bindE (bst_insert_all BNull [(b, y), (a, x)]) (\<lambda>t. bst_delete t a) = Inr BNull \<and>
         bindE (bst_insert_all BNull [(a, x), (b, y)]) (\<lambda>t. bst_delete t b) = Inl NullDeref"
proof -
  from assms have "\<not> b < a" and "a \<noteq> b" by auto
  with assms show ?thesis
    by (simp add: bst_insert_balance_unit bst_new_def bst_delete_balance_def guarded_balance_def
        HEIGHT_def Let_def)
qed

theorem bst_delete_two_nodes_witness:
  "bindE (bst_insert_all BNull [(98, ''y''), (97, ''x'')]) (\<lambda>t. bst_delete t 97) = Inr BNull \<and>
   bindE (bst_insert_all BNull [(97, ''x''), (98, ''y'')]) (\<lambda>t. bst_delete t 98) = Inl NullDeref"
proof -
  have "(97 :: byte) < 98" by simp
  from bst_delete_two_nodes [OF this, of "''y''" "''x''"] show ?thesis .
qed

text \<open>The two rotations are the same operation: \<^verbatim>\<open>bst_rotate_left\<close> rotates to the right.\<close>

theorem bst_rotate_left_is_right: "bst_rotate_left t = bst_rotate_right t"
  by (simp add: bst_rotate_left_def bst_rotate_right_def split: bst_node.split)

end
