(* ===== verification/Tdb_Vector.thy ===== *)
theory Tdb_Vector
  imports Tdb_Prelude
begin

text \<open>
  The growable array of \<^verbatim>\<open>src/vector.c\<close>. \<open>v_items\<close> is the allocated block of slots, each a
  pointer or NULL; its length is the number of slots the block has room for. Sorting exchanges
  the bytes of the objects the slots point to, not the slots, so it works on a heap.
\<close>

record 'a Vector =
  v_items :: "'a option list"
  v_maxsize :: nat
  v_size :: nat

definition VECTOR_INITIAL_CAPACITY :: nat where
  "VECTOR_INITIAL_CAPACITY = 4"

definition vector_new :: "'a Vector" where
  "vector_new = \<lparr> v_items = replicate VECTOR_INITIAL_CAPACITY None,
                  v_maxsize = VECTOR_INITIAL_CAPACITY, v_size = 0 \<rparr>"

text \<open>The pointers \<^verbatim>\<open>vector_destroy\<close> hands to the destructor (or to \<^verbatim>\<open>tfree\<close>), in order.\<close>

definition vector_destroy :: "'a Vector \<Rightarrow> 'a option list" where
  "vector_destroy v = take (v_size v) (v_items v)"

definition vector_size :: "'a Vector \<Rightarrow> nat" where
  "vector_size v = v_size v"

text \<open>
  \<^verbatim>\<open>trealloc\<close> asserts a positive size, keeps the slots that fit and leaves new ones unset.
\<close>

definition vector_resize :: "'a Vector \<Rightarrow> nat \<Rightarrow> 'a Vector cres" where
  "vector_resize v newsize =
     (if newsize = 0 then Inl AssertFailed
      else Inr (v\<lparr> v_items := take newsize (v_items v) @
                     replicate (newsize - length (v_items v)) None,
                   v_maxsize := newsize \<rparr>))"

definition vector_append :: "'a Vector \<Rightarrow> 'a \<Rightarrow> 'a Vector cres" where
  "vector_append v item =
     bindE (if v_maxsize v = v_size v then vector_resize v (v_maxsize v * 2) else Inr v) (\<lambda>v1.
       if v_size v1 < length (v_items v1)
       then Inr (v1\<lparr> v_items := (v_items v1)[v_size v1 := Some item], v_size := v_size v1 + 1 \<rparr>)
       else Inl OutOfBounds)"

definition vector_set :: "'a Vector \<Rightarrow> int \<Rightarrow> 'a \<Rightarrow> 'a Vector" where
  "vector_set v index item =
     (if 0 \<le> index \<and> index < int (v_size v)
      then v\<lparr> v_items := (v_items v)[nat index := Some item] \<rparr> else v)"

definition vector_get :: "'a Vector \<Rightarrow> int \<Rightarrow> 'a option cres" where
  "vector_get v index =
     (if 0 \<le> index \<and> index < int (length (v_items v))
      then Inr (v_items v ! nat index) else Inl OutOfBounds)"

text \<open>The loop of \<^verbatim>\<open>vector_delete\<close>: the slots after the deleted one move down by one.\<close>

function vector_shift :: "'a option list \<Rightarrow> nat \<Rightarrow> nat \<Rightarrow> 'a option list" where
  "vector_shift items i n =
     (if i < n then vector_shift (items[i := items ! (i + 1), i + 1 := None]) (i + 1) n
      else items)"
  by pat_completeness auto
termination
  by (relation "measure (\<lambda>(items, i, n). n - i)") auto

declare vector_shift.simps [simp del]

definition vector_delete :: "'a Vector \<Rightarrow> int \<Rightarrow> 'a Vector cres" where
  "vector_delete v index =
     (if index < 0 \<or> index \<ge> int (v_size v) then Inr v
      else
        let items = vector_shift ((v_items v)[nat index := None]) (nat index) (v_size v - 1);
            v1 = v\<lparr> v_items := items, v_size := v_size v - 1 \<rparr>
        in if v_size v1 > 0 \<and> v_size v1 = v_maxsize v1 div 4
           then vector_resize v1 (v_maxsize v1 div 2) else Inr v1)"

subsection \<open>Sorting\<close>

text \<open>\<^verbatim>\<open>swap\<close> exchanges the contents of two objects byte by byte.\<close>

definition swap :: "addr \<Rightarrow> addr \<Rightarrow> 'o heap \<Rightarrow> 'o heap cres" where
  "swap a b h = bindE (obj_read h a) (\<lambda>x. bindE (obj_read h b) (\<lambda>y. Inr (h(a \<mapsto> y, b \<mapsto> x))))"

definition vector_slot :: "addr Vector \<Rightarrow> int \<Rightarrow> addr cres" where
  "vector_slot v i = bindE (vector_get v i) (\<lambda>p. case p of None \<Rightarrow> Inl NullDeref | Some a \<Rightarrow> Inr a)"

text \<open>The partition loop of \<^verbatim>\<open>quicksort\<close>; \<open>pivot\<close> is a pointer, re-read at every comparison.\<close>

function quicksort_loop ::
    "addr Vector \<Rightarrow> ('o \<Rightarrow> 'o \<Rightarrow> bool) \<Rightarrow> addr \<Rightarrow> int \<Rightarrow> int \<Rightarrow> int \<Rightarrow> 'o heap \<Rightarrow> (int \<times> 'o heap) cres"
where
  "quicksort_loop v cmp pivot i right cnt h =
     (if i \<le> right then
        bindE (vector_slot v i) (\<lambda>a. bindE (obj_read h a) (\<lambda>x. bindE (obj_read h pivot) (\<lambda>p.
          if cmp x p then
            bindE (vector_slot v cnt) (\<lambda>b. bindE (swap b a h) (\<lambda>h'.
              quicksort_loop v cmp pivot (i + 1) right (cnt + 1) h'))
          else quicksort_loop v cmp pivot (i + 1) right cnt h)))
      else Inr (cnt, h))"
  by pat_completeness auto
termination
  by (relation "measure (\<lambda>(v, cmp, pivot, i, right, cnt, h). nat (right + 1 - i))") auto

declare quicksort_loop.simps [simp del]

text \<open>
  The recursion of \<^verbatim>\<open>quicksort\<close>. With a comparison that is not reflexive the second call can be
  the call itself, so the depth of the recursion is a parameter and running out of it is the
  fault of an exhausted stack.
\<close>

fun quicksort ::
    "nat \<Rightarrow> addr Vector \<Rightarrow> int \<Rightarrow> int \<Rightarrow> ('o \<Rightarrow> 'o \<Rightarrow> bool) \<Rightarrow> 'o heap \<Rightarrow> 'o heap cres" where
  "quicksort 0 v left right cmp h = Inl StackExhausted"
| "quicksort (Suc depth) v left right cmp h =
     (if left \<ge> right then Inr h
      else bindE (vector_slot v right) (\<lambda>pivot.
           bindE (quicksort_loop v cmp pivot left right left h) (\<lambda>(cnt, h1).
           bindE (quicksort depth v left (cnt - 2) cmp h1) (\<lambda>h2.
             quicksort depth v cnt right cmp h2))))"

definition vector_qsort :: "nat \<Rightarrow> addr Vector \<Rightarrow> ('o \<Rightarrow> 'o \<Rightarrow> bool) \<Rightarrow> 'o heap \<Rightarrow> 'o heap cres" where
  "vector_qsort depth v cmp h =
     (if v_size v < 2 then Inr h else quicksort depth v 0 (int (v_size v) - 1) cmp h)"


subsection \<open>The sequence a vector holds\<close>

definition vector_inv :: "'a Vector \<Rightarrow> bool" where
  "vector_inv v \<longleftrightarrow> length (v_items v) = v_maxsize v \<and> 2 \<le> v_maxsize v \<and>
     v_size v \<le> v_maxsize v \<and> None \<notin> set (take (v_size v) (v_items v))"

definition vlist :: "'a Vector \<Rightarrow> 'a list" where
  "vlist v = map the (take (v_size v) (v_items v))"

lemma length_vlist [simp]: "vector_inv v \<Longrightarrow> length (vlist v) = v_size v"
  by (simp add: vlist_def vector_inv_def)

lemma vlist_nth: "vector_inv v \<Longrightarrow> i < v_size v \<Longrightarrow> v_items v ! i = Some (vlist v ! i)"
proof -
  assume v: "vector_inv v" and i: "i < v_size v"
  then have "take (v_size v) (v_items v) ! i \<in> set (take (v_size v) (v_items v))"
    by (intro nth_mem) (simp add: vector_inv_def)
  with v i have "v_items v ! i \<noteq> None" by (metis nth_take vector_inv_def)
  with v i show ?thesis by (simp add: vlist_def vector_inv_def)
qed

lemma vector_new_inv: "vector_inv vector_new"
  by (simp add: vector_inv_def vector_new_def VECTOR_INITIAL_CAPACITY_def)

lemma vector_new_vlist [simp]: "vlist vector_new = []"
  by (simp add: vlist_def vector_new_def)

lemma vector_resize_ok:
  assumes "vector_inv v" and "v_size v \<le> n" and "2 \<le> n"
  shows "\<exists>v'. vector_resize v n = Inr v' \<and> vector_inv v' \<and> vlist v' = vlist v \<and>
           v_size v' = v_size v \<and> v_maxsize v' = n"
  using assms by (auto simp: vector_resize_def vector_inv_def vlist_def min_def)

lemma vector_append_room:
  assumes "vector_inv v" and "v_size v < v_maxsize v"
  shows "\<exists>v'. vector_append v x = Inr v' \<and> vector_inv v' \<and> vlist v' = vlist v @ [x]"
  using assms
  by (auto simp: vector_append_def vector_inv_def vlist_def take_Suc_conv_app_nth)

lemma vector_append_ok:
  assumes "vector_inv v"
  shows "\<exists>v'. vector_append v x = Inr v' \<and> vector_inv v' \<and> vlist v' = vlist v @ [x]"
proof (cases "v_size v < v_maxsize v")
  case True
  with assms show ?thesis by (rule vector_append_room)
next
  case False
  with assms have full: "v_size v = v_maxsize v" and "2 \<le> v_maxsize v"
    by (auto simp: vector_inv_def)
  then obtain v1 where v1: "vector_resize v (v_maxsize v * 2) = Inr v1" "vector_inv v1"
    "vlist v1 = vlist v" "v_size v1 = v_size v" "v_maxsize v1 = v_maxsize v * 2"
    using vector_resize_ok [OF assms, of "v_maxsize v * 2"] by auto
  with full \<open>2 \<le> v_maxsize v\<close> have room: "v_size v1 < v_maxsize v1" by simp
  then have "vector_append v1 x = vector_append v x"
    using v1 full by (simp add: vector_append_def)
  with vector_append_room [OF v1(2) room, of x] v1(3) show ?thesis by simp
qed

lemma vector_get_ok: "vector_inv v \<Longrightarrow> i < v_size v \<Longrightarrow> vector_get v (int i) = Inr (Some (vlist v ! i))"
  by (simp add: vector_get_def vlist_nth vector_inv_def)

lemma vector_shift_eq:
  assumes "i \<le> n" and "n < length items" and "items ! i = None"
  shows "vector_shift items i n =
           take i items @ take (n - i) (drop (Suc i) items) @ None # drop (Suc n) items"
  using assms
proof (induction items i n rule: vector_shift.induct)
  case (1 items i n)
  show ?case
  proof (cases "i < n")
    case True
    let ?items = "items[i := items ! (i + 1), i + 1 := None]"
    from True 1 have IH: "vector_shift ?items (i + 1) n = take (i + 1) ?items @
        take (n - (i + 1)) (drop (Suc (i + 1)) ?items) @ None # drop (Suc n) ?items"
      by simp
    have "take (i + 1) ?items = take i items @ [items ! (i + 1)]"
      using True 1(3) by (simp add: take_Suc_conv_app_nth)
    moreover have "take (n - i) (drop (Suc i) items) =
        items ! (i + 1) # take (n - (i + 1)) (drop (Suc (i + 1)) items)"
      using True 1(3) by (simp add: Cons_nth_drop_Suc [symmetric] take_Cons' )
    ultimately show ?thesis
      using True IH by (simp add: vector_shift.simps [of items i n])
  next
    case False
    with 1 have "i = n" by simp
    with 1(2-4) have "items = take i items @ None # drop (Suc n) items"
      using id_take_nth_drop [of i items] by simp
    with \<open>i = n\<close> show ?thesis by (simp add: vector_shift.simps [of items n n])
  qed
qed


lemma vector_delete_slots:
  assumes "vector_inv v" and "i < v_size v"
  shows "vector_shift ((v_items v)[i := None]) i (v_size v - 1) =
           take i (v_items v) @ take (v_size v - 1 - i) (drop (Suc i) (v_items v)) @
           None # drop (v_size v) (v_items v)"
proof -
  have "vector_shift ((v_items v)[i := None]) i (v_size v - 1) =
      take i ((v_items v)[i := None]) @ take (v_size v - 1 - i) (drop (Suc i) ((v_items v)[i := None])) @
      None # drop (Suc (v_size v - 1)) ((v_items v)[i := None])"
    using assms by (intro vector_shift_eq) (auto simp: vector_inv_def)
  then show ?thesis using assms(2) by simp
qed

lemma vector_delete_ok:
  assumes v: "vector_inv v" and i: "i < v_size v"
  shows "\<exists>v'. vector_delete v (int i) = Inr v' \<and> vector_inv v' \<and>
           vlist v' = take i (vlist v) @ drop (Suc i) (vlist v)"
proof -
  let ?items = "take i (v_items v) @ take (v_size v - 1 - i) (drop (Suc i) (v_items v)) @
                None # drop (v_size v) (v_items v)"
  let ?v1 = "v\<lparr> v_items := ?items, v_size := v_size v - 1 \<rparr>"
  have len: "v_size v \<le> length (v_items v)" using v by (simp add: vector_inv_def)
  have kept: "take (v_size v - 1) ?items =
      take i (take (v_size v) (v_items v)) @ drop (Suc i) (take (v_size v) (v_items v))"
    using i len by (simp add: drop_take min_absorb1)
  have vl: "vlist ?v1 = take i (vlist v) @ drop (Suc i) (vlist v)"
  proof -
    have "vlist ?v1 = map the (take (v_size v - 1) ?items)" by (simp add: vlist_def)
    also have "\<dots> = take i (vlist v) @ drop (Suc i) (vlist v)"
      unfolding kept by (simp add: vlist_def take_map drop_map)
    finally show ?thesis .
  qed
  have "set (take (v_size v - 1) ?items) \<subseteq> set (take (v_size v) (v_items v))"
    unfolding kept set_append by (intro Un_least set_take_subset set_drop_subset)
  moreover have "length ?items = length (v_items v)" using i len by simp
  ultimately have inv1: "vector_inv ?v1"
    using v i unfolding vector_inv_def by (auto simp del: take_append length_append)
  have del: "vector_delete v (int i) =
      (if v_size ?v1 > 0 \<and> v_size ?v1 = v_maxsize ?v1 div 4
       then vector_resize ?v1 (v_maxsize ?v1 div 2) else Inr ?v1)"
    using i unfolding vector_delete_def Let_def nat_int vector_delete_slots [OF v i] by simp
  from inv1 vl del obtain v1 where v1: "vector_inv v1" "vlist v1 = take i (vlist v) @ drop (Suc i) (vlist v)"
    "vector_delete v (int i) = (if v_size v1 > 0 \<and> v_size v1 = v_maxsize v1 div 4
       then vector_resize v1 (v_maxsize v1 div 2) else Inr v1)" by blast
  show ?thesis
  proof (cases "v_size v1 > 0 \<and> v_size v1 = v_maxsize v1 div 4")
    case True
    then have "v_size v1 \<le> v_maxsize v1 div 2" and "2 \<le> v_maxsize v1 div 2" by auto
    from vector_resize_ok [OF v1(1) this] True v1 show ?thesis by auto
  next
    case False
    with v1 show ?thesis by auto
  qed
qed


subsection \<open>The sequence interface\<close>

text \<open>
  What the users of a vector rely on: the trie appends the keys of a range query to it, and the
  server reads, appends and deletes expiring keys by position.
\<close>

locale sequence =
  fixes invar :: "'v \<Rightarrow> bool"
    and cont :: "'v \<Rightarrow> 'a list"
    and app :: "'v \<Rightarrow> 'a \<Rightarrow> 'v cres"
    and get :: "'v \<Rightarrow> int \<Rightarrow> 'a option cres"
    and del :: "'v \<Rightarrow> int \<Rightarrow> 'v cres"
  assumes app_ok: "invar v \<Longrightarrow> \<exists>v'. app v x = Inr v' \<and> invar v' \<and> cont v' = cont v @ [x]"
    and get_ok: "invar v \<Longrightarrow> i < length (cont v) \<Longrightarrow> get v (int i) = Inr (Some (cont v ! i))"
    and del_ok: "invar v \<Longrightarrow> i < length (cont v) \<Longrightarrow>
          \<exists>v'. del v (int i) = Inr v' \<and> invar v' \<and> cont v' = take i (cont v) @ drop (Suc i) (cont v)"
begin

lemma app_all:
  "invar v \<Longrightarrow> \<exists>v'. foldE app v xs = Inr v' \<and> invar v' \<and> cont v' = cont v @ xs"
proof (induction xs arbitrary: v)
  case (Cons x xs)
  from app_ok [OF Cons.prems] obtain v1
    where v1: "app v x = Inr v1" "invar v1" "cont v1 = cont v @ [x]" by blast
  from Cons.IH [OF v1(2)] v1 show ?case by auto
qed simp

lemma del_app:
  assumes "invar v"
  shows "\<exists>v'. bindE (app v x) (\<lambda>v1. del v1 (int (length (cont v)))) = Inr v' \<and>
           invar v' \<and> cont v' = cont v"
proof -
  from app_ok [OF assms] obtain v1 where v1: "app v x = Inr v1" "invar v1" "cont v1 = cont v @ [x]"
    by blast
  with del_ok [OF v1(2), of "length (cont v)"] show ?thesis by auto
qed

end

interpretation vec: sequence vector_inv vlist vector_append vector_get vector_delete
  by unfold_locales (auto intro: vector_append_ok vector_get_ok vector_delete_ok)

subsection \<open>Correctness of the sort\<close>

definition sort_state :: "addr Vector \<Rightarrow> 'o heap \<Rightarrow> 'o list \<Rightarrow> bool" where
  "sort_state v h xs \<longleftrightarrow> vector_inv v \<and> distinct (vlist v) \<and> map h (vlist v) = map Some xs"

lemma sort_state_len: "sort_state v h xs \<Longrightarrow> length xs = v_size v"
  by (auto simp: sort_state_def dest: arg_cong [where f = length])

lemma sort_state_read:
  assumes "sort_state v h xs" and "i < length xs"
  shows "vector_slot v (int i) = Inr (vlist v ! i)" and "h (vlist v ! i) = Some (xs ! i)"
proof -
  from assms have len: "i < v_size v" by (simp add: sort_state_len)
  with assms(1) show "vector_slot v (int i) = Inr (vlist v ! i)"
    by (simp add: vector_slot_def sort_state_def vector_get_ok)
  have "h (vlist v ! i) = map h (vlist v) ! i"
    using assms(1) len by (intro nth_map [symmetric]) (simp add: sort_state_def)
  also have "\<dots> = map Some xs ! i" using assms(1) by (simp add: sort_state_def)
  finally show "h (vlist v ! i) = Some (xs ! i)" using assms(2) by simp
qed

lemma sort_state_swap:
  assumes st: "sort_state v h xs" and i: "i < length xs" and j: "j < length xs"
  shows "\<exists>h'. swap (vlist v ! i) (vlist v ! j) h = Inr h' \<and>
           sort_state v h' (xs[i := xs ! j, j := xs ! i]) \<and>
           (\<forall>a. a \<notin> set (vlist v) \<longrightarrow> h' a = h a)"
proof -
  let ?h = "h(vlist v ! i \<mapsto> xs ! j, vlist v ! j \<mapsto> xs ! i)"
  have sw: "swap (vlist v ! i) (vlist v ! j) h = Inr ?h"
    using sort_state_read [OF st i] sort_state_read [OF st j] by (simp add: swap_def fault_simps)
  have len: "length (vlist v) = length xs" and d: "distinct (vlist v)"
    using st sort_state_len [OF st] by (auto simp: sort_state_def)
  have "map ?h (vlist v) = map Some (xs[i := xs ! j, j := xs ! i])"
  proof (rule nth_equalityI)
    fix k assume "k < length (map ?h (vlist v))"
    then have k: "k < length xs" using len by simp
    have ne: "vlist v ! k = vlist v ! m \<longleftrightarrow> k = m" if "m < length xs" for m
      using d k that len by (simp add: nth_eq_iff_index_eq)
    show "map ?h (vlist v) ! k = map Some (xs[i := xs ! j, j := xs ! i]) ! k"
      using k i j len ne [OF i] ne [OF j] sort_state_read(2) [OF st k]
      by (auto simp: nth_list_update)
  qed (simp add: len)
  with st have "sort_state v ?h (xs[i := xs ! j, j := xs ! i])" by (simp add: sort_state_def)
  with sw i j len show ?thesis by auto
qed



lemma swap_to_front:
  "\<exists>B1. mset B1 = mset B \<and> length B1 = length B \<and>
     (pre @ A @ B @ c # rest)[length (pre @ A) := c,
        length (pre @ A @ B) := (pre @ A @ B @ c # rest) ! length (pre @ A)] = pre @ A @ c # B1 @ rest"
proof (cases B)
  case Nil
  then show ?thesis by (simp add: list_update_append nth_append)
next
  case (Cons b B0)
  then show ?thesis
    by (intro exI [of _ "B0 @ [b]"]) (simp add: list_update_append nth_append)
qed

lemma quicksort_loop_skip:
  assumes "sort_state v h xs" and "i \<le> right" and "right < length xs"
    and "\<not> cmp (xs ! i) (xs ! right)"
  shows "quicksort_loop v cmp (vlist v ! right) (int i) (int right) cnt h =
         quicksort_loop v cmp (vlist v ! right) (int (i + 1)) (int right) cnt h"
  using assms sort_state_read [OF assms(1), of i] sort_state_read [OF assms(1), of right]
  by (subst quicksort_loop.simps) (simp add: fault_simps add.commute)

lemma quicksort_loop_move:
  assumes st: "sort_state v h (pre @ A @ B @ c # rest)"
    and i: "i = length (pre @ A @ B)" and c: "cnt = length (pre @ A)"
    and r: "i \<le> right" "right < length (pre @ A @ B @ c # rest)"
    and cmp: "cmp c ((pre @ A @ B @ c # rest) ! right)"
  shows "\<exists>B1 h1. mset B1 = mset B \<and> length B1 = length B \<and>
           sort_state v h1 (pre @ A @ c # B1 @ rest) \<and>
           (\<forall>a. a \<notin> set (vlist v) \<longrightarrow> h1 a = h a) \<and>
           quicksort_loop v cmp (vlist v ! right) (int i) (int right) (int cnt) h =
           quicksort_loop v cmp (vlist v ! right) (int (i + 1)) (int right) (int (cnt + 1)) h1"
proof -
  let ?xs = "pre @ A @ B @ c # rest"
  have il: "i < length ?xs" and cl: "cnt < length ?xs" and xi: "?xs ! i = c"
    using i c by (simp_all add: nth_append)
  from sort_state_swap [OF st cl il] obtain h1 where
    h1: "swap (vlist v ! cnt) (vlist v ! i) h = Inr h1"
      "sort_state v h1 (?xs[cnt := c, i := ?xs ! cnt])"
      "\<forall>a. a \<notin> set (vlist v) \<longrightarrow> h1 a = h a" using xi by auto
  have "quicksort_loop v cmp (vlist v ! right) (int i) (int right) (int cnt) h =
      quicksort_loop v cmp (vlist v ! right) (int (i + 1)) (int right) (int (cnt + 1)) h1"
    using cmp xi r(1) h1(1) sort_state_read [OF st il] sort_state_read [OF st r(2)]
      sort_state_read(1) [OF st cl]
    by (subst quicksort_loop.simps) (simp add: fault_simps add.commute)
  with h1 swap_to_front [of B pre A c rest] i c show ?thesis by metis
qed

text \<open>
  One run of the partition loop, on the contents \<open>pre @ A @ B @ C @ p # post\<close>: \<open>A\<close> is what has
  been moved to the front, \<open>B\<close> what failed the comparison, \<open>C\<close> what is still to come before the
  pivot \<open>p\<close>.
\<close>

lemma quicksort_loop_split:
  fixes pre A B C post :: "'o list"
  assumes "sort_state v h (pre @ A @ B @ C @ p # post)"
    and "i = length (pre @ A @ B)" and "cnt = length (pre @ A)" and "right = length (pre @ A @ B @ C)"
    and "\<forall>x \<in> set A. cmp x p" and "\<forall>x \<in> set B. \<not> cmp x p" and "cmp p p"
  shows "\<exists>A' B' h'. quicksort_loop v cmp (vlist v ! right) (int i) (int right) (int cnt) h =
             Inr (int (length (pre @ A') + 1), h') \<and>
           sort_state v h' (pre @ A' @ p # B' @ post) \<and>
           (\<forall>x \<in> set A'. cmp x p) \<and> (\<forall>x \<in> set B'. \<not> cmp x p) \<and>
           mset (A' @ B') = mset (A @ B @ C) \<and> (\<forall>a. a \<notin> set (vlist v) \<longrightarrow> h' a = h a)"
  using assms
proof (induction C arbitrary: A B h i cnt)
  case Nil
  then have "cmp p ((pre @ A @ B @ p # post) ! right)" by (simp add: nth_append)
  with quicksort_loop_move [of v h pre A B p post i cnt right cmp] Nil.prems
  obtain B1 h1 where m: "mset B1 = mset B" "sort_state v h1 (pre @ A @ p # B1 @ post)"
    "\<forall>a. a \<notin> set (vlist v) \<longrightarrow> h1 a = h a"
    "quicksort_loop v cmp (vlist v ! right) (int i) (int right) (int cnt) h =
     quicksort_loop v cmp (vlist v ! right) (int (i + 1)) (int right) (int (cnt + 1)) h1"
    by auto
  moreover have "quicksort_loop v cmp (vlist v ! right) (int (i + 1)) (int right) (int (cnt + 1)) h1 =
      Inr (int (length (pre @ A) + 1), h1)"
    using Nil.prems(2-4) by (simp add: quicksort_loop.simps)
  ultimately show ?case using Nil.prems(5,6) mset_eq_setD [OF m(1)]
    by (intro exI [of _ A] exI [of _ B1] exI [of _ h1]) auto
next
  case (Cons c C)
  have xr: "(pre @ A @ B @ (c # C) @ p # post) ! right = p" using Cons.prems(4)
    by (simp add: nth_append)
  show ?case
  proof (cases "cmp c p")
    case False
    with quicksort_loop_skip [of v h "pre @ A @ B @ (c # C) @ p # post" i right cmp "int cnt"]
      Cons.prems xr Cons.IH [of h A "B @ [c]" "i + 1" cnt]
    show ?thesis by (auto simp: nth_append)
  next
    case True
    with quicksort_loop_move [of v h pre A B c "C @ p # post" i cnt right cmp] Cons.prems xr
    obtain B1 h1 where m: "mset B1 = mset B" "length B1 = length B"
      "sort_state v h1 (pre @ (A @ [c]) @ B1 @ C @ p # post)"
      "\<forall>a. a \<notin> set (vlist v) \<longrightarrow> h1 a = h a"
      "quicksort_loop v cmp (vlist v ! right) (int i) (int right) (int cnt) h =
       quicksort_loop v cmp (vlist v ! right) (int (i + 1)) (int right) (int (cnt + 1)) h1"
      by auto
    with Cons.IH [of h1 "A @ [c]" B1 "i + 1" "cnt + 1"] Cons.prems True mset_eq_setD [OF m(1)]
    show ?thesis by (auto simp: union_assoc)
  qed
qed

lemma quicksort_partition:
  assumes "sort_state v h (pre @ C @ p # post)" and "cmp p p"
  shows "\<exists>A B h'. quicksort_loop v cmp (vlist v ! length (pre @ C)) (int (length pre))
             (int (length (pre @ C))) (int (length pre)) h = Inr (int (length (pre @ A) + 1), h') \<and>
           sort_state v h' (pre @ A @ p # B @ post) \<and>
           (\<forall>x \<in> set A. cmp x p) \<and> (\<forall>x \<in> set B. \<not> cmp x p) \<and>
           mset (A @ B) = mset C \<and> (\<forall>a. a \<notin> set (vlist v) \<longrightarrow> h' a = h a)"
  using quicksort_loop_split [of v h pre "[]" "[]" C p post _ _ _ cmp, OF _ refl refl refl] assms
  by simp

lemma sorted_wrt_around:
  assumes "sorted_wrt cmp A" and "sorted_wrt cmp B"
    and "\<forall>x \<in> set A. cmp x p" and "\<forall>x \<in> set B. cmp p x"
    and "\<And>x y z. cmp x y \<Longrightarrow> cmp y z \<Longrightarrow> cmp x z"
  shows "sorted_wrt cmp (A @ p # B)"
  using assms by (auto simp: sorted_wrt_append intro: assms(5) [of _ p])

text \<open>The comparisons a sort accepts: total preorders.\<close>

locale total_preorder =
  fixes cmp :: "'o \<Rightarrow> 'o \<Rightarrow> bool"
  assumes cmp_trans: "cmp x y \<Longrightarrow> cmp y z \<Longrightarrow> cmp x z"
    and cmp_total: "cmp x y \<or> cmp y x"
begin

lemma cmp_refl: "cmp x x"
  using cmp_total by blast

text \<open>The whole sort of a block of slots, by induction on the depth.\<close>

lemma quicksort_block:
  assumes "sort_state v h (pre @ xs @ post)" and "length xs < depth"
  shows "\<exists>ys h'. quicksort depth v (int (length pre)) (int (length (pre @ xs)) - 1) cmp h = Inr h' \<and>
           sort_state v h' (pre @ ys @ post) \<and> mset ys = mset xs \<and> sorted_wrt cmp ys \<and>
           (\<forall>a. a \<notin> set (vlist v) \<longrightarrow> h' a = h a)"
  using assms
proof (induction depth arbitrary: h pre xs post)
  case (Suc depth)
  show ?case
  proof (cases "length xs \<le> 1")
    case True
    then have "sorted_wrt cmp xs" by (rule sorted_wrt01)
    with True Suc.prems(1) show ?thesis by (auto intro!: exI [of _ xs])
  next
    case False
    then obtain C p where xs: "xs = C @ [p]" by (cases xs rule: rev_cases) auto
    with Suc.prems(1) have st: "sort_state v h (pre @ C @ p # post)" by simp
    from quicksort_partition [OF st, of cmp] cmp_refl obtain A B h1 where
      l: "quicksort_loop v cmp (vlist v ! length (pre @ C)) (int (length pre))
            (int (length (pre @ C))) (int (length pre)) h = Inr (int (length (pre @ A) + 1), h1)"
      and st1: "sort_state v h1 (pre @ A @ p # B @ post)"
      and AB: "\<forall>x \<in> set A. cmp x p" "\<forall>x \<in> set B. \<not> cmp x p" "mset (A @ B) = mset C"
        "\<forall>a. a \<notin> set (vlist v) \<longrightarrow> h1 a = h a" by blast
    from mset_eq_length [OF AB(3)] Suc.prems(2) xs
    have lA: "length A < depth" and lB: "length B < depth" and lC: "length C = length A + length B"
      by simp_all
    from Suc.IH [OF st1 lA] obtain A' h2 where
      A': "quicksort depth v (int (length pre)) (int (length (pre @ A)) - 1) cmp h1 = Inr h2"
        "sort_state v h2 ((pre @ A' @ [p]) @ B @ post)" "mset A' = mset A" "sorted_wrt cmp A'"
        "\<forall>a. a \<notin> set (vlist v) \<longrightarrow> h2 a = h1 a" by auto
    from Suc.IH [OF A'(2) lB] obtain B' h3 where
      B': "quicksort depth v (int (length (pre @ A' @ [p]))) (int (length ((pre @ A' @ [p]) @ B)) - 1) cmp h2 = Inr h3"
        "sort_state v h3 ((pre @ A' @ [p]) @ B' @ post)" "mset B' = mset B" "sorted_wrt cmp B'"
        "\<forall>a. a \<notin> set (vlist v) \<longrightarrow> h3 a = h2 a" by auto
    have slot: "vector_slot v (int (length (pre @ C))) = Inr (vlist v ! length (pre @ C))"
      using sort_state_read(1) [OF st, of "length (pre @ C)"] by simp
    have "length xs = length A + length B + 1" using xs lC by simp
    with False have "0 < int (length A) + int (length B)" by linarith
    then have "quicksort (Suc depth) v (int (length pre)) (int (length (pre @ xs)) - 1) cmp h = Inr h3"
      using xs slot l A'(1) B'(1) mset_eq_length [OF A'(3)] lC by (simp add: algebra_simps)
    moreover have "\<forall>x \<in> set B. cmp p x" using AB(2) cmp_total by blast
    then have "sorted_wrt cmp (A' @ p # B')"
      using A'(4) B'(4) mset_eq_setD [OF A'(3)] mset_eq_setD [OF B'(3)] AB(1)
      by (intro sorted_wrt_around) (auto intro: cmp_trans)
    ultimately show ?thesis using A' B' AB xs
      by (intro exI [of _ "A' @ p # B'"] exI [of _ h3]) auto
  qed
qed simp


text \<open>\<^verbatim>\<open>vector_qsort\<close> on the whole vector needs no more stack than one level per element.\<close>

lemma vector_qsort_ok:
  assumes "sort_state v h xs" and "length xs < depth"
  shows "\<exists>ys h'. vector_qsort depth v cmp h = Inr h' \<and> sort_state v h' ys \<and> mset ys = mset xs \<and>
           sorted_wrt cmp ys \<and> (\<forall>a. a \<notin> set (vlist v) \<longrightarrow> h' a = h a)"
proof (cases "v_size v < 2")
  case True
  with sort_state_len [OF assms(1)] have "sorted_wrt cmp xs" by (intro sorted_wrt01) simp
  with True assms(1) show ?thesis by (auto simp: vector_qsort_def)
next
  case False
  with quicksort_block [of v h "[]" xs "[]" depth] assms show ?thesis
    by (simp add: vector_qsort_def sort_state_len [OF assms(1)])
qed

end

subsection \<open>Properties\<close>

text \<open>Appending to a vector, whether or not the block has to grow, succeeds and adds exactly the
  new pointer at the end of the sequence.\<close>

theorem vector_append_correct:
  assumes "vector_inv v"
  shows "\<exists>v'. vector_append v x = Inr v' \<and> vector_inv v' \<and> vlist v' = vlist v @ [x]"
  using assms by (rule vector_append_ok)

theorem vector_append_correct_witness:
  "\<exists>v'. vector_append (vector_new :: nat Vector) 5 = Inr v' \<and> vector_inv v' \<and> vlist v' = [5]"
  using vector_append_correct [OF vector_new_inv, of 5] by simp

text \<open>Deleting a position that exists removes exactly that element, keeps the order of the
  others, and keeps the vector well formed also where the block shrinks.\<close>

theorem vector_delete_correct:
  assumes "vector_inv v" and "i < v_size v"
  shows "\<exists>v'. vector_delete v (int i) = Inr v' \<and> vector_inv v' \<and>
           vlist v' = take i (vlist v) @ drop (Suc i) (vlist v)"
  using assms by (rule vector_delete_ok)

theorem vector_delete_correct_witness:
  "\<exists>v v'. vector_append (vector_new :: nat Vector) 5 = Inr v \<and> vector_delete v (int 0) = Inr v' \<and>
     vector_inv v' \<and> vlist v' = []"
proof -
  from vector_append_ok [OF vector_new_inv, of "5 :: nat"] obtain v where
    v: "vector_append vector_new (5 :: nat) = Inr v" "vector_inv v" "vlist v = [5]" by auto
  then have "0 < v_size v" using length_vlist [of v] by simp
  from vector_delete_correct [OF v(2) this] v show ?thesis by auto
qed

text \<open>C32. Sorting a vector of distinct objects with a total preorder returns, with a stack no deeper
  than one call per element, leaves the objects' contents a sorted permutation of what they were,
  and touches no other object.\<close>

theorem vector_qsort_correct:
  assumes "vector_inv v" and "distinct (vlist v)" and "map h (vlist v) = map Some xs"
    and trans: "\<And>x y z. cmp x y \<Longrightarrow> cmp y z \<Longrightarrow> cmp x z" and total: "\<And>x y. cmp x y \<or> cmp y x"
  shows "\<exists>ys h'. vector_qsort (Suc (v_size v)) v cmp h = Inr h' \<and> map h' (vlist v) = map Some ys \<and>
           mset ys = mset xs \<and> sorted_wrt cmp ys \<and> (\<forall>a. a \<notin> set (vlist v) \<longrightarrow> h' a = h a)"
proof -
  from trans total have "total_preorder cmp" by (rule total_preorder.intro)
  moreover have st: "sort_state v h xs" using assms by (simp add: sort_state_def)
  moreover have "length xs < Suc (v_size v)" using sort_state_len [OF st] by simp
  ultimately show ?thesis
    using total_preorder.vector_qsort_ok [of cmp v h xs "Suc (v_size v)"]
    by (auto simp: sort_state_def)
qed


theorem vector_qsort_correct_witness:
  "\<exists>ys h'. vector_qsort 3 \<lparr> v_items = [Some 10, Some 11, None, None], v_maxsize = 4, v_size = 2 \<rparr>
       (\<le>) [10 \<mapsto> 5, 11 \<mapsto> (3 :: int)] = Inr h' \<and>
     map h' [10, 11] = map Some ys \<and> mset ys = mset [5, 3] \<and> sorted_wrt (\<le>) ys"
proof -
  let ?v = "\<lparr> v_items = [Some 10, Some 11, None, None], v_maxsize = 4, v_size = 2 \<rparr> :: addr Vector"
  have "vector_inv ?v" and vl: "vlist ?v = [10, 11]"
    by (simp_all add: vector_inv_def vlist_def)
  moreover have "map [10 \<mapsto> 5, 11 \<mapsto> (3 :: int)] (vlist ?v) = map Some [5, 3]"
    by (simp add: vl)
  ultimately have "\<exists>ys h'. vector_qsort (Suc (v_size ?v)) ?v (\<le>) [10 \<mapsto> 5, 11 \<mapsto> (3 :: int)] = Inr h' \<and>
      map h' (vlist ?v) = map Some ys \<and> mset ys = mset [5, 3] \<and> sorted_wrt (\<le>) ys \<and>
      (\<forall>a. a \<notin> set (vlist ?v) \<longrightarrow> h' a = [10 \<mapsto> 5, 11 \<mapsto> (3 :: int)] a)"
    by (intro vector_qsort_correct) auto
  moreover have "Suc (v_size ?v) = 3" by simp
  ultimately show ?thesis unfolding vl by metis
qed

end
