(* ===== verification/Tdb_Trie.thy ===== *)
theory Tdb_Trie
  imports Tdb_Bst Tdb_Vector
begin

text \<open>
  The trie of \<^verbatim>\<open>src/trie.c\<close>. A node has a byte, the search tree of its children and a data pointer,
  NULL where no key ends. The nodes are owned by their parent and are rebuilt values; the data
  pointers are shared with other parts of the server and are addresses of a heap. A trie whose
  root has been released (\<^verbatim>\<open>database_flush\<close>) has the root \<open>None\<close>, and using it is a fault.
\<close>

datatype trie_node =
  TNode (tn_chr: byte) (tn_children: "trie_node bst_node") (tn_data: "addr option")

text \<open>
  A \<^verbatim>\<open>trie_destructor\<close> gets a node and the flag \<^verbatim>\<open>dataonly\<close>; it returns its boolean, the content of
  the node afterwards (of no use where the node itself was released) and the heap.
\<close>

type_synonym 'v trie_destructor = "trie_node \<Rightarrow> bool \<Rightarrow> 'v heap \<Rightarrow> (bool \<times> trie_node \<times> 'v heap) cres"

record 'v Trie =
  t_destructor :: "'v trie_destructor option"
  t_root :: "trie_node option"
  t_size :: u64

text \<open>A \<^verbatim>\<open>struct kv_obj\<close>: a key and the data pointer stored under it.\<close>

type_synonym kv_obj = "cstring \<times> addr"

definition trie_is_free_node :: "trie_node \<Rightarrow> bool" where
  "trie_is_free_node node = (tn_children node = BNull)"

fun trie_node_find :: "trie_node \<Rightarrow> cstring \<Rightarrow> trie_node option" where
  "trie_node_find node [] = Some node"
| "trie_node_find node (c # prefix) =
     (case bst_search (tn_children node) c of
        BNull \<Rightarrow> None
      | BNode k h l r child \<Rightarrow> trie_node_find child prefix)"

text \<open>The counters are C \<^verbatim>\<open>int\<close>, kept at their width.\<close>

primrec trie_node_count :: "trie_node \<Rightarrow> u32"
  and trie_children_count :: "trie_node bst_node \<Rightarrow> u32" where
  "trie_node_count (TNode c ch d) =
     (if d \<noteq> None then 1 + trie_children_count ch else trie_children_count ch)"
| "trie_children_count BNull = 0"
| "trie_children_count (BNode k h l r n) =
     trie_node_count n + trie_children_count l + trie_children_count r"

definition trie_create_node :: "byte \<Rightarrow> trie_node" where
  "trie_create_node c = TNode c BNull None"

definition trie_new :: "'v trie_destructor option \<Rightarrow> 'v Trie" where
  "trie_new destructor =
     \<lparr> t_destructor = destructor, t_root = Some (trie_create_node 0), t_size = 0 \<rparr>"

definition trie_size :: "'v Trie \<Rightarrow> u64" where
  "trie_size trie = t_size trie"

text \<open>
  The loop of \<^verbatim>\<open>trie_node_insert\<close> moves a cursor down and links a missing child under it; the write
  to the node at the end of the key is seen through the links above it. \<open>trie_child\<close> is the node
  the cursor moves to and \<open>trie_link\<close> the children of the node it leaves.
\<close>

definition trie_child :: "trie_node bst_node \<Rightarrow> byte \<Rightarrow> trie_node" where
  "trie_child ch c =
     (case bst_search ch c of BNull \<Rightarrow> trie_create_node c | BNode k h l r child \<Rightarrow> child)"

definition trie_link :: "trie_node bst_node \<Rightarrow> byte \<Rightarrow> trie_node \<Rightarrow> trie_node bst_node cres" where
  "trie_link ch c child =
     (case bst_search ch c of
        BNull \<Rightarrow> bindE (bst_insert ch c (trie_create_node c)) (\<lambda>ch'. Inr (bst_write c child ch'))
      | BNode k h l r child0 \<Rightarrow> Inr (bst_write c child ch))"

fun trie_node_insert :: "trie_node \<Rightarrow> cstring \<Rightarrow> addr option \<Rightarrow> u64 \<Rightarrow> (trie_node \<times> u64) cres" where
  "trie_node_insert (TNode c ch d) [] data sz =
     Inr (TNode c ch data, if d = None then sz + 1 else sz)"
| "trie_node_insert (TNode c ch d) (x # key) data sz =
     bindE (trie_node_insert (trie_child ch x) key data sz) (\<lambda>(child, sz').
     bindE (trie_link ch x child) (\<lambda>ch'. Inr (TNode c ch' d, sz')))"

definition trie_insert :: "'v Trie \<Rightarrow> cstring \<Rightarrow> addr option \<Rightarrow> 'v Trie cres" where
  "trie_insert trie key data =
     (case t_root trie of
        None \<Rightarrow> Inl UseAfterFree
      | Some root \<Rightarrow>
          bindE (trie_node_insert root key data (t_size trie)) (\<lambda>(root', sz').
            Inr (trie\<lparr> t_root := Some root', t_size := sz' \<rparr>)))"

text \<open>\<^verbatim>\<open>trie_node_search\<close>: the data pointer, \<open>None\<close> where the C function returns false.\<close>

definition trie_node_search :: "trie_node \<Rightarrow> cstring \<Rightarrow> addr option" where
  "trie_node_search root key =
     (case trie_node_find root key of None \<Rightarrow> None | Some cursor \<Rightarrow> tn_data cursor)"

definition trie_find :: "'v Trie \<Rightarrow> cstring \<Rightarrow> addr option cres" where
  "trie_find trie key =
     (case t_root trie of None \<Rightarrow> Inl UseAfterFree | Some root \<Rightarrow> Inr (trie_node_search root key))"

text \<open>The trie after the node at the end of a path has been overwritten through its pointer.\<close>

fun trie_put_at :: "trie_node \<Rightarrow> cstring \<Rightarrow> trie_node \<Rightarrow> trie_node" where
  "trie_put_at node [] node' = node'"
| "trie_put_at (TNode c ch d) (x # path) node' =
     (case bst_search ch x of
        BNull \<Rightarrow> TNode c ch d
      | BNode k h l r child \<Rightarrow> TNode c (bst_write x (trie_put_at child path node') ch) d)"

definition trie_delete :: "'v Trie \<Rightarrow> cstring \<Rightarrow> 'v heap \<Rightarrow> (bool \<times> 'v Trie \<times> 'v heap) cres" where
  "trie_delete trie key h =
     (case t_root trie of
        None \<Rightarrow> Inl UseAfterFree
      | Some root \<Rightarrow>
          if length key > 0 then
            (case trie_node_find root key of
               None \<Rightarrow> Inr (False, trie, h)
             | Some retnode \<Rightarrow>
                 (case t_destructor trie of
                    Some destructor \<Rightarrow>
                      bindE (destructor retnode True h) (\<lambda>(ret, retnode', h').
                        Inr (ret, trie\<lparr> t_root := Some (trie_put_at root key retnode'),
                               t_size := (if ret then t_size trie - 1 else t_size trie) \<rparr>, h'))
                  | None \<Rightarrow>
                      (case tn_data retnode of
                         None \<Rightarrow> Inr (True, trie, h)
                       | Some a \<Rightarrow>
                           bindE (obj_free h a) (\<lambda>h'.
                             Inr (True, trie\<lparr> t_root := Some (trie_put_at root key
                                      (TNode (tn_chr retnode) (tn_children retnode) None)),
                                    t_size := t_size trie - 1 \<rparr>, h')))))
          else Inr (False, trie, h))"

text \<open>
  \<^verbatim>\<open>trie_node_destroy\<close> and \<^verbatim>\<open>children_destroy\<close>: the heap and the sz counter are threaded through.
  With a destructor the counter is left alone.
\<close>

primrec trie_node_destroy ::
    "trie_node \<Rightarrow> 'v trie_destructor option \<Rightarrow> 'v heap \<Rightarrow> u64 \<Rightarrow> ('v heap \<times> u64) cres"
  and children_destroy ::
    "trie_node bst_node \<Rightarrow> 'v trie_destructor option \<Rightarrow> 'v heap \<Rightarrow> u64 \<Rightarrow> ('v heap \<times> u64) cres"
where
  "trie_node_destroy (TNode c ch d) destructor h sz =
     bindE (children_destroy ch destructor h sz) (\<lambda>(h1, sz1).
       case destructor of
         Some f \<Rightarrow> bindE (f (TNode c BNull d) False h1) (\<lambda>(ret, node', h2). Inr (h2, sz1))
       | None \<Rightarrow>
           (case d of
              None \<Rightarrow> Inr (h1, sz1)
            | Some a \<Rightarrow> bindE (obj_free h1 a) (\<lambda>h2.
                Inr (h2, if sz1 > 0 then sz1 - 1 else sz1))))"
| "children_destroy BNull destructor h sz = Inr (h, sz)"
| "children_destroy (BNode k hh l r n) destructor h sz =
     bindE (trie_node_destroy n destructor h sz) (\<lambda>(h1, sz1).
     bindE (children_destroy l destructor h1 sz1) (\<lambda>(h2, sz2).
       children_destroy r destructor h2 sz2))"

definition trie_prefix_delete :: "'v Trie \<Rightarrow> cstring \<Rightarrow> 'v heap \<Rightarrow> ('v Trie \<times> 'v heap) cres" where
  "trie_prefix_delete trie prefix h =
     (case t_root trie of
        None \<Rightarrow> Inl UseAfterFree
      | Some root \<Rightarrow>
          (case trie_node_find root prefix of
             None \<Rightarrow> Inr (trie, h)
           | Some cursor \<Rightarrow>
               if trie_is_free_node cursor then
                 bindE (trie_delete trie prefix h) (\<lambda>(ret, trie', h'). Inr (trie', h'))
               else
                 bindE (children_destroy (tn_children cursor) (t_destructor trie) h (t_size trie))
                   (\<lambda>(h1, sz1).
                   bindE (trie_delete
                            (trie\<lparr> t_root := Some (trie_put_at root prefix
                                       (TNode (tn_chr cursor) BNull (tn_data cursor))),
                                   t_size := sz1 \<rparr>) prefix h1)
                     (\<lambda>(ret, trie', h'). Inr (trie', h')))))"

definition trie_prefix_count :: "'v Trie \<Rightarrow> cstring \<Rightarrow> u32 cres" where
  "trie_prefix_count trie prefix =
     (case t_root trie of
        None \<Rightarrow> Inl UseAfterFree
      | Some root \<Rightarrow>
          (case trie_node_find root prefix of
             None \<Rightarrow> Inr 0
           | Some node \<Rightarrow> Inr (0 + trie_node_count node)))"

text \<open>
  A write \<^verbatim>\<open>str[level] = c\<close> to the key buffer of a range query. At level -1, reached for the root
  when the prefix is empty, the byte written is the NUL of the root and its place is the most
  significant byte of the block sz that \<^verbatim>\<open>tmalloc\<close> keeps in front of the buffer, which is
  zero already; any other write outside the block is a fault.
\<close>

definition str_put :: "bytes \<Rightarrow> int \<Rightarrow> byte \<Rightarrow> bytes cres" where
  "str_put str level c =
     (if level = -1 then (if c = 0 then Inr str else Inl OutOfBounds)
      else if 0 \<le> level \<and> level < int (length str) then Inr (str[nat level := c])
      else Inl OutOfBounds)"

text \<open>
  Where the level reaches the size of the buffer, \<^verbatim>\<open>trealloc\<close> may move the block while the callers
  keep the old pointer, which \<^verbatim>\<open>trie_prefix_find\<close> releases at the end at the latest. A pointer that has been
  passed to \<^verbatim>\<open>realloc\<close> must not be used any more, even where the block has not moved, so this is a fault.
\<close>

primrec trie_node_prefix_find ::
    "trie_node \<Rightarrow> bytes \<Rightarrow> int \<Rightarrow> kv_obj Vector \<Rightarrow> (bytes \<times> kv_obj Vector) cres"
  and children_prefix_find ::
    "trie_node bst_node \<Rightarrow> bytes \<Rightarrow> int \<Rightarrow> kv_obj Vector \<Rightarrow> (bytes \<times> kv_obj Vector) cres"
where
  "trie_node_prefix_find (TNode c ch d) str level keys =
     (if level = int (length str) then Inl UseAfterFree
      else bindE (str_put str level c) (\<lambda>str1.
           bindE (case d of
                    None \<Rightarrow> Inr (str1, keys)
                  | Some a \<Rightarrow>
                      bindE (str_put str1 (level + 1) 0) (\<lambda>str2.
                      bindE (vector_append keys (c_string str2, a)) (\<lambda>keys1. Inr (str2, keys1))))
             (\<lambda>(str2, keys1). children_prefix_find ch str2 (level + 1) keys1)))"
| "children_prefix_find BNull str level keys = Inr (str, keys)"
| "children_prefix_find (BNode k h l r n) str level keys =
     bindE (trie_node_prefix_find n str level keys) (\<lambda>(str1, keys1).
     bindE (children_prefix_find l str1 level keys1) (\<lambda>(str2, keys2).
       children_prefix_find r str2 level keys2))"

text \<open>
  The buffer has 32 bytes (taken as zero; no byte of it is read before it is written). The
  result is \<open>None\<close> where the C function returns NULL.
\<close>

definition trie_prefix_find :: "'v Trie \<Rightarrow> cstring \<Rightarrow> kv_obj Vector option cres" where
  "trie_prefix_find trie prefix =
     (case t_root trie of
        None \<Rightarrow> Inl UseAfterFree
      | Some root \<Rightarrow>
          (case trie_node_find root prefix of
             None \<Rightarrow> Inr None
           | Some node \<Rightarrow>
               let plen = length prefix
               in if plen + 1 > 32 then Inl OutOfBounds
                  else bindE (trie_node_prefix_find node (prefix @ 0 # replicate (31 - plen) 0)
                                (int plen - 1) vector_new)
                         (\<lambda>(str, keys). Inr (Some keys))))"

definition trie_destroy :: "'v Trie \<Rightarrow> 'v heap \<Rightarrow> 'v heap cres" where
  "trie_destroy trie h =
     (case t_root trie of
        None \<Rightarrow> Inl UseAfterFree
      | Some root \<Rightarrow>
          bindE (trie_node_destroy root (t_destructor trie) h (t_size trie)) (\<lambda>(h1, sz1). Inr h1))"


subsection \<open>The map a trie holds\<close>

text \<open>
  The keys of a trie with their data, in the order a traversal meets them: a node before its
  children, a child before the rest of its search tree.
\<close>

primrec trie_entries :: "trie_node \<Rightarrow> kv_obj list"
  and children_entries :: "trie_node bst_node \<Rightarrow> kv_obj list" where
  "trie_entries (TNode c ch d) = (case d of None \<Rightarrow> [] | Some a \<Rightarrow> [([], a)]) @ children_entries ch"
| "children_entries BNull = []"
| "children_entries (BNode k h l r n) =
     map (apfst (Cons k)) (trie_entries n) @ children_entries l @ children_entries r"

text \<open>
  Well-formed tries: the children are a search tree, each under the byte it carries, and none
  of them is the NUL that ends a key.
\<close>

primrec trie_node_inv :: "trie_node \<Rightarrow> bool"
  and children_inv :: "trie_node bst_node \<Rightarrow> bool" where
  "trie_node_inv (TNode c ch d) \<longleftrightarrow> bst_inv ch \<and> children_inv ch"
| "children_inv BNull \<longleftrightarrow> True"
| "children_inv (BNode k h l r n) \<longleftrightarrow>
     k \<noteq> 0 \<and> tn_chr n = k \<and> trie_node_inv n \<and> children_inv l \<and> children_inv r"

definition trie_inv :: "'v Trie \<Rightarrow> bool" where
  "trie_inv t \<longleftrightarrow> (case t_root t of None \<Rightarrow> False | Some root \<Rightarrow> tn_chr root = 0 \<and> trie_node_inv root)"

definition trie_map :: "'v Trie \<Rightarrow> cstring \<Rightarrow> addr option" where
  "trie_map t = (case t_root t of None \<Rightarrow> Map.empty | Some root \<Rightarrow> map_of (trie_entries root))"

lemmas trie_induct = trie_node_count.induct trie_children_count.induct

lemma trie_node_find_Cons:
  "trie_node_find node (c # key) =
     (case bst_lookup (tn_children node) c of None \<Rightarrow> None | Some child \<Rightarrow> trie_node_find child key)"
  by (simp add: bst_lookup_def split: bst_node.split)

lemma trie_node_search_Nil [simp]: "trie_node_search (TNode c ch d) [] = d"
  by (simp add: trie_node_search_def)

lemma trie_node_search_Cons [simp]:
  "trie_node_search (TNode c ch d) (x # key) =
     (case bst_lookup ch x of None \<Rightarrow> None | Some child \<Rightarrow> trie_node_search child key)"
  by (simp add: trie_node_search_def trie_node_find_Cons del: trie_node_find.simps(2)
      split: option.split)

lemma children_inv_lookup:
  "children_inv ch \<Longrightarrow> bst_lookup ch x = Some n \<Longrightarrow> x \<noteq> 0 \<and> tn_chr n = x \<and> trie_node_inv n"
  by (induction ch) (auto split: if_splits)

lemma bst_lookup_in_left:
  "bst_inv (BNode k h l r d) \<Longrightarrow> x \<in> bst_keys l \<Longrightarrow> bst_lookup (BNode k h l r d) x = bst_lookup l x"
  by (auto simp: order.asym)

lemma bst_lookup_in_right:
  "bst_inv (BNode k h l r d) \<Longrightarrow> x \<in> bst_keys r \<Longrightarrow> bst_lookup (BNode k h l r d) x = bst_lookup r x"
  by (auto simp: order.asym)

lemma bst_lookup_in_keys: "bst_inv t \<Longrightarrow> bst_lookup t x = Some d \<Longrightarrow> x \<in> bst_keys t"
  using bst_lookup_None_iff [of t x] by (auto simp: bst_inv_def)

lemma children_inv_iff:
  assumes "bst_inv ch"
  shows "children_inv ch \<longleftrightarrow>
           (\<forall>x n. bst_lookup ch x = Some n \<longrightarrow> x \<noteq> 0 \<and> tn_chr n = x \<and> trie_node_inv n)"
    (is "_ = ?R ch")
proof
  show "children_inv ch \<Longrightarrow> ?R ch" using children_inv_lookup by blast
  show "?R ch \<Longrightarrow> children_inv ch"
    using assms
  proof (induction ch)
    case (BNode k h l r n)
    have "?R l"
      using BNode.prems bst_lookup_in_left [OF BNode.prems(2)] bst_lookup_in_keys [of l]
      by (metis bst_inv_simps(2))
    moreover have "?R r"
      using BNode.prems bst_lookup_in_right [OF BNode.prems(2)] bst_lookup_in_keys [of r]
      by (metis bst_inv_simps(2))
    moreover have "bst_lookup (BNode k h l r n) k = Some n" by simp
    with BNode.prems(1) have "k \<noteq> 0 \<and> tn_chr n = k \<and> trie_node_inv n" by blast
    ultimately show ?case using BNode by simp
  qed simp
qed

lemma children_entries_keys: "(key, a) \<in> set (children_entries ch) \<Longrightarrow> key \<noteq> [] \<and> hd key \<in> bst_keys ch"
  by (induction ch arbitrary: key a) auto

lemma map_of_apfst_Cons:
  "map_of (map (apfst (Cons k)) es) key =
     (case key of [] \<Rightarrow> None | x # xs \<Rightarrow> if x = k then map_of es xs else None)"
  by (induction es) (auto split: list.splits)

lemma map_of_children_entries_None:
  "x \<notin> bst_keys ch \<Longrightarrow> map_of (children_entries ch) (x # key) = None"
  by (metis children_entries_keys list.sel(1) map_of_SomeD not_None_eq)

lemma map_of_children_entries_Nil [simp]: "map_of (children_entries ch) [] = None"
  by (metis children_entries_keys map_of_SomeD not_None_eq)

lemma map_of_trie_entries:
  "trie_node_inv n \<Longrightarrow> map_of (trie_entries n) key = trie_node_search n key"
  "bst_inv ch \<Longrightarrow> children_inv ch \<Longrightarrow> map_of (children_entries ch) (x # xs) =
     (case bst_lookup ch x of None \<Rightarrow> None | Some child \<Rightarrow> trie_node_search child xs)"
proof (induction n and ch arbitrary: key and x xs rule: trie_induct)
  case (TNode c ch d)
  then show ?case by (cases key) (auto split: option.splits)
next
  case (BNode_trie_node k h l r n)
  note prems = BNode_trie_node.prems
  have l: "map_of (children_entries l) (x # xs) =
      (case bst_lookup l x of None \<Rightarrow> None | Some child \<Rightarrow> trie_node_search child xs)"
    and r: "map_of (children_entries r) (x # xs) =
      (case bst_lookup r x of None \<Rightarrow> None | Some child \<Rightarrow> trie_node_search child xs)"
    and n: "map_of (trie_entries n) xs = trie_node_search n xs"
    using BNode_trie_node by simp_all
  show ?case
  proof (cases x k rule: linorder_cases)
    case less
    then have "x \<notin> bst_keys r" using prems(1) by (auto simp: order.asym)
    then have "map_of (children_entries r) (x # xs) = None"
      by (rule map_of_children_entries_None)
    with less l show ?thesis
      by (auto simp: map_add_def map_of_apfst_Cons split: option.split)
  next
    case equal
    then have "x \<notin> bst_keys r" "x \<notin> bst_keys l" using prems(1) by auto
    with equal n show ?thesis
      by (auto simp: map_add_def map_of_apfst_Cons map_of_children_entries_None split: option.split)
  next
    case greater
    then have "x \<notin> bst_keys l" using prems(1) by (auto simp: order.asym)
    with greater r show ?thesis
      by (auto simp: map_add_def map_of_apfst_Cons map_of_children_entries_None order.asym
          split: option.splits)
  qed
qed simp_all


lemma trie_map_Some: "t_root t = Some root \<Longrightarrow> trie_node_inv root \<Longrightarrow> trie_map t key = trie_node_search root key"
  by (simp add: trie_map_def map_of_trie_entries)

lemma trie_invE:
  assumes "trie_inv t"
  obtains root where "t_root t = Some root" and "tn_chr root = 0" and "trie_node_inv root"
    and "trie_map t = trie_node_search root"
  using assms trie_map_Some by (fastforce simp: trie_inv_def split: option.splits)

lemma trie_link_eq:
  "trie_link ch c child =
     (if bst_lookup ch c = None
      then bindE (bst_insert ch c (trie_create_node c)) (\<lambda>ch'. Inr (bst_write c child ch'))
      else Inr (bst_write c child ch))"
  by (auto simp: trie_link_def bst_lookup_def split: bst_node.split)

lemma trie_link_ok:
  assumes "bst_inv ch"
  shows "\<exists>ch'. trie_link ch c child = Inr ch' \<and> bst_inv ch' \<and> bst_lookup ch' = (bst_lookup ch)(c \<mapsto> child)"
  using bst_children.upsert [OF assms, of c "trie_create_node c" child] by (simp add: trie_link_eq)

lemma trie_child_eq:
  "trie_child ch c = (case bst_lookup ch c of None \<Rightarrow> trie_create_node c | Some child \<Rightarrow> child)"
  by (simp add: trie_child_def bst_lookup_def split: bst_node.split)

lemma trie_create_node_search [simp]: "trie_node_search (trie_create_node c) key = None"
  by (cases key) (simp_all add: trie_create_node_def)

lemma trie_create_node_simps [simp]:
  "trie_node_inv (trie_create_node c)" "tn_chr (trie_create_node c) = c"
  "trie_entries (trie_create_node c) = []"
  by (simp_all add: trie_create_node_def)

lemma trie_child_ok:
  assumes "bst_inv ch" "children_inv ch"
  shows "tn_chr (trie_child ch x) = x" "trie_node_inv (trie_child ch x)"
    "trie_node_search (trie_child ch x) key = trie_node_search (TNode c ch d) (x # key)"
  using assms by (auto simp: trie_child_eq children_inv_lookup split: option.split)

lemma trie_node_insert_ok:
  assumes "trie_node_inv n" and "0 \<notin> set key"
  shows "\<exists>n'. trie_node_insert n key data sz =
             Inr (n', if trie_node_search n key = None then sz + 1 else sz) \<and>
           trie_node_inv n' \<and> tn_chr n' = tn_chr n \<and>
           (\<forall>k. trie_node_search n' k = (if k = key then data else trie_node_search n k))"
  using assms
proof (induction n key data sz rule: trie_node_insert.induct)
  case (1 c ch d data sz)
  have "trie_node_search (TNode c ch data) k = (if k = [] then data else trie_node_search (TNode c ch d) k)" for k
    by (cases k) auto
  with 1 show ?case by simp
next
  case (2 c ch d x key data sz)
  from 2(2) have inv: "bst_inv ch" "children_inv ch" by auto
  note child = trie_child_ok [OF inv, of x]
  from 2(3) have key: "x \<noteq> 0" "0 \<notin> set key" by auto
  from 2(1) [OF child(2) key(2)] obtain n' where n':
    "trie_node_insert (trie_child ch x) key data sz =
       Inr (n', if trie_node_search (TNode c ch d) (x # key) = None then sz + 1 else sz)"
    "trie_node_inv n'" "tn_chr n' = x"
    "\<And>k. trie_node_search n' k = (if k = key then data else trie_node_search (trie_child ch x) k)"
    unfolding child(1) child(3) [of _ c d] by blast
  from trie_link_ok [OF inv(1), of x n'] obtain ch' where ch': "trie_link ch x n' = Inr ch'"
    "bst_inv ch'" "bst_lookup ch' = (bst_lookup ch)(x \<mapsto> n')" by blast
  have "children_inv ch'"
    using inv key n'(2,3) ch' by (auto simp: children_inv_iff)
  moreover have "trie_node_search (TNode c ch' d) k =
      (if k = x # key then data else trie_node_search (TNode c ch d) k)" for k
    using child(3) by (cases k) (auto simp: ch'(3) n'(4))
  ultimately show ?case using n'(1) ch'(1,2) by simp
qed

subsection \<open>Entries and counting\<close>

lemma trie_node_find_inv: "trie_node_inv n \<Longrightarrow> trie_node_find n key = Some m \<Longrightarrow> trie_node_inv m"
proof (induction n key rule: trie_node_find.induct)
  case (2 n c key)
  obtain b ch d where n: "n = TNode b ch d" by (cases n)
  with 2(3) obtain k h l r child where s: "bst_search ch c = BNode k h l r child"
    "trie_node_find child key = Some m" by (auto split: bst_node.splits)
  with 2(2) n have "trie_node_inv child"
    using children_inv_lookup [of ch c child] by (simp add: bst_lookup_def)
  then show ?case using 2(1) [of k h l r child] s n by simp
qed simp

lemma trie_node_find_append:
  "trie_node_find n (p @ s) =
     (case trie_node_find n p of None \<Rightarrow> None | Some m \<Rightarrow> trie_node_find m s)"
  by (induction n p rule: trie_node_find.induct) (auto split: bst_node.split)

lemma trie_node_search_append:
  "trie_node_search n (p @ s) =
     (case trie_node_find n p of None \<Rightarrow> None | Some m \<Rightarrow> trie_node_search m s)"
  by (simp add: trie_node_search_def trie_node_find_append split: option.split)

lemma trie_entries_distinct:
  "trie_node_inv n \<Longrightarrow> distinct (map fst (trie_entries n))"
  "bst_inv ch \<Longrightarrow> children_inv ch \<Longrightarrow> distinct (map fst (children_entries ch))"
proof (induction n and ch rule: trie_induct)
  case (TNode c ch d)
  then show ?case by (cases d) (auto dest: children_entries_keys)
next
  case (BNode_trie_node k h l r n)
  have hd: "fst ` set (children_entries t) \<subseteq> {key. key \<noteq> [] \<and> hd key \<in> bst_keys t}" for t
    using children_entries_keys by auto
  have "distinct (map fst (map (apfst (Cons k)) (trie_entries n)))"
    using BNode_trie_node by (simp add: comp_def distinct_map inj_on_def)
  moreover have "fst ` set (children_entries l) \<inter> fst ` set (children_entries r) = {}"
    using hd [of l] hd [of r] BNode_trie_node.prems(1) by (fastforce simp: order.asym)
  moreover have "fst ` apfst (Cons k) ` set (trie_entries n) \<inter>
      (fst ` set (children_entries l) \<union> fst ` set (children_entries r)) = {}"
    using hd [of l] hd [of r] BNode_trie_node.prems(1) by fastforce
  ultimately show ?case using BNode_trie_node by (simp add: image_Un Un_commute image_image)
qed simp_all

lemma trie_node_count_entries:
  "trie_node_count n = of_nat (length (trie_entries n))"
  "trie_children_count ch = of_nat (length (children_entries ch))"
  by (induction n and ch rule: trie_induct) (auto split: option.split)

lemma trie_entries_dom: "trie_node_inv n \<Longrightarrow> fst ` set (trie_entries n) = dom (trie_node_search n)"
  by (simp add: dom_map_of_conv_image_fst [symmetric] dom_def map_of_trie_entries)

lemma length_trie_entries: "trie_node_inv n \<Longrightarrow> length (trie_entries n) = card (dom (trie_node_search n))"
  by (metis distinct_card length_map list.set_map trie_entries_distinct(1) trie_entries_dom)


subsection \<open>Overwriting the node at the end of a path\<close>

lemma trie_put_at_ok:
  assumes "trie_node_inv n" and "trie_node_find n key = Some m"
    and "trie_node_inv m'" and "tn_chr m' = tn_chr m"
  shows "trie_node_inv (trie_put_at n key m') \<and> tn_chr (trie_put_at n key m') = tn_chr n \<and>
         (\<forall>k. trie_node_search (trie_put_at n key m') k =
           (if take (length key) k = key then trie_node_search m' (drop (length key) k)
            else trie_node_search n k))"
  using assms
proof (induction n key m' rule: trie_put_at.induct)
  case (2 c ch d x key m')
  from 2(2) have inv: "bst_inv ch" "children_inv ch" by auto
  from 2(3) obtain k h l r child where s: "bst_search ch x = BNode k h l r child"
    "trie_node_find child key = Some m" by (auto split: bst_node.splits)
  then have look: "bst_lookup ch x = Some child" by (simp add: bst_lookup_def)
  with inv have child: "x \<noteq> 0" "tn_chr child = x" "trie_node_inv child"
    using children_inv_lookup by auto
  let ?child = "trie_put_at child key m'"
  let ?ch = "bst_write x ?child ch"
  from 2(1) [OF s(1) child(3) s(2) 2(4,5)] have IH: "trie_node_inv ?child" "tn_chr ?child = x"
    "\<And>k. trie_node_search ?child k =
        (if take (length key) k = key then trie_node_search m' (drop (length key) k)
         else trie_node_search child k)"
    using child(2) by auto
  from bst_children.wr_found [OF inv(1) look, of ?child]
  have ch: "bst_inv ?ch" "bst_lookup ?ch = (bst_lookup ch)(x \<mapsto> ?child)" by auto
  then have "children_inv ?ch" using inv IH(1,2) child(1) by (auto simp: children_inv_iff)
  moreover have "trie_node_search (TNode c ?ch d) k =
      (if take (length (x # key)) k = x # key then trie_node_search m' (drop (length (x # key)) k)
       else trie_node_search (TNode c ch d) k)" for k
    using look by (cases k) (auto simp: ch(2) IH(3))
  ultimately show ?case using s(1) ch(1) by simp
qed simp

lemma trie_node_search_data: "trie_node_find n key = Some m \<Longrightarrow> trie_node_search n key = tn_data m"
  by (simp add: trie_node_search_def)

lemma trie_put_data_None:
  assumes "trie_node_inv n" and "trie_node_find n key = Some m"
    and "n' = trie_put_at n key (TNode (tn_chr m) (tn_children m) None)"
  shows "trie_node_inv n'" "tn_chr n' = tn_chr n"
    "trie_node_search n' = (trie_node_search n)(key := None)"
proof -
  let ?m = "TNode (tn_chr m) (tn_children m) None"
  have m: "trie_node_inv m" using assms trie_node_find_inv by blast
  then have "trie_node_inv ?m" by (cases m) simp
  from trie_put_at_ok [OF assms(1,2) this] have n': "trie_node_inv n'" "tn_chr n' = tn_chr n"
    "\<And>k. trie_node_search n' k = (if take (length key) k = key
        then trie_node_search ?m (drop (length key) k) else trie_node_search n k)"
    by (auto simp: assms(3))
  then show "trie_node_inv n'" "tn_chr n' = tn_chr n" by simp_all
  show "trie_node_search n' = (trie_node_search n)(key := None)"
  proof
    fix k
    show "trie_node_search n' k = ((trie_node_search n)(key := None)) k"
    proof (cases "take (length key) k = key")
      case True
      then obtain s where k: "k = key @ s" by (metis append_take_drop_id)
      have "trie_node_search n k = trie_node_search m s"
        using assms(2) by (simp add: k trie_node_search_append)
      then show ?thesis using k n'(3) by (cases m; cases s) auto
    next
      case False
      then show ?thesis using n'(3) by auto
    qed
  qed
qed

subsection \<open>What a destructor promises\<close>

text \<open>
  The contract \<^verbatim>\<open>src/trie.c\<close> has with a node destructor: where a node has data, the data is
  released, its pointer is cleared and true is returned; a node without data is left as it is.
\<close>

locale data_destructor =
  fixes dtor :: "'v trie_destructor"
  assumes dtor_data: "h a \<noteq> None \<Longrightarrow> dtor (TNode c ch (Some a)) b h = Inr (True, TNode c ch None, h(a := None))"
    and dtor_empty: "dtor (TNode c ch None) b h = Inr (False, TNode c ch None, h)"

definition dtor_ok :: "'v trie_destructor option \<Rightarrow> bool" where
  "dtor_ok dt \<longleftrightarrow> (case dt of None \<Rightarrow> True | Some f \<Rightarrow> data_destructor f)"

lemma dtor_ok_None [simp]: "dtor_ok None"
  by (simp add: dtor_ok_def)

lemma dtor_ok_Some: "dtor_ok (Some f) \<longleftrightarrow> data_destructor f"
  by (simp add: dtor_ok_def)

lemma trie_delete_found:
  assumes "trie_inv t" and "dtor_ok (t_destructor t)" and "key \<noteq> []"
    and "trie_map t key = Some a" and "h a \<noteq> None"
  shows "\<exists>t'. trie_delete t key h = Inr (True, t', h(a := None)) \<and> trie_inv t' \<and>
           trie_map t' = (trie_map t)(key := None) \<and> t_size t' = t_size t - 1 \<and>
           t_destructor t' = t_destructor t"
proof -
  from assms(1) obtain root where root: "t_root t = Some root" "tn_chr root = 0"
    "trie_node_inv root" "trie_map t = trie_node_search root" by (rule trie_invE)
  from assms(4) root(4) obtain m where m: "trie_node_find root key = Some m" "tn_data m = Some a"
    by (auto simp: trie_node_search_def split: option.splits)
  let ?root = "trie_put_at root key (TNode (tn_chr m) (tn_children m) None)"
  let ?t = "t\<lparr> t_root := Some ?root, t_size := t_size t - 1 \<rparr>"
  note put = trie_put_data_None [OF root(3) m(1) refl]
  have "trie_delete t key h = Inr (True, ?t, h(a := None))"
  proof (cases "t_destructor t")
    case None
    then show ?thesis using assms(3,5) root(1) m by (simp add: trie_delete_def obj_free_def)
  next
    case (Some f)
    with assms(2) have "data_destructor f" by (simp add: dtor_ok_Some)
    from data_destructor.dtor_data [OF this, of h a "tn_chr m" "tn_children m" True] assms(5) m(2)
    have "f m True h = Inr (True, TNode (tn_chr m) (tn_children m) None, h(a := None))"
      by (cases m) simp
    then show ?thesis using assms(3) root(1) m Some by (simp add: trie_delete_def)
  qed
  moreover have "trie_inv ?t" using put root(2) by (simp add: trie_inv_def)
  moreover have "trie_map ?t = (trie_map t)(key := None)"
    using put trie_map_Some [of ?t ?root] root(4) by auto
  ultimately show ?thesis by (intro exI [of _ ?t]) simp
qed

lemma trie_put_at_same:
  assumes "trie_node_inv n" and "trie_node_find n key = Some m"
  shows "trie_node_search (trie_put_at n key m) = trie_node_search n"
proof
  fix k
  have "trie_node_search n k = trie_node_search m (drop (length key) k)" if "take (length key) k = key"
    using assms(2) trie_node_search_append [of n key "drop (length key) k"] that
    by (metis append_take_drop_id option.simps(5))
  then show "trie_node_search (trie_put_at n key m) k = trie_node_search n k"
    using trie_put_at_ok [OF assms trie_node_find_inv [OF assms] refl] by auto
qed

lemma trie_delete_missing:
  assumes "trie_inv t" and "dtor_ok (t_destructor t)" and "trie_map t key = None"
  shows "\<exists>b t'. trie_delete t key h = Inr (b, t', h) \<and> trie_inv t' \<and> trie_map t' = trie_map t \<and>
           t_size t' = t_size t \<and> t_destructor t' = t_destructor t \<and>
           (t_destructor t \<noteq> None \<longrightarrow> \<not> b)"
proof -
  from assms(1) obtain root where root: "t_root t = Some root" "tn_chr root = 0"
    "trie_node_inv root" "trie_map t = trie_node_search root" by (rule trie_invE)
  show ?thesis
  proof (cases "key = [] \<or> trie_node_find root key = None \<or> t_destructor t = None")
    case True
    then show ?thesis using assms(1,3) root
      by (auto simp: trie_delete_def trie_node_search_def split: option.splits)
  next
    case False
    then obtain m f where m: "key \<noteq> []" "trie_node_find root key = Some m" "t_destructor t = Some f"
      by auto
    let ?t = "t\<lparr> t_root := Some (trie_put_at root key m) \<rparr>"
    from m assms(2) have "data_destructor f" by (simp add: dtor_ok_Some)
    moreover have "tn_data m = None" using m root assms(3) by (simp add: trie_node_search_def)
    ultimately have "f m True h = Inr (False, m, h)"
      using data_destructor.dtor_empty by (cases m) auto
    then have "trie_delete t key h = Inr (False, ?t, h)"
      using m root(1) by (simp add: trie_delete_def)
    moreover have put: "trie_node_inv (trie_put_at root key m)" "tn_chr (trie_put_at root key m) = 0"
      using trie_put_at_ok [OF root(3) m(2) trie_node_find_inv [OF root(3) m(2)] refl] root(2) by auto
    moreover have "trie_map ?t = trie_map t"
      using put trie_map_Some [of ?t] root(4) trie_put_at_same [OF root(3) m(2)] by auto
    ultimately show ?thesis by (auto simp: trie_inv_def)
  qed
qed


subsection \<open>Releasing a subtree\<close>

definition free_all :: "'v heap \<Rightarrow> addr list \<Rightarrow> 'v heap" where
  "free_all h as = h |` (- set as)"

lemma free_all_Nil [simp]: "free_all h [] = h"
  by (rule ext) (simp add: free_all_def)

lemma free_all_Cons: "free_all h (a # as) = free_all (h(a := None)) as"
  by (rule ext) (simp add: free_all_def restrict_map_def)

lemma free_all_snoc: "free_all h (as @ [a]) = (free_all h as)(a := None)"
  by (rule ext) (simp add: free_all_def restrict_map_def)

lemma free_all_append: "free_all (free_all h as) bs = free_all h (as @ bs)"
  by (rule ext) (simp add: free_all_def restrict_map_def)

lemma free_all_cong: "set as = set bs \<Longrightarrow> free_all h as = free_all h bs"
  by (simp add: free_all_def)

lemma free_all_alive: "a \<notin> set as \<Longrightarrow> free_all h as a = h a"
  by (simp add: free_all_def)

text \<open>The data pointers in the order they are released: children first.\<close>

primrec trie_released :: "trie_node \<Rightarrow> addr list"
  and children_released :: "trie_node bst_node \<Rightarrow> addr list" where
  "trie_released (TNode c ch d) = children_released ch @ (case d of None \<Rightarrow> [] | Some a \<Rightarrow> [a])"
| "children_released BNull = []"
| "children_released (BNode k h l r n) = trie_released n @ children_released l @ children_released r"

lemma mset_trie_released:
  "mset (trie_released n) = mset (map snd (trie_entries n))"
  "mset (children_released ch) = mset (map snd (children_entries ch))"
  by (induction n and ch rule: trie_induct) (auto split: option.split)

lemma trie_node_destroy_ok:
  "dtor_ok dt \<Longrightarrow> distinct (trie_released n) \<Longrightarrow> (\<forall>a \<in> set (trie_released n). h a \<noteq> None) \<Longrightarrow>
     length (trie_released n) \<le> unat sz \<Longrightarrow>
     trie_node_destroy n dt h sz = Inr (free_all h (trie_released n),
       if dt = None then sz - of_nat (length (trie_released n)) else sz)"
  "dtor_ok dt \<Longrightarrow> distinct (children_released ch) \<Longrightarrow>
     (\<forall>a \<in> set (children_released ch). h a \<noteq> None) \<Longrightarrow>
     length (children_released ch) \<le> unat sz \<Longrightarrow>
     children_destroy ch dt h sz = Inr (free_all h (children_released ch),
       if dt = None then sz - of_nat (length (children_released ch)) else sz)"
proof (induction n and ch arbitrary: h sz and h sz rule: trie_induct)
  case (TNode c ch d)
  let ?h = "free_all h (children_released ch)"
  let ?sz = "sz - of_nat (length (children_released ch))"
  from TNode have IH: "children_destroy ch dt h sz = Inr (?h, if dt = None then ?sz else sz)"
    by simp
  show ?case
  proof (cases d)
    case None
    with IH show ?thesis using TNode.prems(1)
      by (auto simp: dtor_ok_def data_destructor.dtor_empty split: option.splits)
  next
    case (Some a)
    with TNode.prems have a: "?h a \<noteq> None" by (auto simp: free_all_alive)
    have "unat ?sz = unat sz - length (children_released ch)"
      using TNode.prems(4) Some by (simp add: unat_minus_of_nat)
    then have "0 < unat ?sz" using TNode.prems(4) Some by simp
    then have "?sz > 0" by (simp add: word_less_nat_alt)
    with IH a Some show ?thesis
      using TNode.prems(1)
      by (auto simp: dtor_ok_def data_destructor.dtor_data obj_free_def free_all_snoc fun_upd_def
          split: option.splits)
  qed
next
  case (BNode_trie_node k hh l r n)
  let ?n = "trie_released n" and ?l = "children_released l" and ?r = "children_released r"
  define s where "s m = (if dt = None then sz - of_nat m else sz)" for m
  have len: "length ?n + length ?l + length ?r \<le> unat sz" using BNode_trie_node.prems(4) by simp
  have us: "m \<le> unat sz \<Longrightarrow> unat (sz - of_nat m) = unat sz - m" for m
    by (simp add: unat_minus_of_nat)
  have "trie_node_destroy n dt h sz = Inr (free_all h ?n, s (length ?n))"
    using BNode_trie_node by (simp add: s_def)
  moreover have al: "\<forall>a \<in> set ?l. free_all h ?n a \<noteq> None"
    and ar: "\<forall>a \<in> set ?r. free_all (free_all h ?n) ?l a \<noteq> None"
    using BNode_trie_node.prems(2,3) by (auto simp: free_all_def restrict_map_def)
  have "children_destroy l dt (free_all h ?n) (s (length ?n)) =
      Inr (free_all (free_all h ?n) ?l, s (length ?n + length ?l))"
    using BNode_trie_node.IH(1) [OF BNode_trie_node.prems(1) _ al, of "s (length ?n)"]
      BNode_trie_node.prems(2) us [of "length ?n"] len
    by (cases dt) (simp_all add: s_def diff_diff_eq)
  moreover have "children_destroy r dt (free_all (free_all h ?n) ?l) (s (length ?n + length ?l)) =
      Inr (free_all (free_all (free_all h ?n) ?l) ?r, s (length ?n + length ?l + length ?r))"
    using BNode_trie_node.IH(2) [OF BNode_trie_node.prems(1) _ ar, of "s (length ?n + length ?l)"]
      BNode_trie_node.prems(2) us [of "length ?n + length ?l"] len
    by (cases dt) (simp_all add: s_def diff_diff_eq add.assoc)
  ultimately show ?case by (simp add: s_def free_all_append add.assoc)
qed simp_all


subsection \<open>The keys under a prefix\<close>

definition has_prefix :: "cstring \<Rightarrow> cstring \<Rightarrow> bool" where
  "has_prefix p k \<longleftrightarrow> take (length p) k = p"

lemma has_prefix_iff: "has_prefix p k \<longleftrightarrow> (\<exists>s. k = p @ s)"
  by (metis append_eq_conv_conj append_take_drop_id has_prefix_def)

lemma has_prefix_append [simp]: "has_prefix p (p @ s)"
  by (auto simp: has_prefix_iff)

lemma has_prefix_Nil [simp]: "has_prefix [] k"
  by (simp add: has_prefix_def)

definition keys_under :: "'v Trie \<Rightarrow> cstring \<Rightarrow> cstring set" where
  "keys_under t p = {k \<in> dom (trie_map t). has_prefix p k}"

lemma keys_under_find:
  assumes "t_root t = Some root" and "trie_node_inv root"
  shows "keys_under t p = (case trie_node_find root p of None \<Rightarrow> {}
           | Some m \<Rightarrow> (@) p ` dom (trie_node_search m))"
proof -
  have "k \<in> keys_under t p \<longleftrightarrow> (\<exists>s. k = p @ s \<and> trie_node_search root (p @ s) \<noteq> None)" for k
    using trie_map_Some [OF assms] by (auto simp: keys_under_def has_prefix_iff)
  then show ?thesis
    by (auto simp: trie_node_search_append image_def dom_def split: option.splits)
qed

lemma card_keys_under:
  assumes "t_root t = Some root" and "trie_node_inv root"
  shows "card (keys_under t p) = (case trie_node_find root p of None \<Rightarrow> 0
           | Some m \<Rightarrow> length (trie_entries m))"
  using assms trie_node_find_inv [OF assms(2)]
  by (auto simp: keys_under_find length_trie_entries card_image inj_on_def split: option.split)

lemma finite_trie_dom: "trie_node_inv n \<Longrightarrow> finite (dom (trie_node_search n))"
  by (metis finite_imageI finite_set trie_entries_dom)

lemma finite_trie_map: "trie_inv t \<Longrightarrow> finite (dom (trie_map t))"
  using finite_trie_dom by (metis trie_invE)

lemma keys_under_le: "trie_inv t \<Longrightarrow> card (keys_under t p) \<le> card (dom (trie_map t))"
  using finite_trie_map by (auto simp: keys_under_def intro!: card_mono)

text \<open>The data pointers of a trie are its own: no two keys share one, and each is alive.\<close>

definition trie_owns :: "'v Trie \<Rightarrow> 'v heap \<Rightarrow> bool" where
  "trie_owns t h \<longleftrightarrow> inj_on (trie_map t) (dom (trie_map t)) \<and> ran (trie_map t) \<subseteq> dom h"

lemma distinct_snd_map_of:
  assumes "distinct (map fst es)" and "inj_on (map_of es) (dom (map_of es))"
  shows "distinct (map snd es)"
proof -
  have "inj_on snd (set es)"
  proof (rule inj_onI)
    fix x y assume "x \<in> set es" "y \<in> set es" "snd x = snd y"
    then have "map_of es (fst x) = Some (snd x)" "map_of es (fst y) = Some (snd x)"
      using assms(1) by (metis map_of_is_SomeI prod.collapse)+
    then have "fst x = fst y" by (intro inj_onD [OF assms(2)]) auto
    with \<open>snd x = snd y\<close> show "x = y" by (simp add: prod_eq_iff)
  qed
  moreover have "distinct es" using assms(1) by (simp add: distinct_map)
  ultimately show ?thesis by (simp add: distinct_map)
qed

lemma trie_released_ok:
  assumes "trie_node_inv n" and "inj_on (trie_node_search n) (dom (trie_node_search n))"
  shows "distinct (trie_released n)" "set (trie_released n) = ran (trie_node_search n)"
    "length (trie_released n) = card (dom (trie_node_search n))"
proof -
  have eq: "map_of (trie_entries n) = trie_node_search n"
    using map_of_trie_entries(1) [OF assms(1)] by (rule ext)
  have d: "distinct (map fst (trie_entries n))" using assms(1) by (rule trie_entries_distinct)
  then have "distinct (map snd (trie_entries n))"
    using assms(2) eq by (intro distinct_snd_map_of) simp_all
  then show "distinct (trie_released n)"
    using mset_trie_released(1) [of n] mset_eq_imp_distinct_iff by blast
  show "set (trie_released n) = ran (trie_node_search n)"
    using mset_trie_released(1) [of n] ran_distinct [OF d] eq by (metis list.set_map mset_eq_setD)
  show "length (trie_released n) = card (dom (trie_node_search n))"
    using mset_trie_released(1) [of n] length_trie_entries [OF assms(1)]
    by (metis length_map size_mset)
qed

lemma inj_on_subtree:
  assumes "inj_on (trie_node_search n) (dom (trie_node_search n))" and "trie_node_find n p = Some m"
  shows "inj_on (trie_node_search m) (dom (trie_node_search m))"
proof (rule inj_onI)
  fix x y
  assume "x \<in> dom (trie_node_search m)" "y \<in> dom (trie_node_search m)"
    "trie_node_search m x = trie_node_search m y"
  then have "p @ x = p @ y"
    using assms trie_node_search_append [of n p] by (intro inj_onD [OF assms(1)]) auto
  then show "x = y" by simp
qed

lemma children_released_ran:
  assumes "trie_node_inv (TNode c ch d)"
  shows "set (children_released ch) = {a. \<exists>s. s \<noteq> [] \<and> trie_node_search (TNode c ch d) s = Some a}"
proof -
  have inv: "trie_node_inv (TNode c ch None)" using assms by simp
  have "set (children_released ch) = snd ` set (trie_entries (TNode c ch None))"
    using mset_eq_setD [OF mset_trie_released(2) [of ch]] by simp
  also have "\<dots> = ran (map_of (trie_entries (TNode c ch None)))"
    using trie_entries_distinct(1) [OF inv] by (rule ran_distinct [symmetric])
  also have "\<dots> = ran (trie_node_search (TNode c ch None))"
    using map_of_trie_entries(1) [OF inv] by presburger
  also have "\<dots> = {a. \<exists>s. s \<noteq> [] \<and> trie_node_search (TNode c ch d) s = Some a}"
  proof -
    have "trie_node_search (TNode c ch None) s =
        (if s = [] then None else trie_node_search (TNode c ch d) s)" for s
      by (cases s) auto
    then show ?thesis by (auto simp: ran_def)
  qed
  finally show ?thesis .
qed


definition released_under :: "'v Trie \<Rightarrow> cstring \<Rightarrow> addr set" where
  "released_under t p = {a. \<exists>k. has_prefix p k \<and> trie_map t k = Some a}"

text \<open>The last step of a prefix deletion, on a trie whose only key under the prefix is the prefix.\<close>

lemma trie_delete_last:
  assumes "trie_inv t1" and "dtor_ok (t_destructor t1)" and "p \<noteq> []"
    and "\<And>k. trie_map t1 k = (if has_prefix p k \<and> k \<noteq> p then None else m k)"
    and "\<And>a. m p = Some a \<Longrightarrow> h a \<noteq> None"
  shows "\<exists>b t'. trie_delete t1 p h = Inr (b, t', h |` (- set_option (m p))) \<and> trie_inv t' \<and>
           trie_map t' = m |` {k. \<not> has_prefix p k} \<and> t_destructor t' = t_destructor t1 \<and>
           t_size t' = (if m p = None then t_size t1 else t_size t1 - 1)"
proof -
  have pp: "has_prefix p p" by (simp add: has_prefix_def)
  have "m |` {k. \<not> has_prefix p k} = (trie_map t1)(p := None)"
    using pp by (auto simp: assms(4) restrict_map_def)
  moreover have "trie_map t1 p = m p" using pp by (simp add: assms(4))
  moreover have "h |` (- {a}) = h(a := None)" for a by (auto simp: restrict_map_def)
  moreover have "h |` UNIV = h" by (auto simp: restrict_map_def)
  ultimately show ?thesis
    using trie_delete_missing [OF assms(1,2), of p h] trie_delete_found [OF assms(1,2,3), of _ h] assms(5)
    by (cases "m p") (auto simp: fun_upd_idem)
qed

lemma children_destroyed_map:
  assumes "t_root t = Some root" and "tn_chr root = 0" and "trie_node_inv root"
    and "trie_node_find root p = Some cursor"
    and "t1 = t\<lparr> t_root := Some (trie_put_at root p (TNode (tn_chr cursor) BNull (tn_data cursor))),
               t_size := sz \<rparr>"
  shows "trie_inv t1" "trie_map t1 k = (if has_prefix p k \<and> k \<noteq> p then None else trie_map t k)"
proof -
  let ?m = "TNode (tn_chr cursor) BNull (tn_data cursor)"
  let ?root = "trie_put_at root p ?m"
  have r: "trie_node_inv ?root" "tn_chr ?root = 0" "trie_node_search ?root k =
      (if has_prefix p k then trie_node_search ?m (drop (length p) k) else trie_node_search root k)" for k
    using trie_put_at_ok [OF assms(3,4), of ?m] assms(2) by (auto simp: has_prefix_def)
  show "trie_inv t1" using r(1,2) by (simp add: assms(5) trie_inv_def)
  have t1: "trie_map t1 k = trie_node_search ?root k"
    using r(1) by (simp add: assms(5) trie_map_def map_of_trie_entries)
  show "trie_map t1 k = (if has_prefix p k \<and> k \<noteq> p then None else trie_map t k)"
  proof (cases "has_prefix p k")
    case True
    then obtain s where k: "k = p @ s" by (auto simp: has_prefix_iff)
    then show ?thesis
      using t1 r(3) trie_map_Some [OF assms(1,3)] trie_node_search_data [OF assms(4)] by (cases s) auto
  next
    case False
    then show ?thesis using t1 r(3) trie_map_Some [OF assms(1,3)] by auto
  qed
qed

text \<open>Both branches of a prefix deletion end with a \<^verbatim>\<open>trie_delete\<close> on such a trie.\<close>

lemma trie_prefix_delete_step:
  assumes root: "t_root t = Some root" "tn_chr root = 0" "trie_node_inv root"
    and cur: "trie_node_find root p = Some (TNode c ch d)"
    and destroy: "children_destroy ch (t_destructor t) h (t_size t) = Inr (h1, sz1)"
  shows "\<exists>t1. trie_prefix_delete t p h =
             bindE (trie_delete t1 p h1) (\<lambda>(ret, t', h'). Inr (t', h')) \<and> trie_inv t1 \<and>
           (\<forall>k. trie_map t1 k = (if has_prefix p k \<and> k \<noteq> p then None else trie_map t k)) \<and>
           t_destructor t1 = t_destructor t \<and> t_size t1 = sz1"
proof (cases "ch = BNull")
  case True
  have "trie_map t k = None" if "has_prefix p k" "k \<noteq> p" for k
  proof -
    from that obtain x s where "k = p @ x # s" by (metis append_Nil2 has_prefix_iff neq_Nil_conv)
    then show ?thesis using cur True trie_map_Some [OF root(1,3)] by (simp add: trie_node_search_append)
  qed
  moreover have "trie_inv t" using root by (simp add: trie_inv_def)
  ultimately show ?thesis
    using True cur destroy root(1)
    by (intro exI [of _ t]) (auto simp: trie_prefix_delete_def trie_is_free_node_def)
next
  case False
  let ?t = "t\<lparr> t_root := Some (trie_put_at root p (TNode c BNull d)), t_size := sz1 \<rparr>"
  have "trie_prefix_delete t p h = bindE (trie_delete ?t p h1) (\<lambda>(ret, t', h'). Inr (t', h'))"
    using False cur destroy root(1) by (simp add: trie_prefix_delete_def trie_is_free_node_def)
  moreover have "trie_inv ?t"
    using children_destroyed_map(1) [OF root cur] by simp
  moreover have "trie_map ?t k = (if has_prefix p k \<and> k \<noteq> p then None else trie_map t k)" for k
    using children_destroyed_map(2) [OF root cur] by simp
  ultimately show ?thesis by (intro exI [of _ ?t]) simp
qed

text \<open>What is released under the node a prefix leads to.\<close>

lemma released_under_find:
  assumes root: "t_root t = Some root" "trie_node_inv root"
    and cur: "trie_node_find root p = Some (TNode c ch d)" and own: "trie_owns t h"
  shows "distinct (children_released ch)"
    and "\<forall>a \<in> set (children_released ch). h a \<noteq> None"
    and "set_option (trie_map t p) \<inter> set (children_released ch) = {}"
    and "set (children_released ch) \<union> set_option (trie_map t p) = released_under t p"
    and "length (children_released ch) + card (set_option (trie_map t p)) = card (keys_under t p)"
proof -
  let ?n = "TNode c ch d"
  have map: "trie_map t = trie_node_search root" using trie_map_Some [OF root] by (rule ext)
  have inv: "trie_node_inv ?n" using root(2) cur by (rule trie_node_find_inv)
  have sub: "trie_node_search ?n s = trie_map t (p @ s)" for s
    using cur by (simp add: map trie_node_search_append)
  have d: "trie_map t p = d" using sub [of "[]"] by simp
  have inj: "inj_on (trie_node_search ?n) (dom (trie_node_search ?n))"
    using own unfolding trie_owns_def map by (intro inj_on_subtree [OF _ cur]) simp
  note rel = trie_released_ok [OF inv inj]
  have rel_eq: "trie_released ?n = children_released ch @ (case d of None \<Rightarrow> [] | Some a \<Rightarrow> [a])"
    by simp
  show "distinct (children_released ch)"
    and dis: "set_option (trie_map t p) \<inter> set (children_released ch) = {}"
    using rel(1) by (auto simp: rel_eq d split: option.splits)
  have un: "set (children_released ch) \<union> set_option (trie_map t p) = ran (trie_node_search ?n)"
    using rel(2) by (auto simp: rel_eq d split: option.splits)
  also have "\<dots> = released_under t p"
    unfolding ran_def released_under_def has_prefix_iff sub by blast
  finally show ru: "set (children_released ch) \<union> set_option (trie_map t p) = released_under t p" .
  have "released_under t p \<subseteq> dom h"
    using own by (auto simp: released_under_def trie_owns_def ran_def)
  with ru show "\<forall>a \<in> set (children_released ch). h a \<noteq> None" by auto
  have "card (keys_under t p) = length (trie_released ?n)"
    using card_keys_under [OF root] cur rel(3) length_trie_entries [OF inv] by simp
  then show "length (children_released ch) + card (set_option (trie_map t p)) = card (keys_under t p)"
    by (simp add: rel_eq d split: option.splits)
qed

lemma trie_prefix_delete_ok:
  assumes t: "trie_inv t" "dtor_ok (t_destructor t)" and p: "p \<noteq> []" and own: "trie_owns t h"
    and sz: "card (dom (trie_map t)) \<le> unat (t_size t)"
  shows "\<exists>t'. trie_prefix_delete t p h = Inr (t', h |` (- released_under t p)) \<and> trie_inv t' \<and>
           trie_map t' = trie_map t |` {k. \<not> has_prefix p k} \<and> t_destructor t' = t_destructor t \<and>
           t_size t' = t_size t - (if t_destructor t = None then of_nat (card (keys_under t p))
             else if trie_map t p = None then 0 else 1)"
proof -
  from t(1) obtain root where root: "t_root t = Some root" "tn_chr root = 0"
    "trie_node_inv root" "trie_map t = trie_node_search root" by (rule trie_invE)
  have alive: "trie_map t k = Some a \<Longrightarrow> h a \<noteq> None" for k a
    using own by (auto simp: trie_owns_def ran_def dom_def)
  show ?thesis
  proof (cases "trie_node_find root p")
    case None
    then have none: "has_prefix p k \<Longrightarrow> trie_map t k = None" for k
      by (auto simp: has_prefix_iff root(4) trie_node_search_append)
    then have "released_under t p = {}" "trie_map t |` {k. \<not> has_prefix p k} = trie_map t"
      "keys_under t p = {}"
      by (auto simp: released_under_def keys_under_def restrict_map_def)
    moreover have "trie_map t p = None" using none by (simp add: has_prefix_def)
    moreover have "h |` UNIV = h" by (auto simp: restrict_map_def)
    ultimately show ?thesis using None root(1) t(1) by (auto simp: trie_prefix_delete_def)
  next
    case (Some cursor)
    then obtain c ch d where cur: "trie_node_find root p = Some (TNode c ch d)" by (cases cursor) auto
    note rel = released_under_find [OF root(1,3) cur own]
    have len: "length (children_released ch) \<le> unat (t_size t)"
      using rel(5) keys_under_le [OF t(1), of p] sz by linarith
    from trie_prefix_delete_step [OF root(1-3) cur trie_node_destroy_ok(2) [OF t(2) rel(1,2) len]]
    obtain t1 where t1: "trie_prefix_delete t p h = bindE (trie_delete t1 p (free_all h (children_released ch)))
        (\<lambda>(ret, t', h'). Inr (t', h'))" "trie_inv t1" "t_destructor t1 = t_destructor t"
      "\<And>k. trie_map t1 k = (if has_prefix p k \<and> k \<noteq> p then None else trie_map t k)"
      "t_size t1 = (if t_destructor t = None then t_size t - of_nat (length (children_released ch))
         else t_size t)" by blast
    have "free_all h (children_released ch) |` (- set_option (trie_map t p)) =
        h |` (- released_under t p)"
      by (simp add: free_all_def rel(4) [symmetric])
    moreover have "free_all h (children_released ch) a \<noteq> None" if "trie_map t p = Some a" for a
      using rel(3) alive that by (auto simp: free_all_alive)
    ultimately obtain b t' where t': "trie_delete t1 p (free_all h (children_released ch)) =
        Inr (b, t', h |` (- released_under t p))" "trie_inv t'"
      "trie_map t' = trie_map t |` {k. \<not> has_prefix p k}" "t_destructor t' = t_destructor t"
      "t_size t' = (if trie_map t p = None then t_size t1 else t_size t1 - 1)"
      using trie_delete_last [of t1 p "trie_map t" "free_all h (children_released ch)",
          OF t1(2) _ p t1(4)] t(2) t1(3) by auto
    show ?thesis
      using t' t1(1,5) rel(5) [symmetric]
      by (intro exI [of _ t']) (cases "trie_map t p"; simp add: diff_diff_eq)
  qed
qed


subsection \<open>Range queries\<close>

text \<open>The length of the longest path below a node, also through nodes that hold no data any more.\<close>

primrec trie_depth :: "trie_node \<Rightarrow> nat"
  and children_depth :: "trie_node bst_node \<Rightarrow> nat" where
  "trie_depth (TNode c ch d) = children_depth ch"
| "children_depth BNull = 0"
| "children_depth (BNode k h l r n) = max (Suc (trie_depth n)) (max (children_depth l) (children_depth r))"

lemma trie_entries_depth:
  "(key, a) \<in> set (trie_entries n) \<Longrightarrow> length key \<le> trie_depth n"
  "(key, a) \<in> set (children_entries ch) \<Longrightarrow> length key \<le> children_depth ch"
  by (induction n and ch arbitrary: key a and key a rule: trie_induct)
    (fastforce split: option.splits)+

lemma str_put_level: "n < length str \<Longrightarrow> str_put str (int n) c = Inr (str[n := c])"
  by (simp add: str_put_def)

lemma str_put_length: "str_put str level c = Inr str' \<Longrightarrow> length str' = length str \<and> level < int (length str)"
  by (auto simp: str_put_def split: if_splits)

lemma take_update_append: "take n str = p \<Longrightarrow> length p = n \<Longrightarrow> n < length str \<Longrightarrow>
    take (Suc n) (str[n := c]) = p @ [c]"
  by (simp add: take_Suc_conv_app_nth)

text \<open>A range query that returns has written the end of every key it reports inside the buffer.\<close>

lemma trie_node_prefix_find_bounds:
  "trie_node_prefix_find n str level keys = Inr (str', keys') \<Longrightarrow>
     length str' = length str \<and> (\<forall>(key, a) \<in> set (trie_entries n). level + 1 + int (length key) < int (length str))"
  "children_prefix_find ch str level keys = Inr (str', keys') \<Longrightarrow>
     length str' = length str \<and> (\<forall>(key, a) \<in> set (children_entries ch). level + int (length key) < int (length str))"
proof (induction n and ch arbitrary: str level keys str' keys' and str level keys str' keys'
    rule: trie_induct)
  case (TNode c ch d)
  from TNode.prems(1) obtain str1 str2 keys1 where s: "str_put str level c = Inr str1"
    "length str2 = length str1" "d \<noteq> None \<Longrightarrow> level + 1 < int (length str1)"
    "children_prefix_find ch str2 (level + 1) keys1 = Inr (str', keys')"
  proof (cases d)
    case None
    then show thesis using TNode.prems(1) that by (auto split: if_splits)
  next
    case (Some a)
    with TNode.prems(1) obtain s1 s2 k1 where s: "str_put str level c = Inr s1"
      "str_put s1 (level + 1) 0 = Inr s2" "children_prefix_find ch s2 (level + 1) k1 = Inr (str', keys')"
      by (auto split: if_splits)
    then show thesis using that [of s1 s2 k1] str_put_length [OF s(2)] by simp
  qed
  then show ?case
    using TNode.IH [OF s(4)] str_put_length [OF s(1)] by (cases d) auto
next
  case (BNode_trie_node k h l r n)
  from BNode_trie_node.prems(1) obtain str1 keys1 str2 keys2 where s:
    "trie_node_prefix_find n str level keys = Inr (str1, keys1)"
    "children_prefix_find l str1 level keys1 = Inr (str2, keys2)"
    "children_prefix_find r str2 level keys2 = Inr (str', keys')"
    by auto
  then show ?case
    using BNode_trie_node.IH(3) [OF s(1)] BNode_trie_node.IH(1) [OF s(2)] BNode_trie_node.IH(2) [OF s(3)]
    by fastforce
qed simp_all

text \<open>The state of a range query: the path to the current node is in the buffer.\<close>

definition find_state :: "cstring \<Rightarrow> bytes \<Rightarrow> kv_obj Vector \<Rightarrow> bool" where
  "find_state p str keys \<longleftrightarrow> length str = 32 \<and> take (length p) str = p \<and> 0 \<notin> set p \<and> vector_inv keys"

lemma c_string_prefix:
  assumes "take n str = p" "length p = n" "n < length str" "0 \<notin> set p"
  shows "c_string (str[n := 0]) = p"
  using assms c_string_append_nul [of p "drop (Suc n) str"] by (simp add: upd_conv_take_nth_drop)

lemma prefix_find_data:
  assumes "find_state p str keys" and "length p < 32" and "level = int (length p)"
  shows "\<exists>str2 keys1. (case d of None \<Rightarrow> Inr (str, keys)
           | Some a \<Rightarrow> bindE (str_put str level 0) (\<lambda>str2.
               bindE (vector_append keys (c_string str2, a)) (\<lambda>keys1. Inr (str2, keys1)))) =
             Inr (str2, keys1) \<and> find_state p str2 keys1 \<and>
           vlist keys1 = vlist keys @ (case d of None \<Rightarrow> [] | Some a \<Rightarrow> [(p, a)])"
proof (cases d)
  case (Some a)
  let ?str = "str[length p := 0]"
  from vector_append_ok [of keys "(p, a)"] assms obtain keys1 where
    "vector_append keys (p, a) = Inr keys1" "vector_inv keys1" "vlist keys1 = vlist keys @ [(p, a)]"
    by (auto simp: find_state_def)
  moreover have "c_string ?str = p"
    using assms by (intro c_string_prefix) (auto simp: find_state_def)
  ultimately show ?thesis
    using assms Some by (auto simp: find_state_def str_put_level)
qed (use assms in auto)

lemma trie_node_prefix_find_ok:
  "trie_node_inv n \<Longrightarrow> tn_chr n \<noteq> 0 \<Longrightarrow> find_state p str keys \<Longrightarrow> length p + 1 + trie_depth n \<le> 31 \<Longrightarrow>
     \<exists>str' keys'. trie_node_prefix_find n str (int (length p)) keys = Inr (str', keys') \<and>
       find_state p str' keys' \<and>
       vlist keys' = vlist keys @ map (apfst (\<lambda>k. p @ tn_chr n # k)) (trie_entries n)"
  "children_inv ch \<Longrightarrow> find_state p str keys \<Longrightarrow> length p + children_depth ch \<le> 31 \<Longrightarrow>
     \<exists>str' keys'. children_prefix_find ch str (int (length p)) keys = Inr (str', keys') \<and>
       find_state p str' keys' \<and>
       vlist keys' = vlist keys @ map (apfst ((@) p)) (children_entries ch)"
proof (induction n and ch arbitrary: p str keys and p str keys rule: trie_induct)
  case (TNode c ch d)
  let ?str = "str[length p := c]"
  have len: "length str = 32" "length p < 31" using TNode.prems by (auto simp: find_state_def)
  have put: "str_put str (int (length p)) c = Inr ?str"
    using len by (intro str_put_level) simp
  have st: "find_state (p @ [c]) ?str keys"
    using TNode.prems(2,3) len by (auto simp: find_state_def take_update_append)
  have level: "int (length p) + 1 = int (length (p @ [c]))" by simp
  from prefix_find_data [OF st _ level, of d] len(2) obtain str2 keys1 where s2:
    "(case d of None \<Rightarrow> Inr (?str, keys)
      | Some a \<Rightarrow> bindE (str_put ?str (int (length p) + 1) 0) (\<lambda>str2.
          bindE (vector_append keys (c_string str2, a)) (\<lambda>keys1. Inr (str2, keys1)))) = Inr (str2, keys1)"
    "find_state (p @ [c]) str2 keys1"
    "vlist keys1 = vlist keys @ (case d of None \<Rightarrow> [] | Some a \<Rightarrow> [(p @ [c], a)])"
    by auto
  from TNode.IH [OF _ s2(2)] TNode.prems(1,4) obtain str3 keys2 where s3:
    "children_prefix_find ch str2 (int (length p) + 1) keys1 = Inr (str3, keys2)"
    "find_state (p @ [c]) str3 keys2"
    "vlist keys2 = vlist keys1 @ map (apfst ((@) (p @ [c]))) (children_entries ch)"
    by (auto simp: add.commute)
  have "take (length p) str3 = p"
    using s3(2) unfolding find_state_def
    by (metis append_eq_conv_conj length_append_singleton take_Suc_conv_app_nth take_add
        append_take_drop_id append.assoc)
  then have "find_state p str3 keys2" using s3(2) by (auto simp: find_state_def)
  moreover have "int (length p) \<noteq> int (length str)" using len by simp
  ultimately show ?case
    using put s2 s3(1,3) by (auto split: option.splits)
next
  case (BNode_trie_node k h l r n)
  from BNode_trie_node.prems have prems: "k \<noteq> 0" "tn_chr n = k" "trie_node_inv n"
    "children_inv l" "children_inv r" "length p + 1 + trie_depth n \<le> 31"
    "length p + children_depth l \<le> 31" "length p + children_depth r \<le> 31"
    by auto
  from BNode_trie_node.IH(3) [OF prems(3) _ BNode_trie_node.prems(2) prems(6)] prems(1,2)
  obtain str1 keys1 where s1: "trie_node_prefix_find n str (int (length p)) keys = Inr (str1, keys1)"
    "find_state p str1 keys1"
    "vlist keys1 = vlist keys @ map (apfst (\<lambda>s. p @ k # s)) (trie_entries n)" by auto
  from BNode_trie_node.IH(1) [OF prems(4) s1(2) prems(7)] obtain str2 keys2 where s2:
    "children_prefix_find l str1 (int (length p)) keys1 = Inr (str2, keys2)"
    "find_state p str2 keys2" "vlist keys2 = vlist keys1 @ map (apfst ((@) p)) (children_entries l)"
    by blast
  from BNode_trie_node.IH(2) [OF prems(5) s2(2) prems(8)] obtain str3 keys3 where
    "children_prefix_find r str2 (int (length p)) keys2 = Inr (str3, keys3)"
    "find_state p str3 keys3" "vlist keys3 = vlist keys2 @ map (apfst ((@) p)) (children_entries r)"
    by blast
  with s1 s2 show ?case by (auto simp: comp_def)
qed auto


subsection \<open>Runs of a trie\<close>

lemma trie_new_ok: "trie_inv (trie_new dt)" "trie_map (trie_new dt) = Map.empty"
  by (simp_all add: trie_inv_def trie_map_def trie_new_def)

lemma trie_find_map: "trie_inv t \<Longrightarrow> trie_find t key = Inr (trie_map t key)"
  by (auto elim!: trie_invE simp: trie_find_def)

lemma trie_insert_ok:
  assumes "trie_inv t" and "0 \<notin> set key"
  shows "\<exists>t'. trie_insert t key data = Inr t' \<and> trie_inv t' \<and> trie_map t' = (trie_map t)(key := data) \<and>
           t_size t' = (if trie_map t key = None then t_size t + 1 else t_size t) \<and>
           t_destructor t' = t_destructor t"
proof -
  from assms(1) obtain root where root: "t_root t = Some root" "tn_chr root = 0"
    "trie_node_inv root" "trie_map t = trie_node_search root" by (rule trie_invE)
  from trie_node_insert_ok [OF root(3) assms(2), of data "t_size t"] obtain root' where r:
    "trie_node_insert root key data (t_size t) =
       Inr (root', if trie_node_search root key = None then t_size t + 1 else t_size t)"
    "trie_node_inv root'" "tn_chr root' = tn_chr root"
    "\<And>k. trie_node_search root' k = (if k = key then data else trie_node_search root k)" by blast
  let ?t = "t\<lparr> t_root := Some root', t_size := if trie_map t key = None then t_size t + 1 else t_size t \<rparr>"
  have "trie_insert t key data = Inr ?t" using root(1,4) r(1) by (simp add: trie_insert_def)
  moreover have "trie_inv ?t" using r(2,3) root(2) by (simp add: trie_inv_def)
  moreover have "trie_map ?t = (trie_map t)(key := data)"
    using trie_map_Some [of ?t root'] r(2,4) root(4) by auto
  ultimately show ?thesis by (intro exI [of _ ?t]) simp
qed

text \<open>
  A trie in use: created empty, given freshly allocated data under NUL-free keys, and
  deleted from by key. Overwritten data stays allocated.
\<close>

inductive trie_run :: "'v trie_destructor option \<Rightarrow> 'v Trie \<Rightarrow> 'v heap \<Rightarrow> bool" for dt where
  run_new: "trie_run dt (trie_new dt) Map.empty"
| run_insert: "trie_run dt t h \<Longrightarrow> 0 \<notin> set key \<Longrightarrow> h a = None \<Longrightarrow> trie_insert t key (Some a) = Inr t' \<Longrightarrow>
    trie_run dt t' (h(a \<mapsto> v))"
| run_delete: "trie_run dt t h \<Longrightarrow> trie_delete t key h = Inr (b, t', h') \<Longrightarrow> trie_run dt t' h'"

definition trie_ok :: "'v trie_destructor option \<Rightarrow> 'v Trie \<Rightarrow> 'v heap \<Rightarrow> bool" where
  "trie_ok dt t h \<longleftrightarrow> trie_inv t \<and> trie_owns t h \<and> t_destructor t = dt \<and>
     t_size t = of_nat (card (dom (trie_map t)))"

lemma card_dom_fun_upd:
  assumes "finite (dom m)"
  shows "card (dom (m(k \<mapsto> v))) = (if m k = None then card (dom m) + 1 else card (dom m))"
    and "m k \<noteq> None \<Longrightarrow> card (dom m) = card (dom (m(k := None))) + 1"
proof -
  show "card (dom (m(k \<mapsto> v))) = (if m k = None then card (dom m) + 1 else card (dom m))"
    using assms by (auto simp: card_insert_if insert_absorb domIff)
  assume "m k \<noteq> None"
  then have "dom m = insert k (dom m - {k})" by auto
  then have "card (dom m) = card (insert k (dom m - {k}))" by simp
  also have "\<dots> = card (dom m - {k}) + 1" using assms by (subst card_insert_disjoint) auto
  finally show "card (dom m) = card (dom (m(k := None))) + 1" by simp
qed

lemma trie_ok_insert:
  assumes "trie_ok dt t h" and "0 \<notin> set key" and "h a = None"
  shows "\<exists>t'. trie_insert t key (Some a) = Inr t' \<and> trie_ok dt t' (h(a \<mapsto> v)) \<and>
           trie_map t' = (trie_map t)(key \<mapsto> a)"
proof -
  from assms(1) have t: "trie_inv t" "trie_owns t h" by (auto simp: trie_ok_def)
  from trie_insert_ok [OF t(1) assms(2), of "Some a"] obtain t' where t':
    "trie_insert t key (Some a) = Inr t'" "trie_inv t'" "trie_map t' = (trie_map t)(key \<mapsto> a)"
    "t_size t' = (if trie_map t key = None then t_size t + 1 else t_size t)"
    "t_destructor t' = t_destructor t" by blast
  have new: "trie_map t k \<noteq> Some a" for k
    using t(2) assms(3) by (auto simp: trie_owns_def ran_def dom_def)
  have "inj_on (trie_map t') (dom (trie_map t'))"
    using t(2) new unfolding t'(3) trie_owns_def inj_on_def by (auto split: if_splits)
  moreover have "ran (trie_map t') \<subseteq> dom (h(a \<mapsto> v))"
    using t(2) unfolding t'(3) trie_owns_def ran_def by auto
  moreover have "t_size t' = of_nat (card (dom (trie_map t')))"
    using assms(1) card_dom_fun_upd(1) [OF finite_trie_map [OF t(1)], of key a]
    by (simp add: t'(3,4) trie_ok_def)
  ultimately show ?thesis using t' assms(1) by (auto simp: trie_ok_def trie_owns_def)
qed

lemma trie_ok_delete:
  assumes "trie_ok dt t h" and "dtor_ok dt"
  shows "\<exists>b t' h'. trie_delete t key h = Inr (b, t', h') \<and> trie_ok dt t' h' \<and>
           trie_map t' = (if key = [] then trie_map t else (trie_map t)(key := None))"
proof (cases "key = [] \<or> trie_map t key = None")
  case True
  from assms(1) have t: "trie_inv t" "dtor_ok (t_destructor t)" using assms(2) by (auto simp: trie_ok_def)
  then obtain root where root: "t_root t = Some root" by (blast elim: trie_invE)
  show ?thesis
  proof (cases "key = []")
    case True
    then show ?thesis using root assms(1) by (auto simp: trie_delete_def)
  next
    case False
    with True have "trie_map t key = None" by simp
    from trie_delete_missing [OF t this, of h] False this assms(1) show ?thesis
      by (auto simp: trie_ok_def trie_owns_def fun_upd_idem)
  qed
next
  case False
  then obtain a where key: "key \<noteq> []" "trie_map t key = Some a" by auto
  from assms have t: "trie_inv t" "dtor_ok (t_destructor t)" "trie_owns t h" by (auto simp: trie_ok_def)
  then have "h a \<noteq> None" using key by (auto simp: trie_owns_def ran_def dom_def)
  with trie_delete_found [of t key a h] t key obtain t' where t':
    "trie_delete t key h = Inr (True, t', h(a := None))" "trie_inv t'"
    "trie_map t' = (trie_map t)(key := None)" "t_size t' = t_size t - 1"
    "t_destructor t' = t_destructor t" by blast
  have other: "k \<noteq> key \<Longrightarrow> trie_map t k \<noteq> Some a" for k
    using t(3) key(2) unfolding trie_owns_def inj_on_def by (metis domI)
  have "trie_owns t' (h(a := None))"
    using t(3) other unfolding t'(3) trie_owns_def inj_on_def ran_def dom_def
    by (auto split: if_splits)
  moreover have "t_size t' = of_nat (card (dom (trie_map t')))"
    using assms(1) card_dom_fun_upd(2) [OF finite_trie_map [OF t(1)], of key] key(2)
    by (simp add: t'(3,4) trie_ok_def)
  ultimately show ?thesis using t' key assms(1) by (auto simp: trie_ok_def)
qed

lemma trie_run_ok: "trie_run dt t h \<Longrightarrow> dtor_ok dt \<Longrightarrow> trie_ok dt t h"
proof (induction rule: trie_run.induct)
  case run_new
  then show ?case using trie_new_ok [of dt] by (simp add: trie_ok_def trie_owns_def trie_new_def)
next
  case (run_insert t h key a t' v)
  then show ?case using trie_ok_insert [of dt t h key a v] by (metis sum.inject(2))
next
  case (run_delete t h key b t' h')
  then show ?case using trie_ok_delete [of dt t h key] by auto
qed


subsection \<open>Properties\<close>

text \<open>The span of a prefix: the level of the deepest node a range query on it visits.\<close>

definition trie_span :: "'v Trie \<Rightarrow> cstring \<Rightarrow> nat" where
  "trie_span t p =
     (case t_root t of None \<Rightarrow> 0 | Some root \<Rightarrow>
        (case trie_node_find root p of None \<Rightarrow> 0 | Some m \<Rightarrow> length p + trie_depth m))"

lemma trie_node_find_last:
  "trie_node_inv n \<Longrightarrow> trie_node_find n p = Some m \<Longrightarrow> p \<noteq> [] \<Longrightarrow> tn_chr m = last p \<and> last p \<noteq> 0"
proof (induction n p rule: trie_node_find.induct)
  case (2 n c key)
  obtain b ch d where n: "n = TNode b ch d" by (cases n)
  with 2(3) obtain k h l r child where s: "bst_search ch c = BNode k h l r child"
    "trie_node_find child key = Some m" by (auto split: bst_node.splits)
  with 2(2) n have child: "c \<noteq> 0" "tn_chr child = c" "trie_node_inv child"
    using children_inv_lookup [of ch c child] by (simp_all add: bst_lookup_def)
  show ?case
  proof (cases "key = []")
    case True
    with child s show ?thesis by simp
  next
    case False
    then show ?thesis using 2(1) [of k h l r child] s n child by simp
  qed
qed simp

lemma trie_root_prefix_find:
  assumes "trie_node_inv n" and "tn_chr n = 0" and "trie_depth n \<le> 31"
    and "length str = 32" and "vector_inv keys"
  shows "\<exists>str' keys'. trie_node_prefix_find n str (-1) keys = Inr (str', keys') \<and> vector_inv keys' \<and>
           vlist keys' = vlist keys @ trie_entries n"
proof -
  obtain ch d where n: "n = TNode 0 ch d" using assms(2) by (cases n) auto
  have st: "find_state [] str keys" using assms by (simp add: find_state_def)
  from prefix_find_data [OF st, of 0 d] obtain str2 keys1 where s2:
    "(case d of None \<Rightarrow> Inr (str, keys) | Some a \<Rightarrow> bindE (str_put str 0 0) (\<lambda>str2.
        bindE (vector_append keys (c_string str2, a)) (\<lambda>keys1. Inr (str2, keys1)))) = Inr (str2, keys1)"
    "find_state [] str2 keys1" "vlist keys1 = vlist keys @ (case d of None \<Rightarrow> [] | Some a \<Rightarrow> [([], a)])"
    by auto
  from trie_node_prefix_find_ok(2) [OF _ s2(2), of ch] assms(1,3) n obtain str3 keys2 where
    "children_prefix_find ch str2 0 keys1 = Inr (str3, keys2)" "find_state [] str3 keys2"
    "vlist keys2 = vlist keys1 @ children_entries ch"
    by (auto simp: apfst_def map_prod_def)
  then show ?thesis
    using n s2 assms(4) by (cases d) (auto simp: str_put_def find_state_def)
qed

lemma trie_prefix_find_entries:
  assumes "t_root t = Some root" and "tn_chr root = 0" and "trie_node_inv root"
    and "trie_node_find root p = Some m" and "length p + trie_depth m \<le> 31" and "0 \<notin> set p"
  shows "\<exists>v. trie_prefix_find t p = Inr (Some v) \<and> vector_inv v \<and>
           vlist v = map (apfst ((@) p)) (trie_entries m)"
proof -
  let ?str = "p @ 0 # replicate (31 - length p) 0"
  have m: "trie_node_inv m" using assms(3,4) by (rule trie_node_find_inv)
  have len: "length ?str = 32" using assms(5) by simp
  have "\<exists>str' v. trie_node_prefix_find m ?str (int (length p) - 1) vector_new = Inr (str', v) \<and>
      vector_inv v \<and> vlist v = map (apfst ((@) p)) (trie_entries m)"
  proof (cases p rule: rev_cases)
    case Nil
    with assms m len trie_root_prefix_find [of m ?str vector_new] vector_new_inv show ?thesis
      by (auto simp: apfst_def map_prod_def)
  next
    case (snoc q c)
    then have c: "tn_chr m = c" "c \<noteq> 0" using trie_node_find_last [OF assms(3,4)] by auto
    have st: "find_state q ?str vector_new"
      using snoc assms(5,6) vector_new_inv by (simp add: find_state_def)
    have depth: "length q + 1 + trie_depth m \<le> 31" using snoc assms(5) by simp
    from trie_node_prefix_find_ok(1) [OF m _ st depth] c snoc show ?thesis
      by (auto simp: find_state_def)
  qed
  then show ?thesis using assms(1,4,5) by (auto simp: trie_prefix_find_def Let_def)
qed


lemma trie_new_simps [simp]:
  "trie_find (trie_new dt) key = Inr None" "t_size (trie_new dt) = 0" "t_destructor (trie_new dt) = dt"
  using trie_new_ok [of dt] by (simp_all add: trie_find_map) (simp_all add: trie_new_def)

text \<open>A trie filled from a list of keys and addresses, with all its data alive.\<close>

definition trie_insert_all :: "'v Trie \<Rightarrow> kv_obj list \<Rightarrow> 'v Trie cres" where
  "trie_insert_all t kvs = foldE (\<lambda>t (k, a). trie_insert t k (Some a)) t kvs"

lemma trie_insert_all_ok:
  assumes "trie_ok dt t h" and "\<forall>(k, a) \<in> set kvs. 0 \<notin> set k \<and> h a = None" and "distinct (map snd kvs)"
  shows "\<exists>t'. trie_insert_all t kvs = Inr t' \<and> trie_map t' = trie_map t ++ map_of (rev kvs) \<and>
           trie_ok dt t' (\<lambda>a. if a \<in> set (map snd kvs) then Some v else h a)"
  using assms
proof (induction kvs arbitrary: t h)
  case (Cons ka kvs)
  obtain k a where ka: "ka = (k, a)" by (cases ka)
  from Cons.prems ka trie_ok_insert [of dt t h k a v] obtain t1 where t1:
    "trie_insert t k (Some a) = Inr t1" "trie_ok dt t1 (h(a \<mapsto> v))" "trie_map t1 = (trie_map t)(k \<mapsto> a)"
    by auto
  have "\<forall>(k, b) \<in> set kvs. 0 \<notin> set k \<and> (h(a \<mapsto> v)) b = None"
    using Cons.prems ka by (auto simp: image_iff split: prod.splits)
  from Cons.IH [OF t1(2) this] Cons.prems(3) obtain t' where t': "trie_insert_all t1 kvs = Inr t'"
    "trie_map t' = trie_map t1 ++ map_of (rev kvs)"
    "trie_ok dt t' (\<lambda>b. if b \<in> set (map snd kvs) then Some v else (h(a \<mapsto> v)) b)" by auto
  have "(\<lambda>b. if b \<in> set (map snd kvs) then Some v else (h(a \<mapsto> v)) b) =
      (\<lambda>b. if b \<in> set (map snd (ka # kvs)) then Some v else h b)"
    using ka by (auto simp: fun_eq_iff)
  moreover have "trie_map t' = trie_map t ++ map_of (rev (ka # kvs))"
    using t'(2) t1(3) ka by (auto simp: map_add_def fun_eq_iff split: option.splits)
  moreover have "trie_insert_all t (ka # kvs) = Inr t'"
    using t1(1) t'(1) ka by (simp add: trie_insert_all_def)
  ultimately show ?case using t'(3) by auto
qed (auto simp: trie_insert_all_def)

lemma trie_new_run_ok: "trie_ok dt (trie_new dt) Map.empty"
  by (simp add: trie_ok_def trie_owns_def trie_new_ok)

text \<open>
  C12. Insertion: putting data under a NUL-free key of a well-formed trie succeeds and keeps the
  trie well-formed. Afterwards \<^verbatim>\<open>trie_find\<close> returns that data for the key and what it returned
  before for every other key; the size counter grows by one exactly when the key had no data.
\<close>

theorem trie_insert_correct:
  assumes "trie_inv t" and "0 \<notin> set key"
  shows "\<exists>t'. trie_insert t key (Some a) = Inr t' \<and> trie_inv t' \<and>
           (\<forall>k. trie_find t' k = (if k = key then Inr (Some a) else trie_find t k)) \<and>
           t_size t' = (if trie_find t key = Inr None then t_size t + 1 else t_size t)"
  using trie_insert_ok [OF assms, of "Some a"] assms(1) by (auto simp: trie_find_map)

theorem trie_insert_correct_witness:
  "\<exists>t'. trie_insert (trie_new None :: nat Trie) (lit ''ab'') (Some 7) = Inr t' \<and>
     trie_find t' (lit ''ab'') = Inr (Some 7) \<and> trie_find t' (lit ''a'') = Inr None \<and> t_size t' = 1"
proof -
  have "trie_inv (trie_new None :: nat Trie)" by (rule trie_new_ok)
  from trie_insert_correct [OF this, of "lit ''ab''" 7] show ?thesis by (auto simp: lit_def)
qed

text \<open>
  C13. Deletion of a non-empty key, with a destructor that meets its contract or with none: the
  call succeeds, the key has no data afterwards, every other key is as before, and the heap
  loses exactly the data of that key. The size counter still is the number of keys.
\<close>

theorem trie_delete_correct:
  assumes "trie_ok dt t h" and "dtor_ok dt" and "key \<noteq> []"
  shows "\<exists>b t'. trie_delete t key h = Inr (b, t', h |` (- set_option (trie_map t key))) \<and>
           trie_ok dt t' (h |` (- set_option (trie_map t key))) \<and>
           (\<forall>k. trie_find t' k = (if k = key then Inr None else trie_find t k))"
proof -
  from trie_ok_delete [OF assms(1,2), of key] assms(3) obtain b t' h' where
    d: "trie_delete t key h = Inr (b, t', h')" "trie_ok dt t' h'" "trie_map t' = (trie_map t)(key := None)"
    by auto
  have t: "trie_inv t" "dtor_ok (t_destructor t)" "trie_owns t h"
    using assms(1,2) by (auto simp: trie_ok_def)
  have "h' = h |` (- set_option (trie_map t key))"
  proof (cases "trie_map t key")
    case None
    moreover have "h |` UNIV = h" by (auto simp: restrict_map_def)
    ultimately show ?thesis using trie_delete_missing [OF t(1,2), of key h] d(1) by auto
  next
    case (Some a)
    have "h |` (- {a}) = h(a := None)" by (auto simp: restrict_map_def)
    moreover have "h a \<noteq> None" using Some t(3) by (auto simp: trie_owns_def ran_def dom_def)
    ultimately show ?thesis
      using Some trie_delete_found [OF t(1,2) assms(3), of a h] d(1) by auto
  qed
  moreover have "trie_inv t'" using d(2) by (simp add: trie_ok_def)
  ultimately show ?thesis using d t(1) by (auto simp: trie_find_map)
qed

text \<open>
  C16. Every trie reached from an empty one by insertions of fresh data and deletions counts its
  keys right, and no further lookup, deletion of a key or insertion of a NUL-free key on it faults.
\<close>

theorem trie_run_safe:
  assumes "trie_run dt t h" and "dtor_ok dt"
  shows "t_size t = of_nat (card {k. trie_find t k \<noteq> Inr None}) \<and>
    (\<exists>r. trie_find t key = Inr r) \<and> (\<exists>r. trie_delete t key h = Inr r) \<and>
    (0 \<notin> set key \<longrightarrow> (\<exists>t'. trie_insert t key data = Inr t'))"
proof -
  have ok: "trie_ok dt t h" using assms by (rule trie_run_ok)
  then have t: "trie_inv t" by (simp add: trie_ok_def)
  then have "{k. trie_find t k \<noteq> Inr None} = dom (trie_map t)" by (auto simp: trie_find_map)
  with ok have "t_size t = of_nat (card {k. trie_find t k \<noteq> Inr None})" by (simp add: trie_ok_def)
  moreover have "\<exists>r. trie_find t key = Inr r" using t by (simp add: trie_find_map)
  moreover have "\<exists>r. trie_delete t key h = Inr r" using trie_ok_delete [OF ok assms(2), of key] by blast
  moreover have "0 \<notin> set key \<longrightarrow> (\<exists>t'. trie_insert t key data = Inr t')"
    using trie_insert_ok [OF t] by blast
  ultimately show ?thesis by blast
qed

theorem trie_run_safe_witness:
  "\<exists>t' :: nat Trie. trie_insert (trie_new None) (lit ''k'') (Some 3) = Inr t' \<and>
     t_size t' = of_nat (card {k. trie_find t' k \<noteq> Inr None})"
proof -
  obtain t' :: "nat Trie" where t': "trie_insert (trie_new None) (lit ''k'') (Some 3) = Inr t'"
    using trie_insert_ok [OF trie_new_ok(1) [of None], of "lit ''k''" "Some 3"] by (auto simp: lit_def)
  have "trie_run None t' (Map.empty(3 \<mapsto> 0))"
    by (rule trie_run.run_insert [OF trie_run.run_new _ _ t']) (simp_all add: lit_def)
  from trie_run_safe [OF this] t' show ?thesis by simp
qed

text \<open>A small trie used to instantiate the properties.\<close>

definition sample_trie :: "'v trie_destructor option \<Rightarrow> 'v Trie cres" where
  "sample_trie dt = trie_insert_all (trie_new dt) [(lit ''ab'', 1), (lit ''ac'', 2), (lit ''b'', 3)]"

definition sample_heap :: "'v \<Rightarrow> 'v heap" where
  "sample_heap v a = (if a \<in> {1, 2, 3} then Some v else None)"

definition sample_map :: "cstring \<Rightarrow> addr option" where
  "sample_map = [lit ''ab'' \<mapsto> 1, lit ''ac'' \<mapsto> 2, lit ''b'' \<mapsto> 3]"

lemma sample_map_iff:
  "sample_map k = Some a \<longleftrightarrow>
     k = lit ''ab'' \<and> a = 1 \<or> k = lit ''ac'' \<and> a = 2 \<or> k = lit ''b'' \<and> a = 3"
  by (auto simp: sample_map_def lit_def)

lemma dom_sample_map: "dom sample_map = {lit ''ab'', lit ''ac'', lit ''b''}"
  by (auto simp: sample_map_def)

lemma sample_trie_ok:
  "\<exists>t. sample_trie dt = Inr t \<and> trie_ok dt t (sample_heap v) \<and>
     trie_map t = sample_map"
proof -
  let ?kvs = "[(lit ''ab'', 1), (lit ''ac'', 2), (lit ''b'', 3)] :: kv_obj list"
  have "sample_heap v = (\<lambda>a. if a \<in> set (map snd ?kvs) then Some v else None)"
    by (rule ext) (simp add: sample_heap_def)
  then show ?thesis
    using trie_insert_all_ok [OF trie_new_run_ok [of dt], of ?kvs v]
    by (auto simp: sample_trie_def sample_map_def lit_def trie_new_ok fun_upd_twist)
qed

theorem trie_delete_correct_witness:
  "\<exists>t b t' h'. sample_trie None = Inr t \<and> trie_delete t (lit ''ab'') (sample_heap (0 :: nat)) = Inr (b, t', h') \<and>
     trie_find t' (lit ''ab'') = Inr None \<and> trie_find t' (lit ''ac'') = Inr (Some 2) \<and> h' 1 = None \<and> h' 2 = Some 0"
proof -
  obtain t where t: "sample_trie None = Inr t" "trie_ok None t (sample_heap (0 :: nat))" "trie_map t = sample_map"
    using sample_trie_ok [of None "0 :: nat"] by (elim exE conjE)
  have find: "trie_find t k = Inr (sample_map k)" for k
    using t(2,3) by (simp add: trie_ok_def trie_find_map)
  have "lit ''ab'' \<noteq> []" by (simp add: lit_def)
  from trie_delete_correct [OF t(2) _ this] t(1,3) show ?thesis
    by (auto simp: find sample_map_def lit_def sample_heap_def)
qed

text \<open>
  C14. Prefix deletion, for a non-empty prefix and fewer than \<open>2 ^ 64\<close> keys: every key that starts with the prefix is gone,
  every other key keeps its data, and exactly the data of the removed keys is released.
\<close>

theorem trie_prefix_delete_correct:
  assumes "trie_ok dt t h" and "dtor_ok dt" and "p \<noteq> []" and "card (dom (trie_map t)) < 2 ^ 64"
  shows "\<exists>t'. trie_prefix_delete t p h = Inr (t', h |` (- released_under t p)) \<and> trie_inv t' \<and>
           (\<forall>k. trie_find t' k = (if has_prefix p k then Inr None else trie_find t k))"
proof -
  have t: "trie_inv t" "trie_owns t h" "dtor_ok (t_destructor t)"
    using assms(1,2) by (auto simp: trie_ok_def)
  have "unat (t_size t) = card (dom (trie_map t))"
    using assms(1,4) by (simp add: trie_ok_def unat_of_nat)
  with trie_prefix_delete_ok [OF t(1,3) assms(3) t(2)] t(1) show ?thesis
    by (auto simp: trie_find_map restrict_map_def)
qed

theorem trie_prefix_delete_correct_witness:
  "\<exists>t t' h'. sample_trie None = Inr t \<and> trie_prefix_delete t (lit ''a'') (sample_heap (0 :: nat)) = Inr (t', h') \<and>
     trie_find t' (lit ''ab'') = Inr None \<and> trie_find t' (lit ''ac'') = Inr None \<and>
     trie_find t' (lit ''b'') = Inr (Some 3) \<and> h' 1 = None \<and> h' 2 = None \<and> h' 3 = Some 0"
proof -
  obtain t where t: "sample_trie None = Inr t" "trie_ok None t (sample_heap (0 :: nat))"
    "trie_map t = sample_map"
    using sample_trie_ok [of None "0 :: nat"] by (elim exE conjE)
  have find: "trie_find t k = Inr (sample_map k)" for k
    using t(2,3) by (simp add: trie_ok_def trie_find_map)
  have "released_under t (lit ''a'') = {1, 2}"
    by (auto simp: released_under_def has_prefix_def t(3) sample_map_iff) (auto simp: lit_def)
  moreover have "card (dom (trie_map t)) < 2 ^ 64" by (simp add: t(3) dom_sample_map lit_def)
  ultimately show ?thesis
    using trie_prefix_delete_correct [OF t(2), of "lit ''a''"] t(1,3)
    by (auto simp: find sample_map_def lit_def has_prefix_def sample_heap_def)
qed

lemma card_trie_split:
  assumes "finite (dom (trie_map t))"
  shows "card (dom (trie_map t)) = card {k \<in> dom (trie_map t). \<not> has_prefix p k} + card (keys_under t p)"
proof -
  have "dom (trie_map t) = {k \<in> dom (trie_map t). \<not> has_prefix p k} \<union> keys_under t p"
    by (auto simp: keys_under_def)
  also have "card \<dots> = card {k \<in> dom (trie_map t). \<not> has_prefix p k} + card (keys_under t p)"
    using assms by (intro card_Un_disjoint) (auto simp: keys_under_def)
  finally show ?thesis .
qed

text \<open>
  The size counter after a prefix deletion with a destructor: it loses one if the prefix itself
  was a key, and nothing for the longer keys.
\<close>

lemma trie_prefix_delete_size:
  assumes "trie_ok (Some f) t h" and "data_destructor f" and "p \<noteq> []"
    and "card (dom (trie_map t)) < 2 ^ 64" and "trie_prefix_delete t p h = Inr (t', h')"
  shows "t_size t' = of_nat (card (dom (trie_map t')) + card (keys_under t p - {p}))"
proof -
  have t: "trie_inv t" "trie_owns t h" "t_destructor t = Some f" "dtor_ok (t_destructor t)"
    using assms(1,2) by (auto simp: trie_ok_def dtor_ok_Some)
  have sz: "unat (t_size t) = card (dom (trie_map t))"
    using assms(1,4) by (simp add: trie_ok_def unat_of_nat)
  let ?rest = "{k \<in> dom (trie_map t). \<not> has_prefix p k}"
  have fin: "finite (dom (trie_map t))" using t(1) by (rule finite_trie_map)
  have t': "trie_map t' = trie_map t |` {k. \<not> has_prefix p k}"
    "t_size t' = t_size t - (if trie_map t p = None then 0 else 1)"
    using trie_prefix_delete_ok [OF t(1,4) assms(3) t(2)] sz t(3) assms(5) by simp_all
  have "dom (trie_map t') = ?rest" by (auto simp: t'(1))
  moreover have "card (dom (trie_map t)) = card ?rest + card (keys_under t p)"
    using fin by (rule card_trie_split)
  moreover have "card (keys_under t p) = card (keys_under t p - {p}) + (if trie_map t p = None then 0 else 1)"
  proof (cases "trie_map t p = None")
    case True
    then have "p \<notin> keys_under t p" by (auto simp: keys_under_def)
    then show ?thesis using True by simp
  next
    case False
    then have "p \<in> keys_under t p" by (auto simp: keys_under_def has_prefix_def)
    moreover have "finite (keys_under t p)" using fin by (simp add: keys_under_def)
    ultimately show ?thesis using False card.remove [of "keys_under t p" p] by simp
  qed
  moreover have "t_size t = of_nat (card (dom (trie_map t)))" using assms(1) by (simp add: trie_ok_def)
  ultimately show ?thesis using t'(2) by simp
qed


text \<open>
  Counting: \<^verbatim>\<open>trie_prefix_count\<close> returns the number of keys that start with the prefix, at the
  width of an int.
\<close>

theorem trie_prefix_count_correct:
  assumes "trie_inv t"
  shows "trie_prefix_count t p = Inr (of_nat (card {k. trie_find t k \<noteq> Inr None \<and> has_prefix p k}))"
proof -
  from assms obtain root where root: "t_root t = Some root" "trie_node_inv root" by (rule trie_invE)
  have "{k. trie_find t k \<noteq> Inr None \<and> has_prefix p k} = keys_under t p"
    using assms by (auto simp: trie_find_map keys_under_def)
  then show ?thesis
    using card_keys_under [OF root, of p] root(1)
    by (simp add: trie_prefix_count_def trie_node_count_entries split: option.split)
qed

theorem trie_prefix_count_correct_witness:
  "\<exists>t :: nat Trie. sample_trie None = Inr t \<and> trie_prefix_count t (lit ''a'') = Inr 2"
proof -
  obtain t :: "nat Trie" where t: "sample_trie None = Inr t" "trie_inv t"
    "trie_map t = sample_map"
    using sample_trie_ok [of None "0 :: nat"] unfolding trie_ok_def by (elim exE conjE)
  have "{k. trie_find t k \<noteq> Inr None \<and> has_prefix (lit ''a'') k} = {lit ''ab'', lit ''ac''}"
    using t(2) dom_sample_map by (auto simp: trie_find_map t(3) has_prefix_def lit_def)
  with trie_prefix_count_correct [OF t(2), of "lit ''a''"] t(1) show ?thesis by (simp add: lit_def)
qed

lemma trie_prefix_find_ok:
  assumes "trie_inv t" and "0 \<notin> set p" and "trie_span t p \<le> 31"
  shows "\<exists>r. trie_prefix_find t p = Inr r \<and>
           (case r of None \<Rightarrow> \<forall>k. has_prefix p k \<longrightarrow> trie_find t k = Inr None
            | Some v \<Rightarrow> vector_inv v \<and> distinct (map fst (vlist v)) \<and>
                set (vlist v) = {(k, a). has_prefix p k \<and> trie_find t k = Inr (Some a)})"
proof -
  from assms(1) obtain root where root: "t_root t = Some root" "tn_chr root = 0" "trie_node_inv root"
    "trie_map t = trie_node_search root" by (rule trie_invE)
  show ?thesis
  proof (cases "trie_node_find root p")
    case None
    then show ?thesis using root(1,4) assms(1)
      by (auto simp: trie_prefix_find_def trie_find_map has_prefix_iff trie_node_search_append)
  next
    case (Some m)
    with assms(2,3) root trie_prefix_find_entries [OF root(1-3), of p m] obtain v where v:
      "trie_prefix_find t p = Inr (Some v)" "vector_inv v" "vlist v = map (apfst ((@) p)) (trie_entries m)"
      by (auto simp: trie_span_def)
    have m: "trie_node_inv m" using root(3) Some by (rule trie_node_find_inv)
    have "distinct (map fst (vlist v))"
      using trie_entries_distinct(1) [OF m] by (simp add: v(3) distinct_map comp_inj_on_iff [symmetric] inj_on_def)
    moreover have "(s, a) \<in> set (trie_entries m) \<longleftrightarrow> trie_map t (p @ s) = Some a" for s a
      using map_of_eq_Some_iff [OF trie_entries_distinct(1) [OF m], of s a]
        map_of_trie_entries(1) [OF m, of s] Some
      by (simp add: root(4) trie_node_search_append)
    then have "set (vlist v) = {(k, a). has_prefix p k \<and> trie_find t k = Inr (Some a)}"
      using assms(1) by (force simp: v(3) trie_find_map has_prefix_iff)
    ultimately show ?thesis using v(1,2) by simp
  qed
qed

text \<open>
  C15. Range queries inside the 32-byte key buffer: where no path below the prefix is longer than
  31 bytes, \<^verbatim>\<open>trie_prefix_find\<close> returns every key that starts with the prefix exactly once, with
  its data, and nothing else; it returns NULL only if there is none.
\<close>

theorem trie_prefix_find_correct:
  assumes "trie_inv t" and "0 \<notin> set p" and "trie_span t p \<le> 31"
  shows "\<exists>r. trie_prefix_find t p = Inr r \<and>
           (case r of None \<Rightarrow> \<forall>k. has_prefix p k \<longrightarrow> trie_find t k = Inr None
            | Some v \<Rightarrow> vector_inv v \<and> distinct (map fst (vlist v)) \<and>
                set (vlist v) = {(k, a). has_prefix p k \<and> trie_find t k = Inr (Some a)})"
  using trie_prefix_find_ok [OF assms] .

lemma sample_trie_span:
  "(case (sample_trie None :: nat Trie cres) of Inl e \<Rightarrow> False | Inr t \<Rightarrow> trie_span t (lit ''a'') = 2)"
  by code_simp

theorem trie_prefix_find_correct_witness:
  "\<exists>t r. sample_trie None = Inr (t :: nat Trie) \<and> trie_prefix_find t (lit ''a'') = Inr r \<and>
     (case r of None \<Rightarrow> False | Some v \<Rightarrow> set (vlist v) = {(lit ''ab'', 1), (lit ''ac'', 2)})"
proof -
  obtain t :: "nat Trie" where t: "sample_trie None = Inr t" "trie_inv t" "trie_map t = sample_map"
    using sample_trie_ok [of None "0 :: nat"] unfolding trie_ok_def by (elim exE conjE)
  have find: "trie_find t k = Inr (sample_map k)" for k using t(2,3) by (simp add: trie_find_map)
  have "trie_span t (lit ''a'') \<le> 31" using sample_trie_span t(1) by simp
  moreover have "has_prefix (lit ''a'') (lit ''ab'')" by (simp add: has_prefix_def lit_def)
  moreover have "sample_map (lit ''ab'') = Some 1" by (simp add: sample_map_iff)
  moreover have eq: "{(k, a). has_prefix (lit ''a'') k \<and> sample_map k = Some a} = {(lit ''ab'', 1), (lit ''ac'', 2)}"
    by (auto simp: sample_map_iff has_prefix_def) (auto simp: lit_def)
  moreover have "0 \<notin> set (lit ''a'')" by (simp add: lit_def)
  ultimately obtain r where "trie_prefix_find t (lit ''a'') = Inr r"
    "case r of None \<Rightarrow> False | Some v \<Rightarrow> set (vlist v) = {(lit ''ab'', 1), (lit ''ac'', 2)}"
    using trie_prefix_find_correct [OF t(2), of "lit ''a''"] by (fastforce simp: find split: option.splits)
  with t(1) show ?thesis by blast
qed

text \<open>
  Range queries past the buffer: if a key of 32 bytes or more starts with the prefix, the
  query does not return a result; it writes outside the buffer or uses it after it was moved.
\<close>

theorem trie_prefix_find_faults:
  assumes "trie_inv t" and "trie_find t k = Inr (Some a)" and "has_prefix p k" and "32 \<le> length k"
  shows "\<exists>e. trie_prefix_find t p = Inl e"
proof (rule ccontr)
  assume "\<not> ?thesis"
  then obtain r where r: "trie_prefix_find t p = Inr r" by (cases "trie_prefix_find t p") auto
  from assms(1) obtain root where root: "t_root t = Some root" "tn_chr root = 0" "trie_node_inv root"
    "trie_map t = trie_node_search root" by (rule trie_invE)
  from assms(3) obtain s where k: "k = p @ s" by (auto simp: has_prefix_iff)
  with assms(1,2) root(4) obtain m where m: "trie_node_find root p = Some m" "trie_node_search m s = Some a"
    by (auto simp: trie_find_map trie_node_search_append split: option.splits)
  have "(s, a) \<in> set (trie_entries m)"
    using m map_of_trie_entries(1) [OF trie_node_find_inv [OF root(3) m(1)], of s] by (simp add: map_of_SomeD)
  moreover from r root(1) m(1) obtain str' v where plen: "length p < 32" and
    "trie_node_prefix_find m (p @ 0 # replicate (31 - length p) 0) (int (length p) - 1) vector_new = Inr (str', v)"
    by (auto simp: trie_prefix_find_def Let_def split: if_splits)
  note trie_node_prefix_find_bounds(1) [OF this(2)]
  ultimately have "int (length p) + int (length s) < 32" using plen by auto
  with k assms(4) show False by simp
qed

theorem trie_prefix_find_faults_witness:
  "\<exists>t' e. trie_insert (trie_new None :: nat Trie) (replicate 40 1) (Some 5) = Inr t' \<and>
     trie_prefix_find t' [1] = Inl e"
proof -
  obtain t' :: "nat Trie" where t': "trie_insert (trie_new None) (replicate 40 1) (Some 5) = Inr t'"
    "trie_inv t'" "trie_map t' (replicate 40 1) = Some 5"
    using trie_insert_ok [OF trie_new_ok(1), of "replicate 40 1" "None :: nat trie_destructor option" "Some 5"] by auto
  with trie_prefix_find_faults [OF t'(2), of "replicate 40 1" 5 "[1]"] show ?thesis
    by (simp add: trie_find_map has_prefix_def)
qed

text \<open>
  Destruction: \<^verbatim>\<open>trie_destroy\<close> releases the data of every key of the trie, each once, and no
  other object.
\<close>

theorem trie_destroy_correct:
  assumes "trie_ok dt t h" and "dtor_ok dt" and "card (dom (trie_map t)) < 2 ^ 64"
  shows "trie_destroy t h = Inr (h |` (- {a. \<exists>k. trie_find t k = Inr (Some a)}))"
proof -
  have t: "trie_inv t" "trie_owns t h" "t_destructor t = dt" "unat (t_size t) = card (dom (trie_map t))"
    using assms(1,3) by (auto simp: trie_ok_def unat_of_nat)
  from t(1) obtain root where root: "t_root t = Some root" "trie_node_inv root"
    "trie_map t = trie_node_search root" by (rule trie_invE)
  have inj: "inj_on (trie_node_search root) (dom (trie_node_search root))"
    using t(2) root(3) by (simp add: trie_owns_def)
  note rel = trie_released_ok [OF root(2) inj]
  have alive: "\<forall>a \<in> set (trie_released root). h a \<noteq> None"
    using t(2) rel(2) root(3) by (auto simp: trie_owns_def dom_def)
  have len: "length (trie_released root) \<le> unat (t_size t)" using rel(3) t(4) root(3) by simp
  have "{a. \<exists>k. trie_find t k = Inr (Some a)} = set (trie_released root)"
    using t(1) rel(2) root(3) by (simp add: trie_find_map ran_def)
  then show ?thesis
    using trie_node_destroy_ok(1) [OF assms(2) rel(1) alive len] root(1) t(3)
    by (simp add: trie_destroy_def free_all_def)
qed

theorem trie_destroy_correct_witness:
  "\<exists>t. sample_trie None = Inr t \<and> trie_destroy t (sample_heap (0 :: nat)) = Inr Map.empty"
proof -
  obtain t where t: "sample_trie None = Inr t" "trie_ok None t (sample_heap (0 :: nat))"
    "trie_map t = sample_map"
    using sample_trie_ok [of None "0 :: nat"] by (elim exE conjE)
  have "trie_inv t" using t(2) by (simp add: trie_ok_def)
  then have "{a. \<exists>k. trie_find t k = Inr (Some a)} = {1, 2, 3}"
    by (simp add: trie_find_map t(3) sample_map_iff) auto
  moreover have "sample_heap (0 :: nat) |` (- {1, 2, 3}) = Map.empty"
    by (auto simp: sample_heap_def restrict_map_def)
  moreover have "card (dom (trie_map t)) < 2 ^ 64" by (simp add: t(3) dom_sample_map lit_def)
  ultimately show ?thesis using trie_destroy_correct [OF t(2)] t(1) by simp
qed

end
