(* ===== verification/Tdb_Util.thy ===== *)
theory Tdb_Util
  imports Tdb_Prelude
begin

text \<open>
  The helpers of \<^verbatim>\<open>src/util.c\<close>: integers in decimal strings, which the INC and DEC commands rely
  on, the comparison macro \<^verbatim>\<open>STREQ\<close>, and the allocation functions that keep count of the memory in
  use. Of the C library the part the code uses is modelled: \<^verbatim>\<open>isdigit\<close>, \<^verbatim>\<open>tolower\<close>, the \<^verbatim>\<open>%d\<close>
  conversion and \<^verbatim>\<open>strncasecmp\<close>.
\<close>

subsection \<open>Integers in strings\<close>

definition INT_MAX :: int where "INT_MAX = 2 ^ 31 - 1"

definition INT_MIN :: int where "INT_MIN = - (2 ^ 31)"

text \<open>The value of a signed C \<^verbatim>\<open>int\<close> expression: overflow is undefined.\<close>

definition c_int :: "int \<Rightarrow> int cres" where
  "c_int n = (if INT_MIN \<le> n \<and> n \<le> INT_MAX then Inr n else Inl SignedOverflow)"

definition isdigit :: "byte \<Rightarrow> bool" where
  "isdigit c \<longleftrightarrow> 48 \<le> c \<and> c \<le> 57"

fun is_integer :: "cstring \<Rightarrow> bool" where
  "is_integer [] = True"
| "is_integer (c # str) = (if \<not> isdigit c then False else is_integer str)"

text \<open>The loop of \<^verbatim>\<open>parse_int\<close>, with the number read so far.\<close>

fun parse_int_loop :: "int \<Rightarrow> cstring \<Rightarrow> int cres" where
  "parse_int_loop n [] = Inr n"
| "parse_int_loop n (c # str) =
     (if isdigit c
      then bindE (c_int (n * 10)) (\<lambda>m. bindE (c_int (m + (uint c - 48))) (\<lambda>n'. parse_int_loop n' str))
      else Inr n)"

definition parse_int :: "cstring \<Rightarrow> int cres" where
  "parse_int str = parse_int_loop 0 str"

text \<open>What \<^verbatim>\<open>sprintf(buf, "%d", n)\<close> writes, without the terminating NUL.\<close>

fun dec_digits :: "nat \<Rightarrow> cstring" where
  "dec_digits n = (if n < 10 then [of_nat (48 + n)] else dec_digits (n div 10) @ [of_nat (48 + n mod 10)])"

declare dec_digits.simps [simp del]

definition sprintf_d :: "int \<Rightarrow> cstring" where
  "sprintf_d n = (if n < 0 then 45 # dec_digits (nat (- n)) else dec_digits (nat n))"

function number_len_loop :: "u64 \<Rightarrow> int \<Rightarrow> int" where
  "number_len_loop number len = (if number \<noteq> 0 then number_len_loop (number div 10) (len + 1) else len)"
  by pat_completeness auto
termination
proof (relation "measure (\<lambda>(number, len). unat number)")
  fix number :: u64 and len :: int
  assume "number \<noteq> 0"
  then have "0 < unat number" by (simp add: unat_gt_0)
  then have "unat number div 10 < unat number" by simp
  then show "((number div 10, len + 1), number, len) \<in> measure (\<lambda>(number, len). unat number)"
    by (simp add: unat_div)
qed simp

declare number_len_loop.simps [simp del]

definition number_len :: "u64 \<Rightarrow> int" where
  "number_len number = number_len_loop number 1"

text \<open>
  \<^verbatim>\<open>update_integer_string\<close>: the new content of the string. \<^verbatim>\<open>tmp\<close> is an array of
  \<^verbatim>\<open>number_len(n) + 1\<close> bytes; the int argument is converted to \<^verbatim>\<open>size_t\<close>.
\<close>

definition update_integer_string :: "cstring \<Rightarrow> int \<Rightarrow> cstring cres" where
  "update_integer_string str num =
     bindE (parse_int str) (\<lambda>n0.
     bindE (c_int (n0 + num)) (\<lambda>n.
       let tmp = sprintf_d n
       in if int (length tmp) + 1 \<le> number_len (of_int n) + 1 then Inr tmp else Inl OutOfBounds))"

subsection \<open>String comparison\<close>

definition tolower :: "byte \<Rightarrow> byte" where
  "tolower c = (if 65 \<le> c \<and> c \<le> 90 then c + 32 else c)"

text \<open>
  \<^verbatim>\<open>strncasecmp(s1, s2, len) == 0\<close>: the strings agree without case on the first \<^verbatim>\<open>len\<close> bytes, or
  up to and including their ends where both end before.
\<close>

fun STREQ :: "cstring \<Rightarrow> cstring \<Rightarrow> nat \<Rightarrow> bool" where
  "STREQ s1 s2 0 = True"
| "STREQ [] [] (Suc len) = True"
| "STREQ [] (c # s2) (Suc len) = False"
| "STREQ (c # s1) [] (Suc len) = False"
| "STREQ (c # s1) (d # s2) (Suc len) = (tolower c = tolower d \<and> STREQ s1 s2 len)"

subsection \<open>Allocation with a memory counter\<close>

text \<open>
  Each block starts with a header of \<^verbatim>\<open>sizeof(size_t) = 8\<close> bytes that holds a size; \<open>blocks\<close> has
  the header of each live block and \<open>memory\<close> is the static counter. What \<^verbatim>\<open>malloc\<close>, \<^verbatim>\<open>calloc\<close> and
  \<^verbatim>\<open>realloc\<close> return is an argument: \<open>None\<close> for NULL, or the address of a block not in use (for
  \<^verbatim>\<open>realloc\<close>, possibly the old one).
\<close>

record t_mem =
  memory :: u64
  blocks :: "addr \<rightharpoonup> u64"

definition tmalloc :: "t_mem \<Rightarrow> addr option \<Rightarrow> u64 \<Rightarrow> (t_mem \<times> addr option) cres" where
  "tmalloc st ptr sz =
     (if sz = 0 then Inl AssertFailed
      else case ptr of
             None \<Rightarrow> Inr (st, None)
           | Some p \<Rightarrow>
               Inr (st\<lparr> memory := memory st + (sz + 8), blocks := (blocks st)(p \<mapsto> sz) \<rparr>, Some p))"

definition tcalloc :: "t_mem \<Rightarrow> addr option \<Rightarrow> u64 \<Rightarrow> u64 \<Rightarrow> (t_mem \<times> addr option) cres" where
  "tcalloc st ptr len sz =
     (if len = 0 \<or> sz = 0 then Inl AssertFailed
      else case ptr of
             None \<Rightarrow> Inr (st, None)
           | Some p \<Rightarrow>
               Inr (st\<lparr> memory := memory st + len * (sz + 8), blocks := (blocks st)(p \<mapsto> sz) \<rparr>, Some p))"

definition trealloc :: "t_mem \<Rightarrow> addr option \<Rightarrow> addr option \<Rightarrow> u64 \<Rightarrow> (t_mem \<times> addr option) cres" where
  "trealloc st ptr newptr sz =
     (if sz = 0 then Inl AssertFailed
      else case ptr of
             None \<Rightarrow> tmalloc st newptr sz
           | Some p \<Rightarrow>
               bindE (obj_read (blocks st) p) (\<lambda>curr_size.
                 if sz = curr_size then Inr (st, Some p)
                 else case newptr of
                        None \<Rightarrow> Inr (st, None)
                      | Some q \<Rightarrow>
                          Inr (st\<lparr> memory := memory st + (- curr_size + sz + 8),
                                   blocks := ((blocks st)(p := None))(q \<mapsto> sz) \<rparr>, Some q)))"

text \<open>The guard of \<^verbatim>\<open>tfree\<close> compares an unsigned value with zero and never holds.\<close>

definition tfree :: "t_mem \<Rightarrow> addr option \<Rightarrow> t_mem cres" where
  "tfree st ptr =
     (case ptr of
        None \<Rightarrow> Inr st
      | Some p \<Rightarrow>
          bindE (obj_read (blocks st) p) (\<lambda>ptr_size.
          bindE (obj_free (blocks st) p) (\<lambda>bs.
            Inr (st\<lparr> memory := (if memory st - ptr_size + 8 < 0 then 0 else memory st - (ptr_size + 8)),
                     blocks := bs \<rparr>))))"

definition malloc_size :: "t_mem \<Rightarrow> addr option \<Rightarrow> u64 cres" where
  "malloc_size st ptr = (case ptr of None \<Rightarrow> Inr 0 | Some p \<Rightarrow> obj_read (blocks st) p)"

definition memory_used :: "t_mem \<Rightarrow> u64" where
  "memory_used st = memory st"

text \<open>\<^verbatim>\<open>tstrdup\<close>: a block of one byte more than the string, and the string copied into it.\<close>

definition tstrdup :: "t_mem \<Rightarrow> addr option \<Rightarrow> cstring \<Rightarrow> (t_mem \<times> (addr \<times> bytes) option) cres" where
  "tstrdup st ptr s =
     bindE (tmalloc st ptr (of_nat (length s) + 1)) (\<lambda>(st', ds).
       case ds of None \<Rightarrow> Inr (st', None) | Some p \<Rightarrow> Inr (st', Some (p, s @ [0])))"


subsection \<open>Decimal strings\<close>

lemma is_integer_iff: "is_integer str \<longleftrightarrow> (\<forall>c \<in> set str. isdigit c)"
  by (induction str) auto

lemma digit_word: "d < 10 \<Longrightarrow> uint (of_nat (48 + d) :: byte) = 48 + int d \<and> isdigit (of_nat (48 + d))"
proof -
  assume "d < 10"
  then have "d = 0 \<or> d = 1 \<or> d = 2 \<or> d = 3 \<or> d = 4 \<or> d = 5 \<or> d = 6 \<or> d = 7 \<or> d = 8 \<or> d = 9"
    by presburger
  then show ?thesis by (elim disjE) (simp_all add: isdigit_def)
qed

lemma dec_digits_small: "n < 10 \<Longrightarrow> dec_digits n = [of_nat (48 + n)]"
  by (subst dec_digits.simps) simp

lemma dec_digits_rec: "10 \<le> n \<Longrightarrow> dec_digits n = dec_digits (n div 10) @ [of_nat (48 + n mod 10)]"
  by (subst dec_digits.simps) simp

lemma dec_digits_isdigit: "\<forall>c \<in> set (dec_digits n). isdigit c"
proof (induction n rule: dec_digits.induct)
  case (1 n)
  then show ?case
    using digit_word [of n] digit_word [of "n mod 10"]
    by (cases "n < 10") (auto simp: dec_digits_small dec_digits_rec simp del: of_nat_add)
qed

lemma parse_int_loop_append:
  "\<forall>c \<in> set xs. isdigit c \<Longrightarrow>
     parse_int_loop n (xs @ ys) = bindE (parse_int_loop n xs) (\<lambda>m. parse_int_loop m ys)"
  by (induction xs arbitrary: n) (auto simp: bindE_assoc)

lemma parse_int_digit:
  "d < 10 \<Longrightarrow> 0 \<le> n \<Longrightarrow> n * 10 + int d \<le> INT_MAX \<Longrightarrow>
     parse_int_loop n [of_nat (48 + d)] = Inr (n * 10 + int d)"
  using digit_word [of d] by (simp add: c_int_def INT_MIN_def INT_MAX_def del: of_nat_add)

lemma parse_dec_digits: "int n \<le> INT_MAX \<Longrightarrow> parse_int_loop 0 (dec_digits n) = Inr (int n)"
proof (induction n rule: dec_digits.induct)
  case (1 n)
  show ?case
  proof (cases "n < 10")
    case True
    then show ?thesis using 1(2) parse_int_digit [of n 0] by (simp add: dec_digits_small)
  next
    case False
    have "int (n div 10) \<le> INT_MAX" using 1(2) by linarith
    moreover have "int (n div 10) * 10 + int (n mod 10) = int n" by (simp add: zdiv_int zmod_int)
    ultimately show ?thesis
      using False 1 parse_int_digit [of "n mod 10" "int (n div 10)"] dec_digits_isdigit
      by (simp add: dec_digits_rec parse_int_loop_append del: of_nat_add)
  qed
qed

lemma length_dec_digits_mono: "m \<le> n \<Longrightarrow> length (dec_digits m) \<le> length (dec_digits n)"
proof (induction n arbitrary: m rule: dec_digits.induct)
  case (1 n)
  show ?case
  proof (cases "n < 10")
    case True
    with 1 show ?thesis by (simp add: dec_digits_small)
  next
    case False
    have "m div 10 \<le> n div 10" using 1(2) by (rule div_le_mono)
    from 1(1) [OF False this] have "length (dec_digits (m div 10)) \<le> length (dec_digits (n div 10))" .
    with False show ?thesis by (cases "m < 10") (simp_all add: dec_digits_small dec_digits_rec)
  qed
qed

lemma number_len_loop_digits:
  "number_len_loop w len = (if w = 0 then len else len + int (length (dec_digits (unat w))))"
proof (induction w len rule: number_len_loop.induct)
  case (1 w len)
  show ?case
  proof (cases "w = 0")
    case True
    then show ?thesis by (simp add: number_len_loop.simps)
  next
    case False
    have "w div 10 = 0 \<longleftrightarrow> unat w < 10"
      by (simp add: word_unat_eq_iff unat_div div_eq_0_iff)
    moreover have "unat (w div 10) = unat w div 10" by (simp add: unat_div)
    ultimately show ?thesis
      using False 1 [OF False]
      by (cases "unat w < 10") (simp_all add: number_len_loop.simps [of w] dec_digits_small dec_digits_rec)
  qed
qed


lemma sprintf_d_fits:
  assumes "INT_MIN \<le> n" and "n \<le> INT_MAX"
  shows "int (length (sprintf_d n)) \<le> number_len (of_int n)"
proof (cases "n < 0")
  case False
  then have "unat (of_int n :: u64) = nat n"
    using assms(2) by (simp add: INT_MAX_def unat_eq_nat_uint uint_word_of_int)
  then show ?thesis
    using False by (simp add: number_len_def number_len_loop_digits sprintf_d_def dec_digits_small
        word_unat_eq_iff)
next
  case True
  have "n mod 2 ^ 64 = (n + 2 ^ 64) mod 2 ^ 64" by simp
  also have "\<dots> = n + 2 ^ 64" using True assms(1) by (intro mod_pos_pos_trivial) (auto simp: INT_MIN_def)
  finally have "uint (of_int n :: u64) = n + 2 ^ 64" by (simp add: uint_word_of_int)
  then have "10 ^ 19 \<le> unat (of_int n :: u64)"
    using assms(1) by (simp add: INT_MIN_def unat_eq_nat_uint)
  then have "length (dec_digits (10 ^ 19)) \<le> length (dec_digits (unat (of_int n :: u64)))"
    by (rule length_dec_digits_mono)
  moreover have "length (dec_digits (10 ^ 19)) = 20" by (simp add: dec_digits.simps)
  moreover have "nat (- n) \<le> 2147483648" using assms(1) by (simp add: INT_MIN_def)
  then have "length (dec_digits (nat (- n))) \<le> length (dec_digits 2147483648)"
    by (rule length_dec_digits_mono)
  moreover have "length (dec_digits 2147483648) = 10" by (simp add: dec_digits.simps)
  ultimately show ?thesis using True \<open>10 ^ 19 \<le> unat (of_int n :: u64)\<close>
    by (auto simp: number_len_def number_len_loop_digits sprintf_d_def)
qed

lemma update_integer_string_eq:
  "update_integer_string str num = bindE (parse_int str) (\<lambda>n0. bindE (c_int (n0 + num)) (\<lambda>n. Inr (sprintf_d n)))"
  unfolding update_integer_string_def
  by (intro bindE_cong refl) (auto simp: c_int_def Let_def split: if_splits dest: sprintf_d_fits)

lemma STREQ_iff: "STREQ s1 s2 len \<longleftrightarrow> map tolower (take len s1) = map tolower (take len s2)"
  by (induction s1 s2 len rule: STREQ.induct) auto


lemma parse_sprintf_d: "0 \<le> n \<Longrightarrow> n \<le> INT_MAX \<Longrightarrow> parse_int (sprintf_d n) = Inr n"
  using parse_dec_digits [of "nat n"] by (simp add: parse_int_def sprintf_d_def)

lemma is_integer_sprintf_d: "is_integer (sprintf_d n) \<longleftrightarrow> 0 \<le> n"
  using dec_digits_isdigit by (auto simp: sprintf_d_def is_integer_iff isdigit_def)

subsection \<open>The memory counter\<close>

text \<open>The bytes of the live blocks, headers included, and how far the counter is off.\<close>

definition mem_total :: "t_mem \<Rightarrow> u64" where
  "mem_total st = (\<Sum>p \<in> dom (blocks st). the (blocks st p) + 8)"

definition mem_drift :: "t_mem \<Rightarrow> u64" where
  "mem_drift st = memory st - mem_total st"

lemma sum_blocks_upd:
  assumes "finite (dom bs)" and "bs p = None"
  shows "(\<Sum>q \<in> dom (bs(p \<mapsto> (v :: u64))). the ((bs(p \<mapsto> v)) q) + 8) = (\<Sum>q \<in> dom bs. the (bs q) + 8) + (v + 8)"
proof -
  have "(\<Sum>q \<in> dom bs. the ((bs(p \<mapsto> v)) q) + 8) = (\<Sum>q \<in> dom bs. the (bs q) + 8)"
    using assms(2) by (intro sum.cong) auto
  then show ?thesis using assms by (simp add: domIff)
qed

lemma sum_blocks_del:
  assumes "finite (dom bs)" and "bs p = Some (v :: u64)"
  shows "(\<Sum>q \<in> dom (bs(p := None)). the ((bs(p := None)) q) + 8) = (\<Sum>q \<in> dom bs. the (bs q) + 8) - (v + 8)"
proof -
  have eq: "(bs(p := None))(p \<mapsto> v) = bs" using assms(2) by auto
  have "finite (dom (bs(p := None)))" using assms(1) by simp
  from sum_blocks_upd [OF this, of p v, unfolded eq] show ?thesis by (simp add: eq_diff_eq)
qed

subsection \<open>Properties\<close>

text \<open>
  Integer strings: adding to the decimal string of a non-negative int gives the decimal string
  of the sum when the sum is an int, and overflows otherwise; the local buffer always has room.
  The result is an integer string again exactly when the sum is not negative.
\<close>

theorem update_integer_string_correct:
  assumes "0 \<le> n" and "n \<le> INT_MAX"
  shows "update_integer_string (sprintf_d n) num =
           (if INT_MIN \<le> n + num \<and> n + num \<le> INT_MAX then Inr (sprintf_d (n + num))
            else Inl SignedOverflow) \<and>
         (is_integer (sprintf_d (n + num)) \<longleftrightarrow> 0 \<le> n + num)"
  using assms by (simp add: update_integer_string_eq parse_sprintf_d c_int_def is_integer_sprintf_d)

theorem update_integer_string_correct_witness:
  "update_integer_string (lit ''99'') 1 = Inr (lit ''100'') \<and> is_integer (lit ''100'')"
proof -
  have eq: "sprintf_d 99 = lit ''99''" "sprintf_d 100 = lit ''100''"
    by (simp_all add: sprintf_d_def lit_def dec_digits.simps)
  show ?thesis
    using update_integer_string_correct [of 99 1] by (simp add: eq INT_MAX_def INT_MIN_def)
qed

text \<open>
  The memory counter: \<^verbatim>\<open>tmalloc\<close> of a new block and \<^verbatim>\<open>tfree\<close> of a live one keep the difference
  between the counter and the bytes in use; every \<^verbatim>\<open>trealloc\<close> that changes a size makes the
  counter 8 too large, and a \<^verbatim>\<open>tcalloc\<close> counts all but one of its elements for ever.
\<close>

theorem memory_counter_drift:
  assumes "finite (dom (blocks st))" and "blocks st p = None" and "blocks st q = Some s"
    and "0 < sz" and "sz \<noteq> s" and "0 < len"
  shows "(\<exists>st'. tmalloc st (Some p) sz = Inr (st', Some p) \<and> mem_drift st' = mem_drift st) \<and>
         (\<exists>st'. tfree st (Some q) = Inr st' \<and> mem_drift st' = mem_drift st) \<and>
         (\<exists>st'. trealloc st (Some q) (Some p) sz = Inr (st', Some p) \<and> mem_drift st' = mem_drift st + 8) \<and>
         (\<exists>st'. tcalloc st (Some p) len sz = Inr (st', Some p) \<and>
            mem_drift st' = mem_drift st + (len - 1) * (sz + 8))"
proof -
  let ?bs = "(blocks st)(q := None)"
  have "p \<noteq> q" using assms(2,3) by auto
  then have bs: "finite (dom ?bs)" "?bs p = None" using assms(1,2) by auto
  note upd = sum_blocks_upd [OF assms(1,2), of sz] and del = sum_blocks_del [OF assms(1,3)]
    and upd2 = sum_blocks_upd [OF bs, of sz]
  have "sz \<noteq> 0" "len \<noteq> 0" using assms(4,6) by auto
  then show ?thesis
    using assms(2,3,5) upd del upd2
    by (auto simp: tmalloc_def tfree_def trealloc_def tcalloc_def mem_drift_def mem_total_def
        obj_read_Some obj_free_Some algebra_simps simp del: fun_upd_apply dom_fun_upd)
qed

theorem memory_counter_drift_witness:
  "\<exists>st'. trealloc \<lparr> memory = 24, blocks = [1 \<mapsto> 16] \<rparr> (Some 1) (Some 2) 32 = Inr (st', Some 2) \<and>
     mem_drift st' = 8"
proof -
  let ?st = "\<lparr> memory = 24, blocks = [1 \<mapsto> 16] \<rparr>"
  have "mem_drift ?st = 0" by (simp add: mem_drift_def mem_total_def)
  then show ?thesis using memory_counter_drift [of ?st 2 1 16 32 1] by simp
qed

end
