(* ===== verification/Tdb_Db.thy ===== *)
theory Tdb_Db
  imports Tdb_Trie Tdb_Util
begin

text \<open>
  The database layer of \<^verbatim>\<open>src/db.c\<close>, with the trie destructor the server installs
  (\<^verbatim>\<open>trie_node_destructor\<close> of \<^verbatim>\<open>src/server.c\<close>). The items are objects of a heap, because the vector of
  expiring keys of the server points to them, too; the value of an item is owned by it and is a
  C string. What \<^verbatim>\<open>time(NULL)\<close> returns is an argument of each operation that calls it, and so is
  the address \<^verbatim>\<open>tmalloc\<close> returns for a new item.
\<close>

record db_item =
  di_ttl :: int
  di_data :: "cstring option"
  di_ctime :: int
  di_lstime :: int

record database =
  db_name :: cstring
  db_data :: "db_item Trie"

text \<open>The \<^verbatim>\<open>short\<close> a wider integer is converted to when it is passed as a TTL.\<close>

definition c_short :: "int \<Rightarrow> int" where
  "c_short n = signed_take_bit 15 n"

definition trie_node_destructor :: "db_item trie_destructor" where
  "trie_node_destructor node dataonly h =
     (case tn_data node of
        None \<Rightarrow> Inr (False, node, h)
      | Some a \<Rightarrow>
          bindE (obj_read h a) (\<lambda>item.
          bindE (obj_free (h(a \<mapsto> item\<lparr> di_data := None \<rparr>)) a) (\<lambda>h'.
            Inr (True, TNode (tn_chr node) (tn_children node) None, h'))))"

definition database_init :: "cstring \<Rightarrow> db_item trie_destructor option \<Rightarrow> database" where
  "database_init name destructor = \<lparr> db_name = name, db_data = trie_new destructor \<rparr>"

definition database_size :: "database \<Rightarrow> u64" where
  "database_size db = t_size (db_data db)"

definition database_insert ::
    "database \<Rightarrow> cstring \<Rightarrow> cstring option \<Rightarrow> int \<Rightarrow> int \<Rightarrow> addr \<Rightarrow> db_item heap \<Rightarrow> (database \<times> db_item heap) cres"
where
  "database_insert db key data ttl now a h =
     (let item = \<lparr> di_ttl = ttl, di_data = data, di_ctime = now, di_lstime = now \<rparr>
      in bindE (trie_insert (db_data db) key (Some a)) (\<lambda>trie'.
           Inr (db\<lparr> db_data := trie' \<rparr>, h(a \<mapsto> item))))"

text \<open>\<^verbatim>\<open>database_search\<close>: the item found, \<open>None\<close> where the C function returns false.\<close>

definition database_search :: "database \<Rightarrow> cstring \<Rightarrow> int \<Rightarrow> db_item heap \<Rightarrow> addr option cres" where
  "database_search db key now h =
     bindE (trie_find (db_data db) key) (\<lambda>found.
       case found of
         None \<Rightarrow> Inr None
       | Some a \<Rightarrow>
           bindE (obj_read h a) (\<lambda>item.
             if di_ttl item > -1 \<and> di_ttl item \<le> now - di_ctime item then Inr None else Inr (Some a)))"

definition database_remove ::
    "database \<Rightarrow> cstring \<Rightarrow> db_item heap \<Rightarrow> (bool \<times> database \<times> db_item heap) cres" where
  "database_remove db key h =
     bindE (trie_delete (db_data db) key h) (\<lambda>(ret, trie', h'). Inr (ret, db\<lparr> db_data := trie' \<rparr>, h'))"

definition database_prefix_remove ::
    "database \<Rightarrow> cstring \<Rightarrow> db_item heap \<Rightarrow> (database \<times> db_item heap) cres" where
  "database_prefix_remove db prefix h =
     bindE (trie_prefix_delete (db_data db) prefix h) (\<lambda>(trie', h'). Inr (db\<lparr> db_data := trie' \<rparr>, h'))"

definition database_prefix_count :: "database \<Rightarrow> cstring \<Rightarrow> u32 cres" where
  "database_prefix_count db prefix = trie_prefix_count (db_data db) prefix"

definition database_prefix_keys :: "database \<Rightarrow> cstring \<Rightarrow> kv_obj Vector option cres" where
  "database_prefix_keys db prefix = trie_prefix_find (db_data db) prefix"

definition database_prefix_search :: "database \<Rightarrow> cstring \<Rightarrow> kv_obj Vector option cres" where
  "database_prefix_search db prefix = trie_prefix_find (db_data db) prefix"

text \<open>
  The walks that change the items below a node. \<open>clk a\<close> is the time read when the item at \<open>a\<close> is
  written. Each walk handles one item by an operation on the heap.
\<close>

definition item_integer_mod ::
    "bool \<Rightarrow> (addr \<Rightarrow> int) \<Rightarrow> db_item heap \<Rightarrow> addr \<Rightarrow> db_item heap cres" where
  "item_integer_mod inc clk h a =
     bindE (obj_read h a) (\<lambda>item.
       case di_data item of
         None \<Rightarrow> Inr h
       | Some data \<Rightarrow>
           if is_integer data then
             bindE (parse_int data) (\<lambda>n.
             bindE (c_int (if inc then n + 1 else n - 1)) (\<lambda>n'.
               let tmp = sprintf_d n'
               in if length tmp + 1 \<le> 12
                  then obj_write h a (item\<lparr> di_data := Some tmp, di_lstime := clk a \<rparr>)
                  else Inl OutOfBounds))
           else Inr h)"

primrec trie_node_integer_mod ::
    "trie_node \<Rightarrow> int \<Rightarrow> bool \<Rightarrow> (addr \<Rightarrow> int) \<Rightarrow> db_item heap \<Rightarrow> db_item heap cres"
  and bst_node_integer_mod ::
    "trie_node bst_node \<Rightarrow> int \<Rightarrow> bool \<Rightarrow> (addr \<Rightarrow> int) \<Rightarrow> db_item heap \<Rightarrow> db_item heap cres"
where
  "trie_node_integer_mod (TNode c ch d) val inc clk h =
     (if trie_is_free_node (TNode c ch d) \<and> d = None then Inr h
      else bindE (case d of None \<Rightarrow> Inr h | Some a \<Rightarrow> item_integer_mod inc clk h a) (\<lambda>h1.
             bst_node_integer_mod ch val inc clk h1))"
| "bst_node_integer_mod BNull val inc clk h = Inr h"
| "bst_node_integer_mod (BNode k hh l r n) val inc clk h =
     bindE (bst_node_integer_mod l val inc clk h) (\<lambda>h1.
     bindE (bst_node_integer_mod r val inc clk h1) (\<lambda>h2.
       trie_node_integer_mod n val inc clk h2))"

text \<open>The node a prefix leads to, if any; the root may have been released.\<close>

definition prefix_node :: "database \<Rightarrow> cstring \<Rightarrow> trie_node option cres" where
  "prefix_node db prefix =
     (case t_root (db_data db) of None \<Rightarrow> Inl UseAfterFree | Some root \<Rightarrow> Inr (trie_node_find root prefix))"

definition database_prefix_inc ::
    "database \<Rightarrow> cstring \<Rightarrow> (addr \<Rightarrow> int) \<Rightarrow> db_item heap \<Rightarrow> db_item heap cres" where
  "database_prefix_inc db prefix clk h =
     bindE (prefix_node db prefix) (\<lambda>node.
       case node of None \<Rightarrow> Inr h | Some n \<Rightarrow> trie_node_integer_mod n 1 True clk h)"

definition database_prefix_dec ::
    "database \<Rightarrow> cstring \<Rightarrow> (addr \<Rightarrow> int) \<Rightarrow> db_item heap \<Rightarrow> db_item heap cres" where
  "database_prefix_dec db prefix clk h =
     bindE (prefix_node db prefix) (\<lambda>node.
       case node of None \<Rightarrow> Inr h | Some n \<Rightarrow> trie_node_integer_mod n 1 False clk h)"

definition item_set ::
    "cstring \<Rightarrow> int \<Rightarrow> (addr \<Rightarrow> int) \<Rightarrow> db_item heap \<Rightarrow> addr \<Rightarrow> db_item heap cres" where
  "item_set val ttl clk h a =
     bindE (obj_read h a) (\<lambda>item.
       obj_write h a (item\<lparr> di_data := Some val, di_ttl := ttl, di_lstime := clk a \<rparr>))"

primrec trie_node_prefix_set ::
    "trie_node \<Rightarrow> cstring \<Rightarrow> int \<Rightarrow> (addr \<Rightarrow> int) \<Rightarrow> db_item heap \<Rightarrow> db_item heap cres"
  and bst_node_prefix_set ::
    "trie_node bst_node \<Rightarrow> cstring \<Rightarrow> int \<Rightarrow> (addr \<Rightarrow> int) \<Rightarrow> db_item heap \<Rightarrow> db_item heap cres"
where
  "trie_node_prefix_set (TNode c ch d) val ttl clk h =
     bindE (bst_node_prefix_set ch val ttl clk h) (\<lambda>h1.
       case d of None \<Rightarrow> Inr h1 | Some a \<Rightarrow> item_set val ttl clk h1 a)"
| "bst_node_prefix_set BNull val ttl clk h = Inr h"
| "bst_node_prefix_set (BNode k hh l r n) val ttl clk h =
     bindE (bst_node_prefix_set l val ttl clk h) (\<lambda>h1.
     bindE (bst_node_prefix_set r val ttl clk h1) (\<lambda>h2.
       trie_node_prefix_set n val ttl clk h2))"

definition database_prefix_set ::
    "database \<Rightarrow> cstring \<Rightarrow> cstring \<Rightarrow> int \<Rightarrow> (addr \<Rightarrow> int) \<Rightarrow> db_item heap \<Rightarrow> db_item heap cres" where
  "database_prefix_set db prefix val ttl clk h =
     bindE (prefix_node db prefix) (\<lambda>node.
       case node of None \<Rightarrow> Inr h | Some n \<Rightarrow> trie_node_prefix_set n val ttl clk h)"

definition item_ttl :: "int \<Rightarrow> (addr \<Rightarrow> int) \<Rightarrow> db_item heap \<Rightarrow> addr \<Rightarrow> db_item heap cres" where
  "item_ttl ttl clk h a =
     bindE (obj_read h a) (\<lambda>item.
       if di_data item \<noteq> None
       then obj_write h a (item\<lparr> di_ttl := ttl, di_lstime := clk a \<rparr>) else Inr h)"

primrec trie_node_prefix_ttl ::
    "trie_node \<Rightarrow> int \<Rightarrow> (addr \<Rightarrow> int) \<Rightarrow> db_item heap \<Rightarrow> db_item heap cres"
  and bst_node_prefix_ttl ::
    "trie_node bst_node \<Rightarrow> int \<Rightarrow> (addr \<Rightarrow> int) \<Rightarrow> db_item heap \<Rightarrow> db_item heap cres"
where
  "trie_node_prefix_ttl (TNode c ch d) ttl clk h =
     bindE (bst_node_prefix_ttl ch ttl clk h) (\<lambda>h1.
       case d of None \<Rightarrow> Inr h1 | Some a \<Rightarrow> item_ttl ttl clk h1 a)"
| "bst_node_prefix_ttl BNull ttl clk h = Inr h"
| "bst_node_prefix_ttl (BNode k hh l r n) ttl clk h =
     bindE (bst_node_prefix_ttl l ttl clk h) (\<lambda>h1.
     bindE (bst_node_prefix_ttl r ttl clk h1) (\<lambda>h2.
       trie_node_prefix_ttl n ttl clk h2))"

definition database_prefix_ttl ::
    "database \<Rightarrow> cstring \<Rightarrow> int \<Rightarrow> (addr \<Rightarrow> int) \<Rightarrow> db_item heap \<Rightarrow> db_item heap cres" where
  "database_prefix_ttl db prefix ttl clk h =
     bindE (prefix_node db prefix) (\<lambda>node.
       case node of None \<Rightarrow> Inr h | Some n \<Rightarrow> trie_node_prefix_ttl n ttl clk h)"

text \<open>\<^verbatim>\<open>database_flush\<close> releases the root of the trie and keeps the pointer to it.\<close>

definition database_flush :: "database \<Rightarrow> db_item heap \<Rightarrow> (database \<times> db_item heap) cres" where
  "database_flush db h =
     (case t_root (db_data db) of
        None \<Rightarrow> Inl UseAfterFree
      | Some root \<Rightarrow>
          bindE (trie_node_destroy root (t_destructor (db_data db)) h (t_size (db_data db))) (\<lambda>(h', sz').
            Inr (db\<lparr> db_data := (db_data db)\<lparr> t_root := None, t_size := sz' \<rparr> \<rparr>, h')))"


subsection \<open>The key-value map a database holds\<close>

interpretation item_destructor: data_destructor trie_node_destructor
  by unfold_locales (auto simp: trie_node_destructor_def obj_read_def obj_free_def)

definition db_ok :: "database \<Rightarrow> db_item heap \<Rightarrow> bool" where
  "db_ok db h \<longleftrightarrow> trie_ok (Some trie_node_destructor) (db_data db) h"

definition db_view :: "database \<Rightarrow> db_item heap \<Rightarrow> cstring \<Rightarrow> db_item option" where
  "db_view db h key = (case trie_map (db_data db) key of None \<Rightarrow> None | Some a \<Rightarrow> h a)"

lemma item_destructor_ok [simp]: "dtor_ok (Some trie_node_destructor)"
  by (simp add: dtor_ok_Some item_destructor.data_destructor_axioms)

lemma db_okD:
  assumes "db_ok db h"
  shows "trie_ok (Some trie_node_destructor) (db_data db) h" "trie_inv (db_data db)"
    "trie_owns (db_data db) h" "dtor_ok (t_destructor (db_data db))"
  using assms by (auto simp: db_ok_def trie_ok_def)

lemma db_ok_alive: "db_ok db h \<Longrightarrow> trie_map (db_data db) key = Some a \<Longrightarrow> \<exists>item. h a = Some item"
  by (fastforce simp: db_ok_def trie_ok_def trie_owns_def ran_def dom_def)

lemma db_ok_inj:
  assumes "db_ok db h" "trie_map (db_data db) k = Some a" "trie_map (db_data db) k' = Some a"
  shows "k = k'"
proof -
  have "inj_on (trie_map (db_data db)) (dom (trie_map (db_data db)))"
    using assms(1) by (simp add: db_ok_def trie_ok_def trie_owns_def)
  from inj_onD [OF this, of k k'] assms(2,3) show ?thesis by auto
qed

text \<open>The data of a database stays in place when only the contents of its items change.\<close>

lemma db_ok_heap: "db_ok db h \<Longrightarrow> dom h' = dom h \<Longrightarrow> db_ok db h'"
  by (simp add: db_ok_def trie_ok_def trie_owns_def)

lemma database_init_ok: "db_ok (database_init name (Some trie_node_destructor)) Map.empty"
  by (simp add: database_init_def db_ok_def trie_new_run_ok)

lemma database_insert_ok:
  assumes "db_ok db h" and "0 \<notin> set key" and "h a = None"
  shows "\<exists>db'. database_insert db key data ttl now a h =
             Inr (db', h(a \<mapsto> \<lparr> di_ttl = ttl, di_data = data, di_ctime = now, di_lstime = now \<rparr>)) \<and>
           db_ok db' (h(a \<mapsto> \<lparr> di_ttl = ttl, di_data = data, di_ctime = now, di_lstime = now \<rparr>)) \<and>
           trie_map (db_data db') = (trie_map (db_data db))(key \<mapsto> a) \<and>
           db_view db' (h(a \<mapsto> \<lparr> di_ttl = ttl, di_data = data, di_ctime = now, di_lstime = now \<rparr>)) =
             (db_view db h)(key \<mapsto> \<lparr> di_ttl = ttl, di_data = data, di_ctime = now, di_lstime = now \<rparr>)"
proof -
  let ?item = "\<lparr> di_ttl = ttl, di_data = data, di_ctime = now, di_lstime = now \<rparr>"
  from trie_ok_insert [OF db_okD(1) [OF assms(1)] assms(2,3), of ?item] obtain t' where t':
    "trie_insert (db_data db) key (Some a) = Inr t'"
    "trie_ok (Some trie_node_destructor) t' (h(a \<mapsto> ?item))"
    "trie_map t' = (trie_map (db_data db))(key \<mapsto> a)" by blast
  have "trie_map (db_data db) k \<noteq> Some a" for k
    using db_ok_alive [OF assms(1), of k a] assms(3) by auto
  then have "db_view (db\<lparr> db_data := t' \<rparr>) (h(a \<mapsto> ?item)) = (db_view db h)(key \<mapsto> ?item)"
    by (auto simp: db_view_def t'(3) fun_eq_iff split: option.splits)
  then show ?thesis
    using t' by (intro exI [of _ "db\<lparr> db_data := t' \<rparr>"]) (simp add: database_insert_def db_ok_def)
qed

lemma database_search_eq:
  assumes "db_ok db h"
  shows "database_search db key now h =
           Inr (case db_view db h key of None \<Rightarrow> None
                | Some item \<Rightarrow> if di_ttl item > -1 \<and> di_ttl item \<le> now - di_ctime item then None
                    else trie_map (db_data db) key)"
  using db_okD(2) [OF assms] db_ok_alive [OF assms, of key]
  by (auto simp: database_search_def trie_find_map db_view_def obj_read_def split: option.splits)

lemma database_remove_ok:
  assumes "db_ok db h"
  shows "\<exists>b db' h'. database_remove db key h = Inr (b, db', h') \<and> db_ok db' h' \<and> dom h' \<subseteq> dom h \<and>
           db_view db' h' = (if key = [] then db_view db h else (db_view db h)(key := None))"
proof (cases "key = [] \<or> trie_map (db_data db) key = None")
  case True
  obtain root where root: "t_root (db_data db) = Some root"
    using db_okD(2) [OF assms] by (blast elim: trie_invE)
  have "(db_view db h)(key := None) = db_view db h" if "trie_map (db_data db) key = None"
    using that by (auto simp: db_view_def)
  moreover from trie_delete_missing [OF db_okD(2,4) [OF assms], of key h]
  have "key \<noteq> [] \<Longrightarrow> \<exists>b t'. trie_delete (db_data db) key h = Inr (b, t', h) \<and>
      trie_map t' = trie_map (db_data db) \<and> trie_ok (Some trie_node_destructor) t' h"
    using True assms by (auto simp: db_ok_def trie_ok_def trie_owns_def)
  ultimately show ?thesis
    using True root assms
    by (cases "key = []") (auto simp: database_remove_def trie_delete_def db_ok_def db_view_def fun_eq_iff)
next
  case False
  then obtain a where key: "key \<noteq> []" "trie_map (db_data db) key = Some a" by auto
  then have alive: "h a \<noteq> None" using db_ok_alive [OF assms] by auto
  obtain t' where t': "trie_delete (db_data db) key h = Inr (True, t', h(a := None))"
      "trie_map t' = (trie_map (db_data db))(key := None)"
    using trie_delete_found [of "db_data db" key a h] db_okD [OF assms] key alive by blast
  have "trie_ok (Some trie_node_destructor) t' (h(a := None))"
    using trie_ok_delete [OF db_okD(1) [OF assms], of key] t'(1) by auto
  moreover have "trie_map (db_data db) k = Some a \<Longrightarrow> k = key" for k
    using key(2) db_ok_inj [OF assms] by blast
  then have "db_view (db\<lparr> db_data := t' \<rparr>) (h(a := None)) = (db_view db h)(key := None)"
    by (intro ext) (auto simp: db_view_def t'(2) split: option.splits)
  moreover have "dom (h(a := None)) \<subseteq> dom h" by auto
  ultimately show ?thesis
    using t'(1) key(1) by (auto simp: database_remove_def db_ok_def simp del: dom_fun_upd)
qed


subsection \<open>Walks over the items below a node\<close>

text \<open>The addresses in the order of the walks: the items of a node before or after those below.\<close>

primrec items_pre :: "trie_node \<Rightarrow> addr list" and bst_items_pre :: "trie_node bst_node \<Rightarrow> addr list" where
  "items_pre (TNode c ch d) = (case d of None \<Rightarrow> [] | Some a \<Rightarrow> [a]) @ bst_items_pre ch"
| "bst_items_pre BNull = []"
| "bst_items_pre (BNode k h l r n) = bst_items_pre l @ bst_items_pre r @ items_pre n"

primrec items_post :: "trie_node \<Rightarrow> addr list" and bst_items_post :: "trie_node bst_node \<Rightarrow> addr list" where
  "items_post (TNode c ch d) = bst_items_post ch @ (case d of None \<Rightarrow> [] | Some a \<Rightarrow> [a])"
| "bst_items_post BNull = []"
| "bst_items_post (BNode k h l r n) = bst_items_post l @ bst_items_post r @ items_post n"

lemma mset_items:
  "mset (items_pre n) = mset (map snd (trie_entries n)) \<and> mset (items_post n) = mset (map snd (trie_entries n))"
  "mset (bst_items_pre ch) = mset (map snd (children_entries ch)) \<and>
   mset (bst_items_post ch) = mset (map snd (children_entries ch))"
  by (induction n and ch rule: trie_induct) (auto split: option.split)

lemma trie_node_integer_mod_fold:
  "trie_node_integer_mod n val inc clk h = foldE (item_integer_mod inc clk) h (items_pre n)"
  "bst_node_integer_mod ch val inc clk h = foldE (item_integer_mod inc clk) h (bst_items_pre ch)"
  by (induction n and ch arbitrary: h and h rule: trie_induct)
    (auto simp: foldE_append trie_is_free_node_def bindE_assoc split: option.split intro!: bindE_cong)

lemma trie_node_prefix_set_fold:
  "trie_node_prefix_set n val ttl clk h = foldE (item_set val ttl clk) h (items_post n)"
  "bst_node_prefix_set ch val ttl clk h = foldE (item_set val ttl clk) h (bst_items_post ch)"
  by (induction n and ch arbitrary: h and h rule: trie_induct)
    (auto simp: foldE_append bindE_assoc split: option.split)

lemma trie_node_prefix_ttl_fold:
  "trie_node_prefix_ttl n ttl clk h = foldE (item_ttl ttl clk) h (items_post n)"
  "bst_node_prefix_ttl ch ttl clk h = foldE (item_ttl ttl clk) h (bst_items_post ch)"
  by (induction n and ch arbitrary: h and h rule: trie_induct)
    (auto simp: foldE_append bindE_assoc split: option.split)

text \<open>A walk that rewrites one object at a time rewrites each object of a duplicate-free list.\<close>

lemma foldE_objects:
  assumes "distinct as" and "\<forall>a \<in> set as. \<exists>v. h a = Some v"
    and "\<And>h' a v. a \<in> set as \<Longrightarrow> h a = Some v \<Longrightarrow> h' a = Some v \<Longrightarrow> f h' a = Inr (h'(a \<mapsto> g a v))"
  shows "foldE f h as = Inr (\<lambda>a. if a \<in> set as then map_option (g a) (h a) else h a)"
  using assms
proof (induction as arbitrary: h)
  case (Cons a as)
  then obtain v where v: "h a = Some v" by auto
  let ?h = "h(a \<mapsto> g a v)"
  have "f h a = Inr ?h" by (rule Cons.prems(3)) (simp_all add: v)
  moreover have "foldE f ?h as = Inr (\<lambda>b. if b \<in> set as then map_option (g b) (?h b) else ?h b)"
  proof (rule Cons.IH)
    show "distinct as" using Cons.prems(1) by simp
    show "\<forall>b \<in> set as. \<exists>w. ?h b = Some w" using Cons.prems(2) by auto
    fix h' b w assume "b \<in> set as" "?h b = Some w" "h' b = Some w"
    moreover then have "b \<noteq> a" using Cons.prems(1) by auto
    ultimately show "f h' b = Inr (h'(b \<mapsto> g b w))" by (intro Cons.prems(3)) auto
  qed
  moreover have "(\<lambda>b. if b \<in> set as then map_option (g b) (?h b) else ?h b) =
      (\<lambda>b. if b \<in> set (a # as) then map_option (g b) (h b) else h b)"
    using Cons.prems(1) v by (auto simp: fun_eq_iff)
  ultimately show ?case by simp
qed simp

text \<open>The items below the node a prefix leads to are those of the keys with the prefix.\<close>

lemma prefix_items:
  assumes "db_ok db h" and "prefix_node db p = Inr (Some n)"
    and "mset as = mset (map snd (trie_entries n))"
  shows "distinct as" "set as = released_under (db_data db) p" "\<forall>a \<in> set as. \<exists>v. h a = Some v"
proof -
  obtain root where root: "t_root (db_data db) = Some root" "trie_node_inv root"
    "trie_map (db_data db) = trie_node_search root"
    using db_okD(2) [OF assms(1)] by (rule trie_invE)
  have n: "trie_node_find root p = Some n"
    using assms(2) root(1) by (simp add: prefix_node_def)
  have inv: "trie_node_inv n" using root(2) n by (rule trie_node_find_inv)
  have "inj_on (trie_node_search root) (dom (trie_node_search root))"
    using db_okD(3) [OF assms(1)] root(3) by (simp add: trie_owns_def)
  then have inj: "inj_on (trie_node_search n) (dom (trie_node_search n))"
    using n by (rule inj_on_subtree)
  have ms: "mset as = mset (trie_released n)" using assms(3) mset_trie_released(1) [of n] by simp
  show "distinct as" using trie_released_ok(1) [OF inv inj] ms mset_eq_imp_distinct_iff by blast
  have "set as = ran (trie_node_search n)"
    using trie_released_ok(2) [OF inv inj] mset_eq_setD [OF ms] by simp
  also have "\<dots> = released_under (db_data db) p"
    using n by (auto simp: ran_def released_under_def has_prefix_iff root(3) trie_node_search_append)
  finally show eq: "set as = released_under (db_data db) p" .
  show "\<forall>a \<in> set as. \<exists>v. h a = Some v"
    unfolding eq using db_ok_alive [OF assms(1)] by (auto simp: released_under_def)
qed


text \<open>The time a walk reads when it writes the item of a key.\<close>

definition key_clk :: "database \<Rightarrow> (addr \<Rightarrow> int) \<Rightarrow> cstring \<Rightarrow> int" where
  "key_clk db clk key = clk (the (trie_map (db_data db) key))"

lemma prefix_walk:
  assumes ok: "db_ok db h"
    and walk: "\<And>n h. walk n h = foldE f h (order n)"
    and order: "\<And>n. mset (order n) = mset (map snd (trie_entries n))"
    and step: "\<And>h' a v. a \<in> released_under (db_data db) p \<Longrightarrow> h a = Some v \<Longrightarrow> h' a = Some v \<Longrightarrow>
                 f h' a = Inr (h'(a \<mapsto> g (clk a) v))"
  shows "\<exists>h'. bindE (prefix_node db p) (\<lambda>node. case node of None \<Rightarrow> Inr h | Some n \<Rightarrow> walk n h) = Inr h' \<and>
           db_ok db h' \<and>
           (\<forall>k. db_view db h' k = (if has_prefix p k then map_option (g (key_clk db clk k)) (db_view db h k)
              else db_view db h k))"
proof -
  obtain root where root: "t_root (db_data db) = Some root" "trie_map (db_data db) = trie_node_search root"
    using db_okD(2) [OF ok] by (rule trie_invE)
  let ?h = "\<lambda>a. if a \<in> released_under (db_data db) p then map_option (g (clk a)) (h a) else h a"
  have "bindE (prefix_node db p) (\<lambda>node. case node of None \<Rightarrow> Inr h | Some n \<Rightarrow> walk n h) = Inr ?h"
  proof (cases "trie_node_find root p")
    case None
    then have "released_under (db_data db) p = {}"
      by (auto simp: released_under_def has_prefix_iff root(2) trie_node_search_append)
    then show ?thesis using None root(1) by (simp add: prefix_node_def)
  next
    case (Some n)
    then have n: "prefix_node db p = Inr (Some n)" using root(1) by (simp add: prefix_node_def)
    note items = prefix_items [OF ok n order]
    have "foldE f h (order n) = Inr (\<lambda>a. if a \<in> set (order n) then map_option (g (clk a)) (h a) else h a)"
      using items step by (intro foldE_objects) auto
    then show ?thesis using n items(2) walk by simp
  qed
  moreover have "db_ok db ?h" using ok by (rule db_ok_heap) (auto simp: dom_def)
  moreover have "a \<in> released_under (db_data db) p \<longleftrightarrow> has_prefix p k" if "trie_map (db_data db) k = Some a" for a k
    using that db_ok_inj [OF ok] by (auto simp: released_under_def)
  then have "db_view db ?h k = (if has_prefix p k then map_option (g (key_clk db clk k)) (db_view db h k)
      else db_view db h k)" for k
    by (auto simp: db_view_def key_clk_def split: option.splits)
  ultimately show ?thesis by (intro exI [of _ ?h]) simp
qed

text \<open>An item whose integer value has been moved by one, and the items that allow it.\<close>

definition bump :: "bool \<Rightarrow> int \<Rightarrow> db_item \<Rightarrow> db_item" where
  "bump inc now item =
     (case di_data item of
        None \<Rightarrow> item
      | Some s \<Rightarrow>
          if is_integer s then
            (case parse_int s of
               Inl e \<Rightarrow> item
             | Inr n \<Rightarrow> item\<lparr> di_data := Some (sprintf_d (if inc then n + 1 else n - 1)), di_lstime := now \<rparr>)
          else item)"

definition can_bump :: "bool \<Rightarrow> db_item \<Rightarrow> bool" where
  "can_bump inc item \<longleftrightarrow>
     (case di_data item of
        None \<Rightarrow> True
      | Some s \<Rightarrow> is_integer s \<longrightarrow>
          (case parse_int s of Inl e \<Rightarrow> False | Inr n \<Rightarrow> if inc then n < INT_MAX else INT_MIN < n))"

lemma parse_int_loop_range: "INT_MIN \<le> m \<Longrightarrow> m \<le> INT_MAX \<Longrightarrow> parse_int_loop m s = Inr n \<Longrightarrow> INT_MIN \<le> n \<and> n \<le> INT_MAX"
  by (induction m s rule: parse_int_loop.induct) (auto simp: c_int_def split: if_splits)

lemma parse_int_range: "parse_int s = Inr n \<Longrightarrow> INT_MIN \<le> n \<and> n \<le> INT_MAX"
  using parse_int_loop_range [of 0 s n] by (simp add: parse_int_def INT_MIN_def INT_MAX_def)

lemma length_sprintf_d: "INT_MIN \<le> n \<Longrightarrow> n \<le> INT_MAX \<Longrightarrow> length (sprintf_d n) + 1 \<le> 12"
proof -
  assume "INT_MIN \<le> n" "n \<le> INT_MAX"
  then have "length (dec_digits (nat \<bar>n\<bar>)) \<le> length (dec_digits 2147483648)"
    by (intro length_dec_digits_mono) (simp add: INT_MIN_def INT_MAX_def)
  also have "\<dots> = 10" by (simp add: dec_digits.simps)
  finally show ?thesis by (auto simp: sprintf_d_def split: if_splits)
qed

lemma item_integer_mod_step:
  assumes "h a = Some item" and "can_bump inc item"
  shows "item_integer_mod inc clk h a = Inr (h(a \<mapsto> bump inc (clk a) item))"
proof (cases "di_data item")
  case None
  then show ?thesis using assms by (simp add: item_integer_mod_def bump_def obj_read_Some map_upd_triv)
next
  case (Some s)
  show ?thesis
  proof (cases "is_integer s")
    case True
    with assms(2) Some obtain n where n: "parse_int s = Inr n" "if inc then n < INT_MAX else INT_MIN < n"
      by (auto simp: can_bump_def split: sum.splits)
    let ?n = "if inc then n + 1 else n - 1"
    have "INT_MIN \<le> ?n \<and> ?n \<le> INT_MAX" using n parse_int_range [OF n(1)] by auto
    then have "c_int ?n = Inr ?n" "length (sprintf_d ?n) + 1 \<le> 12"
      using length_sprintf_d [of ?n] by (simp_all add: c_int_def)
    then show ?thesis
      using assms(1) Some True n(1)
      by (simp add: item_integer_mod_def bump_def obj_read_Some obj_write_Some Let_def)
  next
    case False
    then show ?thesis using assms Some by (simp add: item_integer_mod_def bump_def obj_read_Some map_upd_triv)
  qed
qed

lemma released_under_view:
  "db_ok db h \<Longrightarrow> a \<in> released_under (db_data db) p \<Longrightarrow> h a = Some v \<Longrightarrow>
     \<exists>k. has_prefix p k \<and> db_view db h k = Some v"
  by (fastforce simp: released_under_def db_view_def)


subsection \<open>What the server relies on\<close>

text \<open>
  A store of items by key: insertion of an item at a fresh place and removal by key, seen through
  the map from keys to items. Any sequence of such commands ends in the map the commands describe.
\<close>

datatype 'i kv_cmd = KvPut addr cstring 'i | KvDel cstring

fun kv_spec :: "(cstring \<Rightarrow> 'i option) \<Rightarrow> 'i kv_cmd list \<Rightarrow> (cstring \<Rightarrow> 'i option)" where
  "kv_spec m [] = m"
| "kv_spec m (KvPut a k i # cs) = kv_spec (m(k \<mapsto> i)) cs"
| "kv_spec m (KvDel k # cs) = kv_spec (m(k := None)) cs"

fun kv_exec :: "(addr \<Rightarrow> cstring \<Rightarrow> 'i \<Rightarrow> 's \<Rightarrow> 's cres) \<Rightarrow> (cstring \<Rightarrow> 's \<Rightarrow> 's cres) \<Rightarrow> 's \<Rightarrow> 'i kv_cmd list \<Rightarrow> 's cres" where
  "kv_exec put del s [] = Inr s"
| "kv_exec put del s (KvPut a k i # cs) = bindE (put a k i s) (\<lambda>s'. kv_exec put del s' cs)"
| "kv_exec put del s (KvDel k # cs) = bindE (del k s) (\<lambda>s'. kv_exec put del s' cs)"

fun kv_places :: "'i kv_cmd list \<Rightarrow> addr list" where
  "kv_places [] = []"
| "kv_places (KvPut a k i # cs) = a # kv_places cs"
| "kv_places (KvDel k # cs) = kv_places cs"

fun kv_keys_ok :: "'i kv_cmd list \<Rightarrow> bool" where
  "kv_keys_ok [] = True"
| "kv_keys_ok (KvPut a k i # cs) = (0 \<notin> set k \<and> kv_keys_ok cs)"
| "kv_keys_ok (KvDel k # cs) = (k \<noteq> [] \<and> kv_keys_ok cs)"

locale kv_store =
  fixes ok :: "'s \<Rightarrow> bool"
    and view :: "'s \<Rightarrow> cstring \<Rightarrow> 'i option"
    and used :: "'s \<Rightarrow> addr set"
    and put :: "addr \<Rightarrow> cstring \<Rightarrow> 'i \<Rightarrow> 's \<Rightarrow> 's cres"
    and del :: "cstring \<Rightarrow> 's \<Rightarrow> 's cres"
  assumes put_ok: "ok s \<Longrightarrow> a \<notin> used s \<Longrightarrow> 0 \<notin> set k \<Longrightarrow>
      \<exists>s'. put a k i s = Inr s' \<and> ok s' \<and> used s' \<subseteq> insert a (used s) \<and> view s' = (view s)(k \<mapsto> i)"
    and del_ok: "ok s \<Longrightarrow> k \<noteq> [] \<Longrightarrow>
      \<exists>s'. del k s = Inr s' \<and> ok s' \<and> used s' \<subseteq> used s \<and> view s' = (view s)(k := None)"
begin

lemma exec_refines:
  assumes "ok s" and "kv_keys_ok cs" and "distinct (kv_places cs)" and "set (kv_places cs) \<inter> used s = {}"
  shows "\<exists>s'. kv_exec put del s cs = Inr s' \<and> ok s' \<and> view s' = kv_spec (view s) cs"
  using assms
proof (induction cs arbitrary: s rule: kv_keys_ok.induct)
  case (2 a k i cs)
  with put_ok [of s a k i] obtain s' where s': "put a k i s = Inr s'" "ok s'"
    "used s' \<subseteq> insert a (used s)" "view s' = (view s)(k \<mapsto> i)" by auto
  have "set (kv_places cs) \<inter> used s' = {}" using 2(4,5) s'(3) by auto
  from 2(1) [OF s'(2) _ _ this, unfolded s'(4)] 2(3,4) s'(1) show ?case by (simp add: fun_upd_def)
next
  case (3 k cs)
  with del_ok [of s k] obtain s' where s': "del k s = Inr s'" "ok s'" "used s' \<subseteq> used s"
    "view s' = (view s)(k := None)" by auto
  then have "set (kv_places cs) \<inter> used s' = {}" using 3(5) by auto
  from 3(1) [OF s'(2) _ _ this, unfolded s'(4)] 3(3,4) s'(1) show ?case by (simp add: fun_upd_def)
qed simp

end

text \<open>The database and its items as such a store.\<close>

type_synonym db_state = "database \<times> db_item heap"

definition db_put :: "addr \<Rightarrow> cstring \<Rightarrow> cstring option \<times> int \<times> int \<Rightarrow> db_state \<Rightarrow> db_state cres" where
  "db_put a key i s = (case i of (data, ttl, now) \<Rightarrow> database_insert (fst s) key data ttl now a (snd s))"

definition db_del :: "cstring \<Rightarrow> db_state \<Rightarrow> db_state cres" where
  "db_del key s = bindE (database_remove (fst s) key (snd s)) (\<lambda>(b, db', h'). Inr (db', h'))"

definition db_entry :: "db_state \<Rightarrow> cstring \<Rightarrow> (cstring option \<times> int \<times> int) option" where
  "db_entry s key = map_option (\<lambda>i. (di_data i, di_ttl i, di_ctime i)) (db_view (fst s) (snd s) key)"

interpretation db_store: kv_store "\<lambda>s. db_ok (fst s) (snd s)" db_entry "\<lambda>s. dom (snd s)" db_put db_del
proof unfold_locales
  fix s :: db_state and a and k :: cstring and i :: "cstring option \<times> int \<times> int"
  assume s: "db_ok (fst s) (snd s)" and a: "a \<notin> dom (snd s)" and k: "0 \<notin> set k"
  obtain data ttl now where i: "i = (data, ttl, now)" by (cases i) auto
  show "\<exists>s'. db_put a k i s = Inr s' \<and> db_ok (fst s') (snd s') \<and> dom (snd s') \<subseteq> insert a (dom (snd s)) \<and>
      db_entry s' = (db_entry s)(k \<mapsto> i)"
    using database_insert_ok [OF s k, of a data ttl now] a i
    by (fastforce simp: db_put_def db_entry_def fun_eq_iff)
next
  fix s :: db_state and k :: cstring
  assume s: "db_ok (fst s) (snd s)" and k: "k \<noteq> []"
  show "\<exists>s'. db_del k s = Inr s' \<and> db_ok (fst s') (snd s') \<and> dom (snd s') \<subseteq> dom (snd s) \<and>
      db_entry s' = (db_entry s)(k := None)"
    using database_remove_ok [OF s, of k] k
    by (fastforce simp: db_del_def db_entry_def fun_eq_iff)
qed


subsection \<open>Properties\<close>

lemma db_entry_empty: "db_entry (database_init name dt, h) = Map.empty"
  by (auto simp: db_entry_def db_view_def database_init_def trie_new_ok)

lemma database_search_live:
  assumes "db_ok db h"
  shows "(\<exists>a. database_search db key now h = Inr (Some a)) \<longleftrightarrow>
           (\<exists>data ttl ct. db_entry (db, h) key = Some (data, ttl, ct) \<and> \<not> (-1 < ttl \<and> ttl \<le> now - ct))"
proof -
  have "db_view db h key = Some item \<Longrightarrow> trie_map (db_data db) key \<noteq> None" for item
    by (auto simp: db_view_def split: option.splits)
  then show ?thesis
    using database_search_eq [OF assms, of key now]
    by (cases "db_view db h key") (auto simp: db_entry_def)
qed

text \<open>
  C17. The database implements a map: after any sequence of \<^verbatim>\<open>database_insert\<close> at fresh addresses
  with NUL-free keys and \<^verbatim>\<open>database_remove\<close> of non-empty keys, started on a new database, no
  operation has faulted and the database holds exactly the entries the sequence describes. A
  search finds a key exactly when it has an entry whose TTL is negative or has not run out.
\<close>

theorem database_refines_map:
  assumes "kv_keys_ok cs" and "distinct (kv_places cs)"
  shows "\<exists>db h. kv_exec db_put db_del (database_init name (Some trie_node_destructor), Map.empty) cs = Inr (db, h) \<and>
           db_entry (db, h) = kv_spec Map.empty cs \<and>
           (\<forall>key now. (\<exists>a. database_search db key now h = Inr (Some a)) \<longleftrightarrow>
              (\<exists>data ttl ct. kv_spec Map.empty cs key = Some (data, ttl, ct) \<and> \<not> (-1 < ttl \<and> ttl \<le> now - ct)))"
proof -
  let ?s = "(database_init name (Some trie_node_destructor), Map.empty :: db_item heap)"
  obtain s where s: "kv_exec db_put db_del ?s cs = Inr s" "db_ok (fst s) (snd s)"
    "db_entry s = kv_spec (db_entry ?s) cs"
    using db_store.exec_refines [of ?s cs] assms database_init_ok by auto
  obtain db h where "s = (db, h)" by (cases s)
  with s database_search_live [of db h] show ?thesis by (simp add: db_entry_empty)
qed

theorem database_refines_map_witness:
  "\<exists>db h. kv_exec db_put db_del (database_init (lit ''db0'') (Some trie_node_destructor), Map.empty)
       [KvPut 1 (lit ''k'') (Some (lit ''v''), 10, 100), KvPut 2 (lit ''l'') (None, -1, 0), KvDel (lit ''l'')] =
       Inr (db, h) \<and>
     (\<exists>a. database_search db (lit ''k'') 109 h = Inr (Some a)) \<and>
     \<not> (\<exists>a. database_search db (lit ''k'') 110 h = Inr (Some a)) \<and>
     \<not> (\<exists>a. database_search db (lit ''l'') 0 h = Inr (Some a))"
proof -
  let ?cs = "[KvPut 1 (lit ''k'') (Some (lit ''v''), 10, 100), KvPut 2 (lit ''l'') (None, -1, 0),
    KvDel (lit ''l'')]"
  have "kv_keys_ok ?cs" "distinct (kv_places ?cs)" by (simp_all add: lit_def)
  from database_refines_map [OF this, of "lit ''db0''"] obtain db h where
    d: "kv_exec db_put db_del (database_init (lit ''db0'') (Some trie_node_destructor), Map.empty) ?cs = Inr (db, h)"
    "\<And>key now. (\<exists>a. database_search db key now h = Inr (Some a)) \<longleftrightarrow>
        (\<exists>data ttl ct. kv_spec Map.empty ?cs key = Some (data, ttl, ct) \<and> \<not> (-1 < ttl \<and> ttl \<le> now - ct))"
    by blast
  have kl: "lit ''k'' \<noteq> lit ''l''" by (simp add: lit_def)
  have "\<exists>a. database_search db (lit ''k'') 109 h = Inr (Some a)"
    using d(2) [of "lit ''k''" 109] kl by simp
  moreover have "\<not> (\<exists>a. database_search db (lit ''k'') 110 h = Inr (Some a))"
    using d(2) [of "lit ''k''" 110] kl by simp
  moreover have "\<not> (\<exists>a. database_search db (lit ''l'') 0 h = Inr (Some a))"
    using d(2) [of "lit ''l''" 0] by simp
  ultimately show ?thesis using d(1) by blast
qed

text \<open>
  Counting up and down: where the integers under a prefix can be moved by one without
  leaving the range of an int, INC and DEC on the prefix succeed and change exactly the items
  under it whose value is all digits, by one, with the time of the change; everything else stays.
\<close>

theorem database_prefix_integer_mod_correct:
  assumes "db_ok db h"
    and "\<forall>k item. has_prefix p k \<and> db_view db h k = Some item \<longrightarrow> can_bump inc item"
  shows "\<exists>h'. (if inc then database_prefix_inc db p clk h else database_prefix_dec db p clk h) = Inr h' \<and>
           db_ok db h' \<and>
           (\<forall>k. db_view db h' k = (if has_prefix p k then map_option (bump inc (key_clk db clk k)) (db_view db h k)
              else db_view db h k))"
proof -
  have step: "item_integer_mod inc clk h' a = Inr (h'(a \<mapsto> bump inc (clk a) v))"
    if "a \<in> released_under (db_data db) p" "h a = Some v" "h' a = Some v" for h' a v
    using item_integer_mod_step [of h' a v inc clk] that assms released_under_view [OF assms(1) that(1,2)]
    by blast
  have eq: "(if inc then database_prefix_inc db p clk h else database_prefix_dec db p clk h) =
      bindE (prefix_node db p) (\<lambda>node. case node of None \<Rightarrow> Inr h
        | Some n \<Rightarrow> trie_node_integer_mod n 1 inc clk h)"
    by (auto simp: database_prefix_inc_def database_prefix_dec_def intro!: bindE_cong split: option.split)
  show ?thesis
    unfolding eq
    by (rule prefix_walk [where g = "bump inc" and order = items_pre])
      (use assms(1) trie_node_integer_mod_fold mset_items step in auto)
qed

text \<open>A database with a counter and a text under the prefix \<^verbatim>\<open>a\<close> and a counter outside it.\<close>

definition sample_db :: "(database \<times> db_item heap) cres" where
  "sample_db = kv_exec db_put db_del (database_init (lit ''db0'') (Some trie_node_destructor), Map.empty)
     [KvPut 1 (lit ''a1'') (Some (lit ''9''), -1, 0), KvPut 2 (lit ''ab'') (Some (lit ''x''), -1, 0),
      KvPut 3 (lit ''b'') (Some (lit ''9''), -1, 0)]"

lemma sample_db_ok:
  "\<exists>db h. sample_db = Inr (db, h) \<and> db_ok db h \<and>
     db_entry (db, h) = [lit ''a1'' \<mapsto> (Some (lit ''9''), -1, 0), lit ''ab'' \<mapsto> (Some (lit ''x''), -1, 0),
       lit ''b'' \<mapsto> (Some (lit ''9''), -1, 0)]"
proof -
  let ?cs = "[KvPut 1 (lit ''a1'') (Some (lit ''9''), -1, 0), KvPut 2 (lit ''ab'') (Some (lit ''x''), -1, 0),
      KvPut 3 (lit ''b'') (Some (lit ''9''), -1, 0)]"
  let ?s = "(database_init (lit ''db0'') (Some trie_node_destructor), Map.empty :: db_item heap)"
  have "kv_keys_ok ?cs" "distinct (kv_places ?cs)" by (simp_all add: lit_def)
  with db_store.exec_refines [of ?s ?cs] database_init_ok obtain s where
    "kv_exec db_put db_del ?s ?cs = Inr s" "db_ok (fst s) (snd s)" "db_entry s = kv_spec (db_entry ?s) ?cs"
    by auto
  then show ?thesis unfolding sample_db_def
    by (intro exI [of _ "fst s"] exI [of _ "snd s"]) (simp add: db_entry_empty)
qed


theorem database_prefix_integer_mod_correct_witness:
  "\<exists>db h h'. sample_db = Inr (db, h) \<and> database_prefix_inc db (lit ''a'') (\<lambda>a. 50) h = Inr h' \<and>
     map_option di_data (db_view db h' (lit ''a1'')) = Some (Some (lit ''10'')) \<and>
     map_option di_data (db_view db h' (lit ''b'')) = Some (Some (lit ''9''))"
proof -
  obtain db h where db: "sample_db = Inr (db, h)" "db_ok db h" and
    e: "db_entry (db, h) = [lit ''a1'' \<mapsto> (Some (lit ''9''), -1, 0), lit ''ab'' \<mapsto> (Some (lit ''x''), -1, 0),
       lit ''b'' \<mapsto> (Some (lit ''9''), -1, 0)]"
    using sample_db_ok by blast
  have view: "map_option (\<lambda>i. (di_data i, di_ttl i, di_ctime i)) (db_view db h k) = db_entry (db, h) k" for k
    by (simp add: db_entry_def)
  have p9: "parse_int (lit ''9'') = Inr 9" "sprintf_d 10 = lit ''10''" "is_integer (lit ''9'')" "\<not> is_integer (lit ''x'')"
    by (simp_all add: parse_int_def lit_def isdigit_def c_int_def INT_MAX_def INT_MIN_def sprintf_d_def dec_digits.simps)
  have data: "di_data item = Some (lit ''9'') \<or> di_data item = Some (lit ''x'')"
    if "db_view db h k = Some item" for k item
    using view [of k] that by (auto simp: e split: if_splits)
  have all: "\<forall>k item. has_prefix (lit ''a'') k \<and> db_view db h k = Some item \<longrightarrow> can_bump True item"
    using data p9 by (fastforce simp: can_bump_def INT_MAX_def)
  from database_prefix_integer_mod_correct [OF db(2) all, of "\<lambda>a. 50"] obtain h' where
    h': "database_prefix_inc db (lit ''a'') (\<lambda>a. 50) h = Inr h'"
    "\<And>k. db_view db h' k = (if has_prefix (lit ''a'') k
        then map_option (bump True (key_clk db (\<lambda>a. 50) k)) (db_view db h k) else db_view db h k)" by auto
  have pre: "has_prefix (lit ''a'') (lit ''a1'')" "\<not> has_prefix (lit ''a'') (lit ''b'')"
    by (simp_all add: has_prefix_def lit_def)
  obtain i1 i3 where "db_view db h (lit ''a1'') = Some i1" "di_data i1 = Some (lit ''9'')"
    "db_view db h (lit ''b'') = Some i3" "di_data i3 = Some (lit ''9'')"
    using view [of "lit ''a1''"] view [of "lit ''b''"] by (auto simp: e lit_def)
  then show ?thesis
    using db(1) h'(1) pre p9 by (intro exI [of _ db] exI [of _ h] exI [of _ h']) (simp add: h'(2) bump_def)
qed

lemma database_prefix_set_ok:
  assumes "db_ok db h"
  shows "\<exists>h'. database_prefix_set db p val ttl clk h = Inr h' \<and> db_ok db h' \<and>
            (\<forall>k. db_view db h' k = (if has_prefix p k
               then map_option (\<lambda>i. i\<lparr> di_data := Some val, di_ttl := ttl, di_lstime := key_clk db clk k \<rparr>)
                      (db_view db h k)
               else db_view db h k))"
proof -
  let ?g = "\<lambda>now i. i\<lparr> di_data := Some val, di_ttl := ttl, di_lstime := now \<rparr>"
  have "item_set val ttl clk h' a = Inr (h'(a \<mapsto> ?g (clk a) v))" if "h' a = Some v" for h' a v
    using that by (simp add: item_set_def obj_read_Some obj_write_Some)
  with assms show ?thesis
    unfolding database_prefix_set_def
    by (intro prefix_walk [where g = ?g and order = items_post])
      (auto simp: trie_node_prefix_set_fold mset_items)
qed

text \<open>
  Setting a value or a TTL on a prefix: \<^verbatim>\<open>database_prefix_set\<close> gives every item under the prefix
  the value and the TTL, \<^verbatim>\<open>database_prefix_ttl\<close> gives every item with a value the TTL; both set the
  time of the change, keep the creation time the TTL is measured from, and touch nothing else.
\<close>

theorem database_prefix_set_ttl_correct:
  assumes "db_ok db h"
  shows "(\<exists>h'. database_prefix_set db p val ttl clk h = Inr h' \<and> db_ok db h' \<and>
            (\<forall>k. db_view db h' k = (if has_prefix p k
               then map_option (\<lambda>i. i\<lparr> di_data := Some val, di_ttl := ttl, di_lstime := key_clk db clk k \<rparr>)
                      (db_view db h k)
               else db_view db h k))) \<and>
         (\<exists>h'. database_prefix_ttl db p ttl clk h = Inr h' \<and> db_ok db h' \<and>
            (\<forall>k. db_view db h' k = (if has_prefix p k
               then map_option (\<lambda>i. if di_data i = None then i
                      else i\<lparr> di_ttl := ttl, di_lstime := key_clk db clk k \<rparr>) (db_view db h k)
               else db_view db h k)))"
proof (rule conjI [OF database_prefix_set_ok [OF assms]])
  let ?f = "\<lambda>now i. if di_data i = None then i else i\<lparr> di_ttl := ttl, di_lstime := now \<rparr>"
  have "item_ttl ttl clk h' a = Inr (h'(a \<mapsto> ?f (clk a) v))" if "h' a = Some v" for h' a v
    using that by (simp add: item_ttl_def obj_read_Some obj_write_Some map_upd_triv)
  with assms show "\<exists>h'. database_prefix_ttl db p ttl clk h = Inr h' \<and> db_ok db h' \<and>
      (\<forall>k. db_view db h' k = (if has_prefix p k then map_option (?f (key_clk db clk k)) (db_view db h k)
         else db_view db h k))"
    unfolding database_prefix_ttl_def
    by (intro prefix_walk [where g = ?f and order = items_post])
      (auto simp: trie_node_prefix_ttl_fold mset_items)
qed


theorem database_prefix_set_ttl_correct_witness:
  "\<exists>db h h'. sample_db = Inr (db, h) \<and> database_prefix_set db (lit ''a'') (lit ''v'') 5 (\<lambda>a. 50) h = Inr h' \<and>
     map_option di_data (db_view db h' (lit ''a1'')) = Some (Some (lit ''v'')) \<and>
     map_option di_ttl (db_view db h' (lit ''b'')) = Some (-1)"
proof -
  obtain db h where db: "sample_db = Inr (db, h)" "db_ok db h" and
    e: "db_entry (db, h) = [lit ''a1'' \<mapsto> (Some (lit ''9''), -1, 0), lit ''ab'' \<mapsto> (Some (lit ''x''), -1, 0),
       lit ''b'' \<mapsto> (Some (lit ''9''), -1, 0)]"
    using sample_db_ok by blast
  from database_prefix_set_ttl_correct [OF db(2), of "lit ''a''" "lit ''v''" 5 "\<lambda>a. 50"] obtain h' where
    h': "database_prefix_set db (lit ''a'') (lit ''v'') 5 (\<lambda>a. 50) h = Inr h'"
    "\<And>k. db_view db h' k = (if has_prefix (lit ''a'') k
        then map_option (\<lambda>i. i\<lparr> di_data := Some (lit ''v''), di_ttl := 5, di_lstime := key_clk db (\<lambda>a. 50) k \<rparr>)
          (db_view db h k) else db_view db h k)" by blast
  have pre: "has_prefix (lit ''a'') (lit ''a1'')" "\<not> has_prefix (lit ''a'') (lit ''b'')"
    by (simp_all add: has_prefix_def lit_def)
  have view: "map_option (\<lambda>i. (di_data i, di_ttl i, di_ctime i)) (db_view db h k) = db_entry (db, h) k" for k
    by (simp add: db_entry_def)
  obtain i1 i3 where "db_view db h (lit ''a1'') = Some i1" "db_view db h (lit ''b'') = Some i3" "di_ttl i3 = -1"
    using view [of "lit ''a1''"] view [of "lit ''b''"] by (auto simp: e lit_def)
  then show ?thesis
    using db(1) h'(1) pre by (intro exI [of _ db] exI [of _ h] exI [of _ h']) (simp add: h'(2))
qed

text \<open>
  C34. Removing a prefix from a database with the server's destructor, for a non-empty prefix and fewer than
  \<open>2 ^ 64\<close> keys: the entries under the prefix are gone and all others stay, but the size of the database is then too
  large by the number of removed keys longer than the prefix.
\<close>

theorem database_prefix_remove_correct:
  assumes "db_ok db h" and "p \<noteq> []" and "card (dom (trie_map (db_data db))) < 2 ^ 64"
  shows "\<exists>db' h'. database_prefix_remove db p h = Inr (db', h') \<and>
           (\<forall>k. db_view db' h' k = (if has_prefix p k then None else db_view db h k)) \<and>
           database_size db' = of_nat (card (dom (trie_map (db_data db'))) + card (keys_under (db_data db) p - {p}))"
proof -
  let ?t = "db_data db"
  note ok = db_okD [OF assms(1)]
  have sz: "unat (t_size ?t) = card (dom (trie_map ?t))"
    using ok(1) assms(3) by (simp add: trie_ok_def unat_of_nat)
  obtain t' where t': "trie_prefix_delete ?t p h = Inr (t', h |` (- released_under ?t p))"
    "trie_map t' = trie_map ?t |` {k. \<not> has_prefix p k}"
    using trie_prefix_delete_ok [OF ok(2,4) assms(2) ok(3)] sz by auto
  have "a \<in> released_under ?t p \<longleftrightarrow> has_prefix p k" if "trie_map ?t k = Some a" for a k
    using that db_ok_inj [OF assms(1)] by (auto simp: released_under_def)
  then have "db_view (db\<lparr> db_data := t' \<rparr>) (h |` (- released_under ?t p)) k =
      (if has_prefix p k then None else db_view db h k)" for k
    by (auto simp: db_view_def t'(2) restrict_map_def split: option.splits)
  moreover have "t_size t' = of_nat (card (dom (trie_map t')) + card (keys_under ?t p - {p}))"
    using trie_prefix_delete_size [OF ok(1) item_destructor.data_destructor_axioms assms(2,3) t'(1)] .
  ultimately show ?thesis
    using t'(1) by (simp add: database_prefix_remove_def database_size_def)
qed

theorem database_prefix_remove_correct_witness:
  "\<exists>db h db' h'. sample_db = Inr (db, h) \<and> database_prefix_remove db (lit ''a'') h = Inr (db', h') \<and>
     db_view db' h' (lit ''a1'') = None \<and> db_view db' h' (lit ''b'') \<noteq> None"
proof -
  obtain db h where db: "sample_db = Inr (db, h)" "db_ok db h" and
    e: "db_entry (db, h) = [lit ''a1'' \<mapsto> (Some (lit ''9''), -1, 0), lit ''ab'' \<mapsto> (Some (lit ''x''), -1, 0),
       lit ''b'' \<mapsto> (Some (lit ''9''), -1, 0)]"
    using sample_db_ok by blast
  have "dom (trie_map (db_data db)) \<subseteq> dom (db_entry (db, h))"
    using db_ok_alive [OF db(2)] by (force simp: db_entry_def db_view_def)
  also have "\<dots> = {lit ''a1'', lit ''ab'', lit ''b''}" by (auto simp: e)
  finally have "card (dom (trie_map (db_data db))) \<le> card {lit ''a1'', lit ''ab'', lit ''b''}"
    by (rule card_mono [rotated]) simp
  then have "card (dom (trie_map (db_data db))) < 2 ^ 64" by (simp add: lit_def)
  moreover have pre: "has_prefix (lit ''a'') (lit ''a1'')" "\<not> has_prefix (lit ''a'') (lit ''b'')"
    "lit ''a'' \<noteq> []" by (simp_all add: has_prefix_def lit_def)
  moreover have "map_option (\<lambda>i. (di_data i, di_ttl i, di_ctime i)) (db_view db h (lit ''b'')) \<noteq> None"
    using e by (simp add: db_entry_def fun_eq_iff)
  ultimately show ?thesis
    using database_prefix_remove_correct [OF db(2) pre(3)] db(1) by fastforce
qed

text \<open>
  FLUSH: \<^verbatim>\<open>database_flush\<close> releases the items of all keys, but the trie keeps the pointer to its
  released root, so that every later search, insertion or removal is a use after free.
\<close>

theorem database_flush_dangling:
  assumes "db_ok db h" and "card (dom (trie_map (db_data db))) < 2 ^ 64"
  shows "\<exists>db'. database_flush db h = Inr (db', h |` (- ran (trie_map (db_data db)))) \<and>
           database_search db' key now h' = Inl UseAfterFree \<and>
           database_insert db' key data ttl now a h' = Inl UseAfterFree \<and>
           database_remove db' key h' = Inl UseAfterFree"
proof -
  let ?t = "db_data db"
  note ok = db_okD [OF assms(1)]
  obtain root where root: "t_root ?t = Some root" "trie_node_inv root" "trie_map ?t = trie_node_search root"
    using ok(2) by (rule trie_invE)
  have inj: "inj_on (trie_node_search root) (dom (trie_node_search root))"
    using ok(3) root(3) by (simp add: trie_owns_def)
  note rel = trie_released_ok [OF root(2) inj]
  have alive: "\<forall>a \<in> set (trie_released root). h a \<noteq> None"
    using ok(3) rel(2) root(3) by (auto simp: trie_owns_def dom_def)
  have len: "length (trie_released root) \<le> unat (t_size ?t)"
    using rel(3) root(3) ok(1) assms(2) by (simp add: trie_ok_def unat_of_nat)
  show ?thesis
    using trie_node_destroy_ok(1) [OF ok(4) rel(1) alive len] root rel(2)
    by (simp add: database_flush_def database_search_def database_insert_def database_remove_def
        trie_find_def trie_insert_def trie_delete_def free_all_def Let_def)
qed

theorem database_flush_dangling_witness:
  "\<exists>db'. database_flush (database_init (lit ''db0'') (Some trie_node_destructor)) Map.empty = Inr (db', Map.empty) \<and>
     database_search db' (lit ''k'') 0 Map.empty = Inl UseAfterFree"
proof -
  let ?db = "database_init (lit ''db0'') (Some trie_node_destructor)"
  have empty: "trie_map (db_data ?db) = Map.empty" by (simp add: database_init_def trie_new_ok)
  then have "card (dom (trie_map (db_data ?db))) < 2 ^ 64" by simp
  from database_flush_dangling [OF database_init_ok this, of "lit ''k''" 0 Map.empty None 0 0] empty
  show ?thesis by auto
qed

end
