(* ===== verification/Tdb_Pack.thy ===== *)
theory Tdb_Pack
  imports Tdb_Util
begin

unbundle bit_operations_syntax

text \<open>
  The byte strings and the binary packing of \<^verbatim>\<open>src/pack.c\<close>. A buffer that is read is the list of
  its bytes from the current position; what is written is the list of bytes written. A variadic
  argument is the 64-bit value of its register, or a string; the pointers \<^verbatim>\<open>unpack\<close> stores through
  are the list of the values stored.
\<close>

type_synonym bstring = bytes

definition bstring_len :: "bstring \<Rightarrow> nat" where
  "bstring_len s = length s"

text \<open>\<^verbatim>\<open>tmalloc\<close> asserts a positive size.\<close>

definition bstring_copy :: "bytes \<Rightarrow> nat \<Rightarrow> bstring cres" where
  "bstring_copy init len =
     (if len = 0 then Inl AssertFailed
      else if len \<le> length init then Inr (take len init) else Inl OutOfBounds)"

definition bstring_new :: "cstring option \<Rightarrow> bstring option cres" where
  "bstring_new init =
     (case init of
        None \<Rightarrow> Inr None
      | Some s \<Rightarrow> bindE (bstring_copy (s @ [0]) (length s)) (\<lambda>b. Inr (Some b)))"

definition bstring_empty :: "nat \<Rightarrow> bstring cres" where
  "bstring_empty len = (if len = 0 then Inl AssertFailed else Inr (replicate len 0))"

subsection \<open>Big-endian integers\<close>

definition htonll :: "u64 \<Rightarrow> bytes" where
  "htonll num =
     [ucast (drop_bit 56 num AND 0xFF), ucast (drop_bit 48 num AND 0xFF),
      ucast (drop_bit 40 num AND 0xFF), ucast (drop_bit 32 num AND 0xFF),
      ucast (drop_bit 24 num AND 0xFF), ucast (drop_bit 16 num AND 0xFF),
      ucast (drop_bit 8 num AND 0xFF), ucast (drop_bit 0 num AND 0xFF)]"

definition packi16 :: "u16 \<Rightarrow> bytes" where
  "packi16 val = [ucast (drop_bit 8 val), ucast val]"

definition packi32 :: "u32 \<Rightarrow> bytes" where
  "packi32 val = [ucast (drop_bit 24 val), ucast (drop_bit 16 val), ucast (drop_bit 8 val), ucast val]"

definition packi64 :: "u64 \<Rightarrow> bytes" where
  "packi64 val =
     [ucast (drop_bit 56 val), ucast (drop_bit 48 val), ucast (drop_bit 40 val), ucast (drop_bit 32 val),
      ucast (drop_bit 24 val), ucast (drop_bit 16 val), ucast (drop_bit 8 val), ucast val]"

text \<open>The reads fault where the buffer is too short.\<close>

definition unpacku16 :: "bytes \<Rightarrow> u32 cres" where
  "unpacku16 buf =
     (case buf of
        b0 # b1 # rest \<Rightarrow> Inr (push_bit 8 (ucast b0) OR ucast b1)
      | _ \<Rightarrow> Inl OutOfBounds)"

definition unpacki16 :: "bytes \<Rightarrow> int cres" where
  "unpacki16 buf =
     bindE (unpacku16 buf) (\<lambda>i2.
       Inr (if i2 \<le> 0x7fff then uint i2 else -1 - uint (0xffff - i2)))"

definition unpacku32 :: "bytes \<Rightarrow> u64 cres" where
  "unpacku32 buf =
     (case buf of
        b0 # b1 # b2 # b3 # rest \<Rightarrow>
          Inr (push_bit 24 (ucast b0) OR push_bit 16 (ucast b1) OR push_bit 8 (ucast b2) OR ucast b3)
      | _ \<Rightarrow> Inl OutOfBounds)"

definition unpacki32 :: "bytes \<Rightarrow> int cres" where
  "unpacki32 buf =
     bindE (unpacku32 buf) (\<lambda>i2.
       Inr (if i2 \<le> 0x7fffffff then uint i2 else -1 - uint (0xffffffff - i2)))"

definition unpacku64 :: "bytes \<Rightarrow> u64 cres" where
  "unpacku64 buf =
     (case buf of
        b0 # b1 # b2 # b3 # b4 # b5 # b6 # b7 # rest \<Rightarrow>
          Inr (push_bit 56 (ucast b0) OR push_bit 48 (ucast b1) OR push_bit 40 (ucast b2) OR
               push_bit 32 (ucast b3) OR push_bit 24 (ucast b4) OR push_bit 16 (ucast b5) OR
               push_bit 8 (ucast b6) OR ucast b7)
      | _ \<Rightarrow> Inl OutOfBounds)"

definition unpacki64 :: "bytes \<Rightarrow> int cres" where
  "unpacki64 buf =
     bindE (unpacku64 buf) (\<lambda>i2.
       Inr (if i2 \<le> 0x7fffffffffffffff then uint i2 else -1 - uint (0xffffffffffffffff - i2)))"

definition ntohll :: "bytes \<Rightarrow> u64 cres" where
  "ntohll block =
     (case block of
        b0 # b1 # b2 # b3 # b4 # b5 # b6 # b7 # rest \<Rightarrow>
          Inr (push_bit 56 (ucast b0) OR push_bit 48 (ucast b1) OR push_bit 40 (ucast b2) OR
               push_bit 32 (ucast b3) OR push_bit 24 (ucast b4) OR push_bit 16 (ucast b5) OR
               push_bit 8 (ucast b6) OR push_bit 0 (ucast b7))
      | _ \<Rightarrow> Inl OutOfBounds)"

subsection \<open>Format strings\<close>

datatype c_arg = ANum u64 | AStr cstring

datatype c_val = VInt int | VUint u64 | VStr bytes

definition ch :: "char \<Rightarrow> byte" where
  "ch c = of_char c"

text \<open>The next variadic argument as a number or a string; taking one that is not there faults.\<close>

definition arg_num :: "c_arg list \<Rightarrow> (u64 \<times> c_arg list) cres" where
  "arg_num args = (case args of ANum v # rest \<Rightarrow> Inr (v, rest) | _ \<Rightarrow> Inl OutOfBounds)"

definition arg_str :: "c_arg list \<Rightarrow> (cstring \<times> c_arg list) cres" where
  "arg_str args = (case args of AStr s # rest \<Rightarrow> Inr (s, rest) | _ \<Rightarrow> Inl OutOfBounds)"

text \<open>
  \<^verbatim>\<open>pack\<close>: the bytes written and the size returned. A conversion that is none of the letters is
  skipped; the size does not count strings.
\<close>

fun pack :: "cstring \<Rightarrow> c_arg list \<Rightarrow> (bytes \<times> u32) cres" where
  "pack [] args = Inr ([], 0)"
| "pack (f # format) args =
     (if f = ch CHR ''b'' \<or> f = ch CHR ''B'' then
        bindE (arg_num args) (\<lambda>(v, rest). bindE (pack format rest) (\<lambda>(out, sz). Inr (ucast v # out, 1 + sz)))
      else if f = ch CHR ''h'' \<or> f = ch CHR ''H'' then
        bindE (arg_num args) (\<lambda>(v, rest).
          bindE (pack format rest) (\<lambda>(out, sz). Inr (packi16 (ucast v) @ out, 2 + sz)))
      else if f = ch CHR ''i'' \<or> f = ch CHR ''I'' then
        bindE (arg_num args) (\<lambda>(v, rest).
          bindE (pack format rest) (\<lambda>(out, sz). Inr (packi32 (ucast v) @ out, 4 + sz)))
      else if f = ch CHR ''q'' \<or> f = ch CHR ''Q'' then
        bindE (arg_num args) (\<lambda>(v, rest).
          bindE (pack format rest) (\<lambda>(out, sz). Inr (packi64 v @ out, 8 + sz)))
      else if f = ch CHR ''s'' then
        bindE (arg_str args) (\<lambda>(s, rest). bindE (pack format rest) (\<lambda>(out, sz). Inr (s @ out, sz)))
      else pack format args)"

text \<open>
  \<^verbatim>\<open>unpack\<close>: the values stored, in order. The digits before an \<^verbatim>\<open>s\<close> are its length, at the width of
  an unsigned int, and any other conversion resets it.
\<close>

fun unpack_from :: "bytes \<Rightarrow> cstring \<Rightarrow> u32 \<Rightarrow> c_val list cres" where
  "unpack_from buf [] maxstrlen = Inr []"
| "unpack_from buf (f # format) maxstrlen =
     (if f = ch CHR ''b'' then
        (case buf of
           [] \<Rightarrow> Inl OutOfBounds
         | b # rest \<Rightarrow>
             bindE (unpack_from rest format 0) (\<lambda>vs.
               Inr (VInt (if b \<le> 0x7f then uint b else -1 - uint (0xff - b)) # vs)))
      else if f = ch CHR ''B'' then
        (case buf of
           [] \<Rightarrow> Inl OutOfBounds
         | b # rest \<Rightarrow> bindE (unpack_from rest format 0) (\<lambda>vs. Inr (VUint (ucast b) # vs)))
      else if f = ch CHR ''h'' then
        bindE (unpacki16 buf) (\<lambda>n. bindE (unpack_from (drop 2 buf) format 0) (\<lambda>vs. Inr (VInt n # vs)))
      else if f = ch CHR ''H'' then
        bindE (unpacku16 buf) (\<lambda>n. bindE (unpack_from (drop 2 buf) format 0) (\<lambda>vs. Inr (VUint (ucast n) # vs)))
      else if f = ch CHR ''i'' then
        bindE (unpacki32 buf) (\<lambda>n. bindE (unpack_from (drop 4 buf) format 0) (\<lambda>vs. Inr (VInt n # vs)))
      else if f = ch CHR ''I'' then
        bindE (unpacku32 buf) (\<lambda>n. bindE (unpack_from (drop 4 buf) format 0) (\<lambda>vs. Inr (VUint n # vs)))
      else if f = ch CHR ''q'' then
        bindE (unpacki64 buf) (\<lambda>n. bindE (unpack_from (drop 8 buf) format 0) (\<lambda>vs. Inr (VInt n # vs)))
      else if f = ch CHR ''Q'' then
        bindE (unpacku64 buf) (\<lambda>n. bindE (unpack_from (drop 8 buf) format 0) (\<lambda>vs. Inr (VUint n # vs)))
      else if f = ch CHR ''s'' then
        (if unat maxstrlen \<le> length buf then
           bindE (unpack_from (drop (unat maxstrlen) buf) format 0) (\<lambda>vs.
             Inr (VStr (take (unat maxstrlen) buf) # vs))
         else Inl OutOfBounds)
      else if isdigit f then unpack_from buf format (maxstrlen * 10 + (ucast f - 48))
      else unpack_from buf format 0)"

definition unpack :: "bytes \<Rightarrow> cstring \<Rightarrow> c_val list cres" where
  "unpack buf format = unpack_from buf format 0"


subsection \<open>Big-endian integers round trip\<close>

lemma unpacku16_packi16: "unpacku16 (packi16 v @ rest) = Inr (ucast v)"
proof -
  have "push_bit 8 (ucast (ucast (drop_bit 8 v) :: byte)) OR ucast (ucast v :: byte) = (ucast v :: u32)"
  proof (rule bit_word_eqI)
    fix n :: nat
    consider "n < 8" | "8 \<le> n" "n < 16" | "16 \<le> n" by linarith
    then show "bit (push_bit 8 (ucast (ucast (drop_bit 8 v) :: byte)) OR ucast (ucast v :: byte) :: u32) n =
        bit (ucast v :: u32) n"
      by cases (auto simp: bit_simps dest: bit_imp_le_length)
  qed
  then show ?thesis by (simp add: unpacku16_def packi16_def)
qed

lemma unpacku32_packi32: "unpacku32 (packi32 v @ rest) = Inr (ucast v)"
proof -
  let ?w = "push_bit 24 (ucast (ucast (drop_bit 24 v) :: byte)) OR push_bit 16 (ucast (ucast (drop_bit 16 v) :: byte))
      OR push_bit 8 (ucast (ucast (drop_bit 8 v) :: byte)) OR ucast (ucast v :: byte) :: u64"
  have "?w = ucast v"
  proof (rule bit_word_eqI)
    fix n :: nat
    consider "n < 8" | "8 \<le> n" "n < 16" | "16 \<le> n" "n < 24" | "24 \<le> n" "n < 32" | "32 \<le> n" by linarith
    then show "bit ?w n = bit (ucast v :: u64) n"
      by cases (auto simp: bit_simps dest: bit_imp_le_length)
  qed
  then show ?thesis by (simp add: unpacku32_def packi32_def)
qed

lemma bit_byte_at:
  "bit (push_bit k (ucast (ucast (drop_bit k v) :: byte)) :: u64) n \<longleftrightarrow> k \<le> n \<and> n < k + 8 \<and> bit v n"
  for v :: u64
  by (auto simp: bit_simps dest: bit_imp_le_length)

lemma unpacku64_packi64: "unpacku64 (packi64 v @ rest) = Inr v"
proof -
  let ?b = "\<lambda>k. push_bit k (ucast (ucast (drop_bit k v) :: byte)) :: u64"
  have "?b 56 OR ?b 48 OR ?b 40 OR ?b 32 OR ?b 24 OR ?b 16 OR ?b 8 OR ?b 0 = v"
  proof (rule bit_word_eqI)
    fix n :: nat
    have "bit v n \<Longrightarrow> n < 64" using bit_imp_le_length [of v n] by simp
    then show "bit (?b 56 OR ?b 48 OR ?b 40 OR ?b 32 OR ?b 24 OR ?b 16 OR ?b 8 OR ?b 0) n = bit v n"
      unfolding bit_or_iff bit_byte_at by (cases "bit v n") (simp_all, linarith)
  qed
  then show ?thesis by (simp add: unpacku64_def packi64_def)
qed

lemma htonll_packi64: "htonll v = packi64 v"
proof -
  have "ucast (w AND 0xFF) = (ucast w :: byte)" for w :: u64
  proof -
    have "w AND 0xFF = take_bit 8 w" by (simp add: take_bit_eq_mask mask_eq_exp_minus_1)
    then show ?thesis by (intro bit_word_eqI) (auto simp: bit_simps)
  qed
  then show ?thesis by (simp add: htonll_def packi64_def)
qed

lemma ntohll_unpacku64: "ntohll b = unpacku64 b"
  by (simp add: ntohll_def unpacku64_def split: list.split)

text \<open>The signed readings give back a signed value that was stored in two's complement.\<close>

lemma signed_reading:
  fixes i2 lo hi :: "'a::len word"
  assumes "- H \<le> n" and "n < H" and "uint i2 = n mod (2 * H)" and "uint lo = H - 1" and "uint hi = 2 * H - 1"
  shows "(if i2 \<le> lo then uint i2 else -1 - uint (hi - i2)) = n"
proof (cases "0 \<le> n")
  case True
  then have "uint i2 = n" using assms(2,3) by simp
  then show ?thesis using assms(2,4) by (simp add: word_le_def)
next
  case False
  have "n mod (2 * H) = (n + 2 * H) mod (2 * H)" by simp
  also have "\<dots> = n + 2 * H" using False assms(1,2) by (intro mod_pos_pos_trivial) auto
  finally have i2: "uint i2 = n + 2 * H" using assms(3) by simp
  then have "i2 \<le> hi" using False assms(5) by (simp add: word_le_def)
  then have "uint (hi - i2) = uint hi - uint i2" by (simp add: uint_minus_simple_alt)
  moreover have "\<not> i2 \<le> lo" using i2 assms(1,4) False by (simp add: word_le_def)
  ultimately show ?thesis using i2 assms(5) by simp
qed

lemma unpacki16_packi16:
  assumes "- (2 ^ 15) \<le> n" "n < 2 ^ 15"
  shows "unpacki16 (packi16 (word_of_int n) @ rest) = Inr n"
  using signed_reading [of "2 ^ 15" n "ucast (word_of_int n :: u16) :: u32" "0x7fff" "0xffff"] assms
  by (simp add: unpacki16_def unpacku16_packi16 uint_up_ucast is_up uint_word_of_int)

lemma unpacki32_packi32:
  assumes "- (2 ^ 31) \<le> n" "n < 2 ^ 31"
  shows "unpacki32 (packi32 (word_of_int n) @ rest) = Inr n"
  using signed_reading [of "2 ^ 31" n "ucast (word_of_int n :: u32) :: u64" "0x7fffffff" "0xffffffff"] assms
  by (simp add: unpacki32_def unpacku32_packi32 uint_up_ucast is_up uint_word_of_int)

lemma unpacki64_packi64:
  assumes "- (2 ^ 63) \<le> n" "n < 2 ^ 63"
  shows "unpacki64 (packi64 (word_of_int n) @ rest) = Inr n"
  using signed_reading [of "2 ^ 63" n "word_of_int n :: u64" "0x7fffffffffffffff" "0xffffffffffffffff"] assms
  by (simp add: unpacki64_def unpacku64_packi64 uint_word_of_int)


subsection \<open>Formats round trip\<close>

text \<open>
  The fields of a message. A string is packed as its bytes and unpacked with its length written
  in front of the conversion letter.
\<close>

datatype field =
    Fb int | FB byte | Fh int | FH u16 | Fi int | FI u32 | Fq int | FQ u64 | Fs cstring

fun field_ok :: "field \<Rightarrow> bool" where
  "field_ok (Fb n) \<longleftrightarrow> - (2 ^ 7) \<le> n \<and> n < 2 ^ 7"
| "field_ok (Fh n) \<longleftrightarrow> - (2 ^ 15) \<le> n \<and> n < 2 ^ 15"
| "field_ok (Fi n) \<longleftrightarrow> - (2 ^ 31) \<le> n \<and> n < 2 ^ 31"
| "field_ok (Fq n) \<longleftrightarrow> - (2 ^ 63) \<le> n \<and> n < 2 ^ 63"
| "field_ok (Fs s) \<longleftrightarrow> length s < 2 ^ 32"
| "field_ok f \<longleftrightarrow> True"

fun pack_conv :: "field \<Rightarrow> cstring" where
  "pack_conv (Fb n) = lit ''b''"
| "pack_conv (FB b) = lit ''B''"
| "pack_conv (Fh n) = lit ''h''"
| "pack_conv (FH w) = lit ''H''"
| "pack_conv (Fi n) = lit ''i''"
| "pack_conv (FI w) = lit ''I''"
| "pack_conv (Fq n) = lit ''q''"
| "pack_conv (FQ w) = lit ''Q''"
| "pack_conv (Fs s) = lit ''s''"

definition unpack_conv :: "field \<Rightarrow> cstring" where
  "unpack_conv f = (case f of Fs s \<Rightarrow> dec_digits (length s) @ lit ''s'' | _ \<Rightarrow> pack_conv f)"

fun field_arg :: "field \<Rightarrow> c_arg" where
  "field_arg (Fb n) = ANum (word_of_int n)"
| "field_arg (FB b) = ANum (ucast b)"
| "field_arg (Fh n) = ANum (word_of_int n)"
| "field_arg (FH w) = ANum (ucast w)"
| "field_arg (Fi n) = ANum (word_of_int n)"
| "field_arg (FI w) = ANum (ucast w)"
| "field_arg (Fq n) = ANum (word_of_int n)"
| "field_arg (FQ w) = ANum w"
| "field_arg (Fs s) = AStr s"

fun field_val :: "field \<Rightarrow> c_val" where
  "field_val (Fb n) = VInt n"
| "field_val (FB b) = VUint (ucast b)"
| "field_val (Fh n) = VInt n"
| "field_val (FH w) = VUint (ucast w)"
| "field_val (Fi n) = VInt n"
| "field_val (FI w) = VUint (ucast w)"
| "field_val (Fq n) = VInt n"
| "field_val (FQ w) = VUint w"
| "field_val (Fs s) = VStr s"

text \<open>The bytes of a field.\<close>

fun field_bytes :: "field \<Rightarrow> bytes" where
  "field_bytes (Fb n) = [word_of_int n]"
| "field_bytes (FB b) = [b]"
| "field_bytes (Fh n) = packi16 (word_of_int n)"
| "field_bytes (FH w) = packi16 w"
| "field_bytes (Fi n) = packi32 (word_of_int n)"
| "field_bytes (FI w) = packi32 w"
| "field_bytes (Fq n) = packi64 (word_of_int n)"
| "field_bytes (FQ w) = packi64 w"
| "field_bytes (Fs s) = s"

definition pack_format :: "field list \<Rightarrow> cstring" where
  "pack_format fs = concat (map pack_conv fs)"

definition unpack_format :: "field list \<Rightarrow> cstring" where
  "unpack_format fs = concat (map unpack_conv fs)"

lemma length_packi [simp]:
  "length (packi16 w) = 2" "length (packi32 v) = 4" "length (packi64 u) = 8"
  by (simp_all add: packi16_def packi32_def packi64_def)

lemma ucast_down_up [simp]:
  "ucast (ucast (b :: byte) :: u64) = b" "ucast (ucast (h :: u16) :: u64) = h"
  "ucast (ucast (i :: u32) :: u64) = i" "ucast (ucast (h :: u16) :: u32) = (ucast h :: u64)"
  by (rule bit_word_eqI; auto simp: bit_simps dest: bit_imp_le_length)+

lemma ucast_word_of_int_64 [simp]:
  "ucast (word_of_int n :: u64) = (word_of_int n :: byte)"
  "ucast (word_of_int n :: u64) = (word_of_int n :: u16)"
  "ucast (word_of_int n :: u64) = (word_of_int n :: u32)"
  by (rule bit_word_eqI; auto simp: bit_simps)+

lemma pack_fields:
  "\<exists>sz. pack (pack_format fs) (map field_arg fs) = Inr (concat (map field_bytes fs), sz)"
proof (induction fs)
  case (Cons f fs)
  then obtain sz where "pack (pack_format fs) (map field_arg fs) = Inr (concat (map field_bytes fs), sz)" ..
  then show ?case
    by (cases f) (simp_all add: pack_format_def lit_def ch_def arg_num_def arg_str_def)
qed (simp add: pack_format_def)

lemma unpack_from_digit:
  "d < 10 \<Longrightarrow> unpack_from buf (of_nat (48 + d) # fmt) m = unpack_from buf fmt (m * 10 + of_nat d)"
proof -
  assume "d < 10"
  then have "d = 0 \<or> d = 1 \<or> d = 2 \<or> d = 3 \<or> d = 4 \<or> d = 5 \<or> d = 6 \<or> d = 7 \<or> d = 8 \<or> d = 9"
    by presburger
  then show ?thesis by (elim disjE) (simp_all add: ch_def isdigit_def)
qed

lemma unpack_from_digits: "unpack_from buf (dec_digits n @ fmt) 0 = unpack_from buf fmt (of_nat n)"
proof (induction n arbitrary: fmt rule: dec_digits.induct)
  case (1 n)
  show ?case
  proof (cases "n < 10")
    case True
    then show ?thesis using unpack_from_digit [of n buf fmt 0] by (simp add: dec_digits_small)
  next
    case False
    have "unpack_from buf (dec_digits n @ fmt) 0 = unpack_from buf (of_nat (48 + n mod 10) # fmt) (of_nat (n div 10))"
      using 1 [OF False] False by (simp add: dec_digits_rec)
    also have "\<dots> = unpack_from buf fmt (of_nat (n div 10) * 10 + of_nat (n mod 10))"
      by (rule unpack_from_digit) simp
    also have "of_nat (n div 10) * 10 + of_nat (n mod 10) = (of_nat (n div 10 * 10 + n mod 10) :: u32)"
      by (simp only: of_nat_add of_nat_mult of_nat_numeral)
    finally show ?thesis by (simp only: div_mult_mod_eq)
  qed
qed

lemma unpack_from_str:
  assumes "length s < 2 ^ 32"
  shows "unpack_from (s @ rest) (ch CHR ''s'' # fmt) (of_nat (length s)) =
           bindE (unpack_from rest fmt 0) (\<lambda>vs. Inr (VStr s # vs))"
proof -
  have "unat (of_nat (length s) :: u32) = length s" using assms by (simp add: unat_of_nat)
  then show ?thesis by (simp add: ch_def isdigit_def)
qed

lemma signed_byte:
  assumes "- (2 ^ 7) \<le> n" "n < 2 ^ 7"
  shows "(if word_of_int n \<le> (0x7f :: byte) then uint (word_of_int n :: byte) else -1 - uint (0xff - word_of_int n :: byte)) = n"
  using signed_reading [of "2 ^ 7" n "word_of_int n :: byte" "0x7f" "0xff"] assms
  by (simp add: uint_word_of_int)

lemma unpack_field:
  assumes "field_ok f"
  shows "unpack_from (field_bytes f @ rest) (unpack_conv f @ fmt) 0 =
           bindE (unpack_from rest fmt 0) (\<lambda>vs. Inr (field_val f # vs))"
proof (cases f)
  case (Fs s)
  then show ?thesis
    using assms unpack_from_str [of s rest fmt]
    by (simp add: unpack_conv_def unpack_from_digits lit_def ch_def del: unpack_from.simps)
next
  case (Fb n)
  then show ?thesis using assms signed_byte [of n] by (simp add: unpack_conv_def lit_def ch_def)
qed (use assms in \<open>simp_all add: unpack_conv_def lit_def ch_def unpacki16_packi16 unpacku16_packi16
    unpacki32_packi32 unpacku32_packi32 unpacki64_packi64 unpacku64_packi64\<close>)

lemma unpack_fields:
  "\<forall>f \<in> set fs. field_ok f \<Longrightarrow>
     unpack (concat (map field_bytes fs) @ rest) (unpack_format fs) = Inr (map field_val fs)"
  unfolding unpack_def unpack_format_def
  by (induction fs) (simp_all add: unpack_field)


subsection \<open>Properties\<close>

text \<open>
  C35. Packing and unpacking are inverse: for any list of fields in the range of their
  conversions, \<^verbatim>\<open>pack\<close> succeeds and \<^verbatim>\<open>unpack\<close> with the matching format, a string with its length in
  front of the \<^verbatim>\<open>s\<close>, stores exactly the values that were packed, whatever follows in the buffer.
\<close>

theorem pack_unpack_roundtrip:
  assumes "\<forall>f \<in> set fs. field_ok f"
  shows "\<exists>bs sz. pack (pack_format fs) (map field_arg fs) = Inr (bs, sz) \<and>
           unpack (bs @ rest) (unpack_format fs) = Inr (map field_val fs)"
  using pack_fields [of fs] unpack_fields [OF assms, of rest] by auto

theorem pack_unpack_roundtrip_witness:
  "\<exists>bs sz. pack (lit ''iHs'') [ANum (word_of_int (-5)), ANum 3, AStr (lit ''key'')] = Inr (bs, sz) \<and>
     unpack (bs @ [9, 9]) (lit ''iH3s'') = Inr [VInt (-5), VUint 3, VStr (lit ''key'')]"
proof -
  let ?fs = "[Fi (-5), FH 3, Fs (lit ''key'')]"
  have "\<forall>f \<in> set ?fs. field_ok f" by (simp add: lit_def)
  moreover have "pack_format ?fs = lit ''iHs''" "unpack_format ?fs = lit ''iH3s''"
    by (simp_all add: pack_format_def unpack_format_def unpack_conv_def lit_def dec_digits.simps)
  ultimately show ?thesis using pack_unpack_roundtrip [of ?fs "[9, 9]"] by simp
qed

text \<open>
  The fixed-width conversions: \<^verbatim>\<open>htonll\<close> and \<^verbatim>\<open>packi64\<close> write the same bytes, \<^verbatim>\<open>ntohll\<close> and
  \<^verbatim>\<open>unpacku64\<close> read the same number, and each unsigned reading gives back what was written.
\<close>

theorem big_endian_roundtrip:
  "htonll v = packi64 v \<and> ntohll (htonll v @ rest) = Inr v \<and> unpacku64 (packi64 v @ rest) = Inr v \<and>
   unpacku32 (packi32 w @ rest) = Inr (ucast w) \<and> unpacku16 (packi16 u @ rest) = Inr (ucast u)"
  by (simp add: htonll_packi64 ntohll_unpacku64 unpacku64_packi64 unpacku32_packi32 unpacku16_packi16)

text \<open>
  Strings carry no length of their own: packing strings one after the other gives the same
  bytes as packing their concatenation, and the size \<^verbatim>\<open>pack\<close> returns counts none of them, although
  its comment says that a 16-bit length is prepended.
\<close>

theorem pack_strings_unframed:
  "pack (lit ''ss'') [AStr s, AStr t] = Inr (s @ t, 0) \<and> pack (lit ''s'') [AStr (s @ t)] = Inr (s @ t, 0)"
  by (simp add: lit_def ch_def arg_str_def)

end
