(* ===== verification/Tdb_Config.thy ===== *)
theory Tdb_Config
  imports Tdb_Util
begin

text \<open>
  The configuration of \<^verbatim>\<open>src/config.c\<close>: the record of settings, the reading of sizes and times with a
  unit and their printing, and the parsing of a configuration file. The value of \<^verbatim>\<open>SOMAXCONN\<close> is a
  constant of the system and a parameter here, as is the descriptor \<^verbatim>\<open>eventfd\<close> returns.
\<close>

definition STANDALONE :: int where "STANDALONE = 0"
definition CLUSTER :: int where "CLUSTER = 1"
definition UNIX :: int where "UNIX = 0"
definition INET :: int where "INET = 1"

definition DEBUG :: byte where "DEBUG = 0"
definition INFORMATION :: byte where "INFORMATION = 1"
definition WARNING :: byte where "WARNING = 2"
definition ERROR :: byte where "ERROR = 3"

record config =
  cf_version :: cstring
  cf_mode :: int
  cf_run :: byte
  cf_loglevel :: byte
  cf_epoll_timeout :: int
  cf_socket_family :: int
  cf_logpath :: cstring
  cf_hostname :: cstring
  cf_port :: cstring
  cf_max_memory :: u64
  cf_mem_reclaim_time :: u64
  cf_max_request_size :: u64
  cf_tcp_backlog :: int

definition lmap :: "(cstring \<times> byte) list" where
  "lmap = [(lit ''DEBUG'', DEBUG), (lit ''WARNING'', WARNING), (lit ''ERROR'', ERROR),
           (lit ''INFO'', INFORMATION), (lit ''INFORMATION'', INFORMATION)]"

subsection \<open>Sizes and times\<close>

definition read_memory_with_mul :: "cstring \<Rightarrow> u64 cres" where
  "read_memory_with_mul memory_string =
     bindE (parse_int memory_string) (\<lambda>num.
       let rest = dropWhile isdigit memory_string;
           mul = (if STREQ rest (lit ''kb'') 2 then 1024
                  else if STREQ rest (lit ''mb'') 2 then 1024 * 1024
                  else if STREQ rest (lit ''gb'') 2 then 1024 * 1024 * 1024
                  else 1)
       in Inr (of_int num * mul))"

definition read_time_with_mul :: "cstring \<Rightarrow> u64 cres" where
  "read_time_with_mul time_string =
     bindE (parse_int time_string) (\<lambda>num.
       let rest = dropWhile isdigit time_string;
           mul = (case rest of
                    [] \<Rightarrow> 1
                  | c # _ \<Rightarrow> if c = of_char CHR ''m'' then 60
                             else if c = of_char CHR ''d'' then 60 * 60 * 24 else 1)
       in Inr (of_int num * mul))"

text \<open>
  \<^verbatim>\<open>snprintf\<close> with the \<^verbatim>\<open>%d\<close> conversion and a suffix into a buffer of \<open>n\<close> bytes: at most \<open>n - 1\<close>
  bytes and a NUL. The number is the size converted to an int.
\<close>

definition u64_to_int :: "u64 \<Rightarrow> int" where
  "u64_to_int w = signed_take_bit 31 (uint w)"

definition snprintf_d :: "int \<Rightarrow> int \<Rightarrow> cstring \<Rightarrow> cstring" where
  "snprintf_d n num suffix = take (nat (n - 1)) (sprintf_d num @ suffix)"

definition memory_to_string :: "u64 \<Rightarrow> cstring" where
  "memory_to_string mem =
     (if mem < 1024 then
        (let translated_memory = u64_to_int mem; numlen = number_len (of_int translated_memory)
         in snprintf_d (numlen + 1) translated_memory (lit ''b''))
      else if mem < 1048576 then
        (let translated_memory = u64_to_int (mem div 1024); numlen = number_len (of_int translated_memory)
         in snprintf_d (numlen + 2) translated_memory (lit ''Kb''))
      else if mem < 1073741824 then
        (let translated_memory = u64_to_int (mem div (1024 * 1024));
             numlen = number_len (of_int translated_memory)
         in snprintf_d (numlen + 2) translated_memory (lit ''Mb''))
      else
        (let translated_memory = u64_to_int (mem div (1024 * 1024 * 1024));
             numlen = number_len (of_int translated_memory)
         in snprintf_d (numlen + 2) translated_memory (lit ''Gb'')))"

definition time_to_string :: "u64 \<Rightarrow> cstring" where
  "time_to_string time =
     (if time < 60 then
        (let translated_time = u64_to_int time; numlen = number_len (of_int translated_time)
         in snprintf_d (numlen + 1) translated_time (lit ''s''))
      else if time < 60 * 60 then
        (let translated_time = u64_to_int (time div 60); numlen = number_len (of_int translated_time)
         in snprintf_d (numlen + 1) translated_time (lit ''m''))
      else if time < 60 * 60 * 24 then
        (let translated_time = u64_to_int (time div (60 * 60)); numlen = number_len (of_int translated_time)
         in snprintf_d (numlen + 1) translated_time (lit ''h''))
      else
        (let translated_time = u64_to_int (time div (60 * 60 * 24));
             numlen = number_len (of_int translated_time)
         in snprintf_d (numlen + 1) translated_time (lit ''d'')))"

subsection \<open>Settings\<close>

text \<open>The loop over the first three levels: every match sets the level, the last one wins.\<close>

fun set_loglevel :: "(cstring \<times> byte) list \<Rightarrow> cstring \<Rightarrow> byte \<Rightarrow> byte" where
  "set_loglevel [] val level = level"
| "set_loglevel ((lname, l) # ls) val level =
     set_loglevel ls val (if STREQ lname val (length val) then l else level)"

text \<open>
  \<^verbatim>\<open>strcpy\<close> into one of the 255-byte arrays of the record. In the \<^verbatim>\<open>mode\<close> branch the macro \<^verbatim>\<open>STREQ\<close> is
  used inside a conditional: \<^verbatim>\<open>c ? true : false ? STANDALONE : CLUSTER\<close> groups to the right.
\<close>

definition strcpy255 :: "cstring \<Rightarrow> cstring cres" where
  "strcpy255 val = (if length val + 1 \<le> 255 then Inr val else Inl OutOfBounds)"

definition add_config_value :: "int \<Rightarrow> cstring \<Rightarrow> cstring \<Rightarrow> config \<Rightarrow> config cres" where
  "add_config_value SOMAXCONN key val config =
     (let klen = length key in
      if STREQ (lit ''log_level'') key klen then
        Inr (config\<lparr> cf_loglevel := set_loglevel (take 3 lmap) val (cf_loglevel config) \<rparr>)
      else if STREQ (lit ''log_path'') key klen then
        bindE (strcpy255 val) (\<lambda>v. Inr (config\<lparr> cf_logpath := v \<rparr>))
      else if STREQ (lit ''unix_socket'') key klen then
        bindE (strcpy255 val) (\<lambda>v. Inr (config\<lparr> cf_socket_family := UNIX, cf_hostname := v \<rparr>))
      else if STREQ (lit ''ip_address'') key klen then
        bindE (strcpy255 val) (\<lambda>v. Inr (config\<lparr> cf_socket_family := INET, cf_hostname := v \<rparr>))
      else if STREQ (lit ''ip_port'') key klen then
        bindE (strcpy255 val) (\<lambda>v. Inr (config\<lparr> cf_port := v \<rparr>))
      else if STREQ (lit ''max_memory'') key klen then
        bindE (read_memory_with_mul val) (\<lambda>m. Inr (config\<lparr> cf_max_memory := m \<rparr>))
      else if STREQ (lit ''mem_reclaim_time'') key klen then
        bindE (read_time_with_mul val) (\<lambda>t. Inr (config\<lparr> cf_mem_reclaim_time := t \<rparr>))
      else if STREQ (lit ''max_request_size'') key klen then
        bindE (read_memory_with_mul val) (\<lambda>m. Inr (config\<lparr> cf_max_request_size := m \<rparr>))
      else if STREQ (lit ''tcp_backlog'') key klen then
        bindE (parse_int val) (\<lambda>tcp_backlog.
          Inr (config\<lparr> cf_tcp_backlog := (if tcp_backlog \<le> SOMAXCONN then tcp_backlog else SOMAXCONN) \<rparr>))
      else if STREQ (lit ''mode'') key klen then
        (let mode = (if STREQ val (lit ''STANDALONE'') 10 then 1
                     else if False then STANDALONE else CLUSTER)
         in Inr (config\<lparr> cf_mode := mode \<rparr>))
      else Inr config)"

definition isspace :: "byte \<Rightarrow> bool" where
  "isspace c \<longleftrightarrow> c = 32 \<or> (9 \<le> c \<and> c \<le> 13)"

definition strip_spaces :: "cstring \<Rightarrow> cstring" where
  "strip_spaces str = dropWhile isspace str"

text \<open>\<^verbatim>\<open>unpack_bytes\<close>: the bytes copied and the string left.\<close>

definition unpack_bytes :: "cstring \<Rightarrow> cstring \<times> cstring" where
  "unpack_bytes str = (takeWhile (\<lambda>c. \<not> isspace c) str, dropWhile (\<lambda>c. \<not> isspace c) str)"

text \<open>
  \<^verbatim>\<open>fgets(line, 0xff, fh)\<close>: at most 254 bytes, up to and including a newline; \<open>None\<close> at the end of the
  file.
\<close>

fun fgets_upto :: "nat \<Rightarrow> bytes \<Rightarrow> bytes \<times> bytes" where
  "fgets_upto 0 inp = ([], inp)"
| "fgets_upto (Suc n) [] = ([], [])"
| "fgets_upto (Suc n) (c # inp) =
     (if c = 10 then ([c], inp) else (let (line, rest) = fgets_upto n inp in (c # line, rest)))"

definition fgets :: "bytes \<Rightarrow> (bytes \<times> bytes) option" where
  "fgets inp = (if inp = [] then None else Some (fgets_upto 254 inp))"

text \<open>One round of the loop of \<^verbatim>\<open>config_load\<close>, on the C string in the line buffer.\<close>

definition config_line :: "int \<Rightarrow> bytes \<Rightarrow> config \<Rightarrow> config cres" where
  "config_line SOMAXCONN buf config =
     (let line = c_string buf in
      if line \<noteq> [] \<and> hd line = of_char CHR ''#'' then Inr config
      else
        let pline = strip_spaces line in
        if pline = [] then Inr config
        else
          let (key, pline1) = unpack_bytes pline;
              pline2 = strip_spaces pline1
          in if line = [] then Inr config
             else let (val, pline3) = unpack_bytes pline2 in add_config_value SOMAXCONN key val config)"

lemma fgets_upto_length: "length (snd (fgets_upto n inp)) \<le> length inp"
  by (induction n inp rule: fgets_upto.induct) (auto split: prod.splits)

lemma fgets_upto_shorter: "inp \<noteq> [] \<Longrightarrow> length (snd (fgets_upto (Suc n) inp)) < length inp"
proof (cases inp)
  case (Cons c cs)
  then show ?thesis using fgets_upto_length [of n cs] by (auto split: prod.split)
qed simp

lemma fgets_shorter: "fgets inp = Some (line, rest) \<Longrightarrow> length rest < length inp"
  using fgets_upto_shorter [of inp 253] by (auto simp: fgets_def split: if_splits)

function config_lines :: "int \<Rightarrow> bytes \<Rightarrow> config \<Rightarrow> config cres" where
  "config_lines SOMAXCONN inp config =
     (case fgets inp of
        None \<Rightarrow> Inr config
      | Some (line, rest) \<Rightarrow>
          bindE (config_line SOMAXCONN line config) (\<lambda>config'. config_lines SOMAXCONN rest config'))"
  by pat_completeness auto
termination
  by (relation "measure (\<lambda>(s, inp, c). length inp)") (auto dest: fgets_shorter)

declare config_lines.simps [simp del]

text \<open>\<^verbatim>\<open>config_load\<close> on the content of the file, \<open>None\<close> if it cannot be opened.\<close>

definition config_load :: "int \<Rightarrow> bytes option \<Rightarrow> config \<Rightarrow> (bool \<times> config) cres" where
  "config_load SOMAXCONN fh config =
     (case fh of
        None \<Rightarrow> Inr (False, config)
      | Some inp \<Rightarrow> bindE (config_lines SOMAXCONN inp config) (\<lambda>config'. Inr (True, config')))"

definition config_set_default :: "int \<Rightarrow> byte \<Rightarrow> config cres" where
  "config_set_default SOMAXCONN efd =
     bindE (read_memory_with_mul (lit ''4GB'')) (\<lambda>max_memory.
     bindE (read_time_with_mul (lit ''1d'')) (\<lambda>mem_reclaim_time.
     bindE (read_memory_with_mul (lit ''2MB'')) (\<lambda>max_request_size.
       Inr \<lparr> cf_version = lit ''0.6.11'', cf_mode = STANDALONE, cf_run = efd,
             cf_loglevel = INFORMATION, cf_epoll_timeout = -1, cf_socket_family = INET,
             cf_logpath = lit ''/tmp/triedb.log'', cf_hostname = lit ''127.0.0.1'', cf_port = lit ''9090'',
             cf_max_memory = max_memory, cf_mem_reclaim_time = mem_reclaim_time,
             cf_max_request_size = max_request_size, cf_tcp_backlog = SOMAXCONN \<rparr>)))"


subsection \<open>Printed sizes and times\<close>

lemma parse_int_suffix:
  assumes "int n \<le> INT_MAX" and "suf = [] \<or> \<not> isdigit (hd suf)"
  shows "parse_int (dec_digits n @ suf) = Inr (int n)" "dropWhile isdigit (dec_digits n @ suf) = suf"
proof -
  have "parse_int_loop m suf = Inr m" for m using assms(2) by (cases suf) auto
  then show "parse_int (dec_digits n @ suf) = Inr (int n)"
    using assms(1) dec_digits_isdigit by (simp add: parse_int_def parse_int_loop_append parse_dec_digits)
  show "dropWhile isdigit (dec_digits n @ suf) = suf"
    using assms(2) dec_digits_isdigit by (cases suf) (auto simp: dropWhile_append2)
qed

lemma u64_to_int_small: "uint w < 2 ^ 31 \<Longrightarrow> u64_to_int w = uint w"
proof -
  assume w: "uint w < 2 ^ 31"
  have "- (2 ^ 31) \<le> (0 :: int)" by simp
  also have "0 \<le> uint w" by simp
  finally have "- (2 ^ 31) \<le> uint w" .
  with w show ?thesis using signed_take_bit_int_eq_self [of 31 "uint w"] by (simp add: u64_to_int_def)
qed

text \<open>A positive number with its unit is printed in full.\<close>

lemma print_number:
  assumes "0 < uint w" and "uint w < 2 ^ 31" and "length suf \<le> k"
  shows "(let n = u64_to_int w; numlen = number_len (of_int n) in snprintf_d (numlen + int k) n suf) =
           dec_digits (unat w) @ suf"
proof -
  have "w \<noteq> 0" using assms(1) by auto
  then have "number_len (of_int (uint w)) = 1 + int (length (dec_digits (unat w)))"
    by (simp add: number_len_def number_len_loop_digits)
  moreover have "sprintf_d (uint w) = dec_digits (unat w)" by (simp add: sprintf_d_def)
  ultimately show ?thesis
    using assms by (simp add: u64_to_int_small Let_def snprintf_d_def del: of_int_uint)
qed

lemma read_memory_suffix:
  assumes "uint w < 2 ^ 31"
  shows "read_memory_with_mul (dec_digits (unat w) @ lit ''b'') = Inr w"
    "read_memory_with_mul (dec_digits (unat w) @ lit ''Kb'') = Inr (w * 1024)"
    "read_memory_with_mul (dec_digits (unat w) @ lit ''Mb'') = Inr (w * (1024 * 1024))"
    "read_memory_with_mul (dec_digits (unat w) @ lit ''Gb'') = Inr (w * (1024 * 1024 * 1024))"
  using assms parse_int_suffix [of "unat w"]
  by (simp_all add: read_memory_with_mul_def Let_def lit_def isdigit_def INT_MAX_def STREQ_iff tolower_def)

lemma read_time_suffix:
  assumes "uint w < 2 ^ 31"
  shows "read_time_with_mul (dec_digits (unat w) @ lit ''s'') = Inr w"
    "read_time_with_mul (dec_digits (unat w) @ lit ''m'') = Inr (w * 60)"
    "read_time_with_mul (dec_digits (unat w) @ lit ''h'') = Inr w"
    "read_time_with_mul (dec_digits (unat w) @ lit ''d'') = Inr (w * (60 * 60 * 24))"
  using assms parse_int_suffix [of "unat w"]
  by (simp_all add: read_time_with_mul_def Let_def lit_def isdigit_def INT_MAX_def)


subsection \<open>Properties\<close>

definition memory_unit :: "u64 \<Rightarrow> u64" where
  "memory_unit m = (if m < 1024 then 1 else if m < 1048576 then 1024
     else if m < 1073741824 then 1024 * 1024 else 1024 * 1024 * 1024)"

lemma uint_div_bounds:
  fixes w u :: u64
  assumes "u \<le> w" and "0 < u" and "uint w < 2 ^ 31 * uint u"
  shows "0 < uint (w div u)" "uint (w div u) < 2 ^ 31"
proof -
  have u: "0 < uint u" using assms(2) by (simp add: word_less_def)
  with assms(1) show "0 < uint (w div u)"
    by (simp add: uint_div pos_imp_zdiv_pos_iff word_le_def)
  show "uint (w div u) < 2 ^ 31"
  proof (rule ccontr)
    assume "\<not> ?thesis"
    then have "2 ^ 31 * uint u \<le> uint w div uint u * uint u"
      using u by (simp add: uint_div)
    also have "\<dots> \<le> uint w" using u by (simp add: minus_mod_eq_div_mult [symmetric])
    finally show False using assms(3) by simp
  qed
qed

lemma memory_zero: "read_memory_with_mul (memory_to_string 0) = Inr 0" "read_time_with_mul (time_to_string 0) = Inr 0"
  by code_simp+

text \<open>
  Sizes round trip: reading back what \<^verbatim>\<open>memory_to_string\<close> prints gives the size rounded down to
  the unit it was printed in, for every size below 2 ^ 61 bytes.
\<close>

theorem memory_string_roundtrip:
  assumes "m < 2 ^ 61"
  shows "read_memory_with_mul (memory_to_string m) = Inr (m div memory_unit m * memory_unit m)"
proof -
  have ub: "uint m < 2 ^ 61" using assms by (simp add: word_less_def)
  consider "m = 0" | "0 < m" "m < 1024" | "1024 \<le> m" "m < 1048576" | "1048576 \<le> m" "m < 1073741824"
    | "1073741824 \<le> m" by (metis not_le word_neq_0_conv)
  then show ?thesis
  proof cases
    case 1
    then show ?thesis by (simp add: memory_zero)
  next
    case 2
    then have "0 < uint m" "uint m < 2 ^ 31" by (simp_all add: word_less_def)
    with print_number [of m "lit ''b''" 1] have "memory_to_string m = dec_digits (unat m) @ lit ''b''"
      using 2 by (simp add: memory_to_string_def lit_def)
    with 2 read_memory_suffix(1) \<open>uint m < 2 ^ 31\<close> show ?thesis by (simp add: memory_unit_def)
  next
    case 3
    let ?q = "m div 1024"
    have "0 < uint ?q" and q: "uint ?q < 2 ^ 31"
      using 3 by (intro uint_div_bounds; simp add: word_less_def)+
    moreover have "\<not> m < 1024" using 3(1) by (rule leD)
    ultimately have "memory_to_string m = dec_digits (unat ?q) @ lit ''Kb''"
      using 3 print_number [of ?q "lit ''Kb''" 2] by (simp add: memory_to_string_def lit_def)
    with 3 \<open>\<not> m < 1024\<close> read_memory_suffix(2) [OF q] show ?thesis by (simp add: memory_unit_def)
  next
    case 4
    let ?q = "m div (1024 * 1024)"
    have "0 < uint ?q" and q: "uint ?q < 2 ^ 31"
      using 4 by (intro uint_div_bounds; simp add: word_less_def)+
    moreover have n: "\<not> m < 1024" "\<not> m < 1048576" using 4(1) by (auto dest: le_less_trans)
    ultimately have "memory_to_string m = dec_digits (unat ?q) @ lit ''Mb''"
      using 4 print_number [of ?q "lit ''Mb''" 2] by (simp add: memory_to_string_def lit_def)
    with 4 n read_memory_suffix(3) [OF q] show ?thesis by (simp add: memory_unit_def)
  next
    case 5
    let ?q = "m div (1024 * 1024 * 1024)"
    have "0 < uint ?q" and q: "uint ?q < 2 ^ 31"
      using 5 ub by (intro uint_div_bounds; simp add: word_less_def)+
    moreover have n: "\<not> m < 1024" "\<not> m < 1048576" "\<not> m < 1073741824" using 5 by (auto dest: le_less_trans)
    ultimately have "memory_to_string m = dec_digits (unat ?q) @ lit ''Gb''"
      using print_number [of ?q "lit ''Gb''" 2] by (simp add: memory_to_string_def lit_def)
    with n read_memory_suffix(4) [OF q] show ?thesis by (simp add: memory_unit_def)
  qed
qed


theorem memory_string_roundtrip_witness:
  "read_memory_with_mul (memory_to_string 5000000) = Inr 4194304"
  using memory_string_roundtrip [of 5000000] by (simp add: memory_unit_def)

text \<open>
  Times do not round trip: what \<^verbatim>\<open>time_to_string\<close> prints for a time of one hour up to a day is read
  back as that many seconds, because \<^verbatim>\<open>read_time_with_mul\<close> does not know the unit \<^verbatim>\<open>h\<close>; shorter and
  longer times are read back rounded down to their unit.
\<close>

theorem time_string_roundtrip:
  assumes "t < 2 ^ 46"
  shows "read_time_with_mul (time_to_string t) =
           Inr (if t < 60 then t else if t < 60 * 60 then t div 60 * 60
                else if t < 60 * 60 * 24 then t div (60 * 60)
                else t div (60 * 60 * 24) * (60 * 60 * 24))"
proof -
  have ub: "uint t < 2 ^ 46" using assms by (simp add: word_less_def)
  consider "t = 0" | "0 < t" "t < 60" | "60 \<le> t" "t < 60 * 60" | "60 * 60 \<le> t" "t < 60 * 60 * 24"
    | "60 * 60 * 24 \<le> t" by (metis not_le word_neq_0_conv)
  then show ?thesis
  proof cases
    case 1
    then show ?thesis by (simp add: memory_zero)
  next
    case 2
    then have q: "0 < uint t" "uint t < 2 ^ 31" by (simp_all add: word_less_def)
    with print_number [of t "lit ''s''" 1] 2 have "time_to_string t = dec_digits (unat t) @ lit ''s''"
      by (simp add: time_to_string_def lit_def)
    with 2 read_time_suffix(1) [OF q(2)] show ?thesis by simp
  next
    case 3
    let ?q = "t div 60"
    have "0 < uint ?q" and q: "uint ?q < 2 ^ 31"
      using 3 by (intro uint_div_bounds; simp add: word_less_def)+
    moreover have "\<not> t < 60" using 3(1) by (rule leD)
    ultimately have "time_to_string t = dec_digits (unat ?q) @ lit ''m''"
      using 3 print_number [of ?q "lit ''m''" 1] by (simp add: time_to_string_def lit_def)
    with 3 \<open>\<not> t < 60\<close> read_time_suffix(2) [OF q] show ?thesis by simp
  next
    case 4
    let ?q = "t div (60 * 60)"
    have "0 < uint ?q" and q: "uint ?q < 2 ^ 31"
      using 4 by (intro uint_div_bounds; simp add: word_less_def)+
    moreover have "\<not> t < 60" "\<not> t < 60 * 60" using 4(1) by (auto dest: le_less_trans)
    ultimately have "time_to_string t = dec_digits (unat ?q) @ lit ''h''"
      using 4 print_number [of ?q "lit ''h''" 1] by (simp add: time_to_string_def lit_def)
    with 4 \<open>\<not> t < 60\<close> \<open>\<not> t < 60 * 60\<close> read_time_suffix(3) [OF q] show ?thesis by simp
  next
    case 5
    let ?q = "t div (60 * 60 * 24)"
    have "0 < uint ?q" and q: "uint ?q < 2 ^ 31"
      using 5 ub by (intro uint_div_bounds; simp add: word_less_def)+
    moreover have n: "\<not> t < 60" "\<not> t < 60 * 60" "\<not> t < 60 * 60 * 24" using 5 by (auto dest: le_less_trans)
    ultimately have "time_to_string t = dec_digits (unat ?q) @ lit ''d''"
      using 5 print_number [of ?q "lit ''d''" 1] by (simp add: time_to_string_def lit_def)
    with 5 n read_time_suffix(4) [OF q] show ?thesis by simp
  qed
qed

theorem time_string_roundtrip_witness: "read_time_with_mul (time_to_string 7200) = Inr 2"
  using time_string_roundtrip [of 7200] by simp

text \<open>
  The run mode cannot be configured: whatever value a \<^verbatim>\<open>mode\<close> line has, \<^verbatim>\<open>STANDALONE\<close> included, the
  mode becomes CLUSTER, and nothing else changes.
\<close>

theorem config_mode_always_cluster:
  "add_config_value SOMAXCONN (lit ''mode'') val config = Inr (config\<lparr> cf_mode := CLUSTER \<rparr>)"
  by (simp add: add_config_value_def lit_def STREQ_iff tolower_def CLUSTER_def)

text \<open>
  The log level \<^verbatim>\<open>INFO\<close> (and \<^verbatim>\<open>INFORMATION\<close>) is not recognised in a configuration, because only the
  first three levels are compared.
\<close>

theorem config_loglevel_info_ignored:
  "add_config_value SOMAXCONN (lit ''log_level'') (lit ''INFO'') config = Inr config \<and>
   add_config_value SOMAXCONN (lit ''log_level'') (lit ''INFORMATION'') config = Inr config \<and>
   add_config_value SOMAXCONN (lit ''log_level'') (lit ''ERROR'') config = Inr (config\<lparr> cf_loglevel := ERROR \<rparr>)"
  by (simp add: add_config_value_def lit_def STREQ_iff tolower_def lmap_def ERROR_def)

text \<open>Configuration lines of two words.\<close>

definition word_ok :: "cstring \<Rightarrow> bool" where
  "word_ok w \<longleftrightarrow> w \<noteq> [] \<and> (\<forall>c \<in> set w. \<not> isspace c \<and> c \<noteq> 0)"

definition conf_line :: "cstring \<times> cstring \<Rightarrow> bytes" where
  "conf_line kv = fst kv @ 32 # snd kv @ [10]"

definition conf_line_ok :: "cstring \<times> cstring \<Rightarrow> bool" where
  "conf_line_ok kv \<longleftrightarrow> word_ok (fst kv) \<and> word_ok (snd kv) \<and> hd (fst kv) \<noteq> of_char CHR ''#'' \<and>
     length (fst kv) + length (snd kv) \<le> 252"

lemma fgets_upto_line:
  "\<forall>c \<in> set l. c \<noteq> 10 \<Longrightarrow> length l < n \<Longrightarrow> fgets_upto n (l @ 10 # rest) = (l @ [10], rest)"
proof (induction l arbitrary: n)
  case Nil
  then show ?case by (cases n) auto
next
  case (Cons c l)
  then show ?case by (cases n) auto
qed

lemma word_ok_split:
  assumes "word_ok w" and "isspace c"
  shows "takeWhile (\<lambda>c. \<not> isspace c) (w @ c # r) = w" "dropWhile (\<lambda>c. \<not> isspace c) (w @ c # r) = c # r"
    "dropWhile isspace (w @ c # r) = w @ c # r"
proof -
  show "takeWhile (\<lambda>c. \<not> isspace c) (w @ c # r) = w" "dropWhile (\<lambda>c. \<not> isspace c) (w @ c # r) = c # r"
    using assms by (auto simp: word_ok_def takeWhile_append2 dropWhile_append2)
  show "dropWhile isspace (w @ c # r) = w @ c # r"
    using assms(1) by (cases w) (auto simp: word_ok_def)
qed

lemma config_line_words:
  assumes "conf_line_ok (k, v)"
  shows "config_line SOMAXCONN (conf_line (k, v)) config = add_config_value SOMAXCONN k v config"
proof -
  from assms have kv: "word_ok k" "word_ok v" "hd k \<noteq> of_char CHR ''#''" by (auto simp: conf_line_ok_def)
  have sp: "isspace 32" "isspace 10" by (simp_all add: isspace_def)
  have "0 \<notin> set (conf_line (k, v))" using kv by (auto simp: conf_line_def word_ok_def)
  then have "c_string (conf_line (k, v)) = k @ 32 # v @ [10]"
    by (simp add: c_string_id conf_line_def del: set_append)
  moreover have "hd (k @ 32 # v @ [10]) = hd k" using kv(1) by (simp add: word_ok_def)
  moreover have "dropWhile isspace (32 # v @ [10]) = v @ [10]"
    using sp word_ok_split(3) [OF kv(2) sp(2), of "[]"] by simp
  ultimately show ?thesis
    using kv(3) word_ok_split [OF kv(1) sp(1), of "v @ [10]"] word_ok_split [OF kv(2) sp(2), of "[]"]
    by (simp add: config_line_def strip_spaces_def unpack_bytes_def Let_def)
qed

lemma fgets_conf_line:
  assumes "conf_line_ok kv"
  shows "fgets (conf_line kv @ rest) = Some (conf_line kv, rest)"
proof -
  have "\<forall>c \<in> set (fst kv @ 32 # snd kv). c \<noteq> 10" "length (fst kv @ 32 # snd kv) < 254"
    using assms by (auto simp: conf_line_ok_def word_ok_def isspace_def)
  from fgets_upto_line [OF this, of rest] show ?thesis
    by (simp add: fgets_def conf_line_def)
qed

lemma config_lines_words:
  "\<forall>kv \<in> set kvs. conf_line_ok kv \<Longrightarrow>
     config_lines SOMAXCONN (concat (map conf_line kvs)) config =
       foldE (\<lambda>c kv. add_config_value SOMAXCONN (fst kv) (snd kv) c) config kvs"
proof (induction kvs arbitrary: config)
  case Nil
  then show ?case by (simp add: config_lines.simps [of _ "[]"] fgets_def)
next
  case (Cons kv kvs)
  have kv: "conf_line_ok kv" using Cons.prems by simp
  have "config_line SOMAXCONN (conf_line kv) config = add_config_value SOMAXCONN (fst kv) (snd kv) config"
    using config_line_words [of "fst kv" "snd kv"] kv by simp
  then have "config_lines SOMAXCONN (conf_line kv @ concat (map conf_line kvs)) config =
      bindE (add_config_value SOMAXCONN (fst kv) (snd kv) config)
        (config_lines SOMAXCONN (concat (map conf_line kvs)))"
    using fgets_conf_line [OF kv, of "concat (map conf_line kvs)"]
    by (subst config_lines.simps) simp
  with Cons show ?case by (simp cong: bindE_cong)
qed

text \<open>
  A configuration file of \<^verbatim>\<open>key value\<close> lines is read line by line: each line of at most 254 bytes
  with its newline, neither word empty or with a space or NUL in it, and the key not starting with
  the comment mark, is one call of \<^verbatim>\<open>add_config_value\<close> with the two words, in the order of the file.
\<close>

theorem config_load_lines:
  assumes "\<forall>kv \<in> set kvs. conf_line_ok kv"
  shows "config_load SOMAXCONN (Some (concat (map conf_line kvs))) config =
           bindE (foldE (\<lambda>c kv. add_config_value SOMAXCONN (fst kv) (snd kv) c) config kvs) (\<lambda>c. Inr (True, c))"
  using config_lines_words [OF assms] by (simp add: config_load_def)

theorem config_load_lines_witness:
  "bindE (config_set_default 4096 7) (config_load 4096 (Some (lit ''ip_port 80'' @ [10] @ lit ''max_memory 2GB'' @ [10]))) =
     bindE (config_set_default 4096 7) (\<lambda>c. Inr (True, c\<lparr> cf_port := lit ''80'', cf_max_memory := 2147483648 \<rparr>))"
proof -
  let ?kvs = "[(lit ''ip_port'', lit ''80''), (lit ''max_memory'', lit ''2GB'')]"
  have ok: "\<forall>kv \<in> set ?kvs. conf_line_ok kv"
    by (simp add: conf_line_ok_def word_ok_def lit_def isspace_def)
  have eq: "lit ''ip_port 80'' @ [10] @ lit ''max_memory 2GB'' @ [10] = concat (map conf_line ?kvs)"
    by (simp add: conf_line_def lit_def)
  have "foldE (\<lambda>c kv. add_config_value 4096 (fst kv) (snd kv) c) c ?kvs =
      Inr (c\<lparr> cf_port := lit ''80'', cf_max_memory := 2147483648 \<rparr>)" for c :: config
    by (simp add: add_config_value_def lit_def STREQ_iff tolower_def strcpy255_def read_memory_with_mul_def
        parse_int_def isdigit_def c_int_def INT_MIN_def INT_MAX_def)
  then have "config_load 4096 (Some (concat (map conf_line ?kvs))) c =
      Inr (True, c\<lparr> cf_port := lit ''80'', cf_max_memory := 2147483648 \<rparr>)" for c
    using config_load_lines [OF ok, of 4096 c] by (simp only: bindE.simps)
  then show ?thesis unfolding eq by (intro bindE_cong refl)
qed

end
