(* ===== verification/Tdb_Protocol.thy ===== *)
theory Tdb_Protocol
  imports Tdb_Db Tdb_Pack Tdb_Config
begin

unbundle bit_operations_syntax

text \<open>
  The wire protocol of \<^verbatim>\<open>src/protocol.c\<close>: the variable-length size field, the unpacking of requests
  and the packing of responses. The unions of the source are datatypes with one constructor per
  variant that is written. A buffer that is filled piece by piece is the list of its bytes, and a
  write outside it is a fault.
\<close>

subsection \<open>Headers\<close>

text \<open>The bit fields of \<^verbatim>\<open>union header\<close>, as a little-endian compiler lays them out.\<close>

definition hdr_opcode :: "byte \<Rightarrow> nat" where "hdr_opcode b = unat (drop_bit 4 b)"
definition hdr_prefix :: "byte \<Rightarrow> bool" where "hdr_prefix b \<longleftrightarrow> bit b 3"
definition hdr_sync :: "byte \<Rightarrow> bool" where "hdr_sync b \<longleftrightarrow> bit b 2"
definition hdr_request :: "byte \<Rightarrow> bool" where "hdr_request b \<longleftrightarrow> bit b 1"

definition OK :: byte where "OK = 0"
definition NOK :: byte where "NOK = 1"
definition EOOM :: byte where "EOOM = 1"

definition MAX_LEN_BYTES :: nat where "MAX_LEN_BYTES = 4"

subsection \<open>Remaining length\<close>

text \<open>\<^verbatim>\<open>encode_length\<close>: the bytes written; their number is what the function returns.\<close>

function encode_length_loop :: "nat \<Rightarrow> u64 \<Rightarrow> bytes" where
  "encode_length_loop bs len =
     (if bs + 1 > MAX_LEN_BYTES then []
      else
        let d = len mod 128; len' = len div 128
        in if len' > 0 then (ucast d OR 0x80) # encode_length_loop (bs + 1) len' else [ucast d])"
  by pat_completeness auto
termination
  by (relation "measure (\<lambda>(bs, len). MAX_LEN_BYTES - bs)") auto

declare encode_length_loop.simps [simp del]

definition encode_length :: "u64 \<Rightarrow> bytes" where
  "encode_length len = encode_length_loop 0 len"

text \<open>
  \<^verbatim>\<open>decode_length\<close>: the value, the number of bytes read and the bytes left. The multiplier and the
  product with it are signed ints.
\<close>

fun decode_length_loop :: "bytes \<Rightarrow> int \<Rightarrow> u64 \<Rightarrow> nat \<Rightarrow> (u64 \<times> nat \<times> bytes) cres" where
  "decode_length_loop [] multiplier val pos = Inl OutOfBounds"
| "decode_length_loop (c # buf) multiplier val pos =
     bindE (c_int (uint (c AND 127) * multiplier)) (\<lambda>x.
     bindE (c_int (multiplier * 128)) (\<lambda>multiplier'.
       if c AND 128 \<noteq> 0 then decode_length_loop buf multiplier' (val + of_int x) (pos + 1)
       else Inr (val + of_int x, pos + 1, buf)))"

definition decode_length :: "bytes \<Rightarrow> (u64 \<times> nat \<times> bytes) cres" where
  "decode_length buf = decode_length_loop buf 1 0 0"

subsection \<open>Requests\<close>

datatype triedb_request =
    ReqPut (rq_header: byte) (rq_ttl: int) (rq_keylen: u16) (rq_key: bytes) (rq_val: bytes)
  | ReqGet (rq_header: byte) (rq_key: bytes)
  | ReqTtl (rq_header: byte) (rq_ttl: int) (rq_key: bytes)
  | ReqCnt (rq_header: byte) (rq_prefix: "bytes option")
  | ReqAck (rq_header: byte) (rq_rc: byte)

text \<open>
  A block for a string of unknown size: \<^verbatim>\<open>tmalloc\<close> asserts a positive size, adds 8 for its header,
  which can wrap around and then is written outside the block, and \<^verbatim>\<open>malloc\<close> returns NULL for a size
  above \<^verbatim>\<open>PTRDIFF_MAX\<close>, which is then written through.
\<close>

definition string_block :: "u64 \<Rightarrow> unit cres" where
  "string_block sz =
     (if sz = 0 then Inl AssertFailed
      else if sz + 8 < sz then Inl OutOfBounds
      else if sz + 8 > 2 ^ 63 - 1 then Inl NullDeref
      else Inr ())"

text \<open>
  The format string is built in an array of the given size; the lengths in it are printed as signed
  longs.
\<close>

definition fmt_fits :: "nat \<Rightarrow> cstring \<Rightarrow> cstring cres" where
  "fmt_fits cap fmt = (if length fmt + 1 \<le> cap then Inr fmt else Inl OutOfBounds)"

definition unpack_triedb_put :: "bytes \<Rightarrow> byte \<Rightarrow> u64 \<Rightarrow> triedb_request cres" where
  "unpack_triedb_put raw hdr len =
     bindE (unpack raw (lit ''iH'')) (\<lambda>vs.
       case vs of
         [VInt ttl, VUint klen] \<Rightarrow>
           let keylen = ucast klen :: u16;
               pkt_len = len - (4 + 2 + ucast keylen)
           in bindE (fmt_fits 32 (sprintf_d (uint keylen) @ lit ''s'' @ sprintf_d (sint pkt_len) @ lit ''s'')) (\<lambda>fmt.
              bindE (string_block (ucast keylen + 1)) (\<lambda>_.
              bindE (string_block (pkt_len + 1)) (\<lambda>_.
              bindE (unpack (drop 6 raw) fmt) (\<lambda>ws.
                case ws of
                  [VStr key, VStr val] \<Rightarrow> Inr (ReqPut hdr ttl keylen key val)
                | _ \<Rightarrow> Inl OutOfBounds))))
       | _ \<Rightarrow> Inl OutOfBounds)"

definition unpack_triedb_get :: "bytes \<Rightarrow> byte \<Rightarrow> u64 \<Rightarrow> triedb_request cres" where
  "unpack_triedb_get raw hdr len =
     bindE (string_block (len + 1)) (\<lambda>_.
     bindE (fmt_fits 10 (sprintf_d (sint len) @ lit ''s'')) (\<lambda>fmt.
     bindE (unpack raw fmt) (\<lambda>vs.
       case vs of [VStr key] \<Rightarrow> Inr (ReqGet hdr key) | _ \<Rightarrow> Inl OutOfBounds)))"

definition unpack_triedb_ack :: "bytes \<Rightarrow> byte \<Rightarrow> u64 \<Rightarrow> triedb_request cres" where
  "unpack_triedb_ack raw hdr len =
     bindE (unpack raw (lit ''BB'')) (\<lambda>vs.
       case vs of [VUint skipped, VUint rc] \<Rightarrow> Inr (ReqAck hdr (ucast rc)) | _ \<Rightarrow> Inl OutOfBounds)"

definition unpack_triedb_join :: "bytes \<Rightarrow> byte \<Rightarrow> u64 \<Rightarrow> triedb_request cres" where
  "unpack_triedb_join raw hdr len =
     bindE (unpack raw (lit ''BB'')) (\<lambda>vs.
       case vs of [VUint skipped, VUint rc] \<Rightarrow> Inr (ReqAck hdr (ucast rc)) | _ \<Rightarrow> Inl OutOfBounds)"

definition unpack_handlers :: "(bytes \<Rightarrow> byte \<Rightarrow> u64 \<Rightarrow> triedb_request cres) option list" where
  "unpack_handlers =
     [None, Some unpack_triedb_put, Some unpack_triedb_get, Some unpack_triedb_get,
      None, None, None, None, None, None, None, None, None,
      Some unpack_triedb_ack, Some unpack_triedb_ack, Some unpack_triedb_join]"

definition unpack_triedb_request :: "bytes \<Rightarrow> byte \<Rightarrow> u64 \<Rightarrow> triedb_request cres" where
  "unpack_triedb_request raw opcode len =
     (case unpack_handlers ! hdr_opcode opcode of
        None \<Rightarrow> Inl NullCall
      | Some handler \<Rightarrow> handler raw opcode len)"

subsection \<open>Responses\<close>

record tuple =
  tp_ttl :: int
  tp_keylen :: u16
  tp_key :: cstring
  tp_val :: "cstring option"

datatype triedb_response =
    AckRes byte byte
  | CntRes byte u64
  | GetRes byte tuple
  | GetPrefixRes byte u16 "tuple list"
  | JoinRes byte u16 "tuple list"

definition ack_response :: "byte \<Rightarrow> byte \<Rightarrow> triedb_response" where
  "ack_response b rc = AckRes b rc"

definition cnt_response :: "byte \<Rightarrow> u64 \<Rightarrow> triedb_response" where
  "cnt_response b val = CntRes b val"

text \<open>The tuples of a range query, one for each key found; an array of none is a failed assertion.\<close>

definition kv_tuple :: "db_item heap \<Rightarrow> kv_obj Vector \<Rightarrow> nat \<Rightarrow> tuple cres" where
  "kv_tuple h v i =
     bindE (vector_get v (int i)) (\<lambda>p.
       case p of
         None \<Rightarrow> Inl NullDeref
       | Some (key, a) \<Rightarrow>
           bindE (obj_read h a) (\<lambda>item.
             Inr \<lparr> tp_ttl = di_ttl item, tp_keylen = of_nat (length key), tp_key = key,
                   tp_val = di_data item \<rparr>))"

definition kv_tuples :: "db_item heap \<Rightarrow> kv_obj Vector \<Rightarrow> tuple list cres" where
  "kv_tuples h v =
     (if v_size v = 0 then Inl AssertFailed
      else foldE (\<lambda>ts i. bindE (kv_tuple h v i) (\<lambda>t. Inr (ts @ [t]))) [] [0..<vector_size v])"

datatype get_arg = ArgVector "kv_obj Vector" | ArgTuple tuple

text \<open>
  \<^verbatim>\<open>get_response\<close> casts its argument by the prefix bit of the header; the wrong kind of argument is a
  read of memory of another type.
\<close>

definition get_response :: "byte \<Rightarrow> get_arg \<Rightarrow> db_item heap \<Rightarrow> triedb_response cres" where
  "get_response b arg h =
     (if hdr_prefix b then
        (case arg of
           ArgVector tuples \<Rightarrow>
             bindE (kv_tuples h tuples) (\<lambda>ts. Inr (GetPrefixRes b (of_nat (v_size tuples)) ts))
         | ArgTuple t \<Rightarrow> Inl OutOfBounds)
      else
        (case arg of
           ArgTuple t \<Rightarrow> Inr (GetRes b t)
         | ArgVector v \<Rightarrow> Inl OutOfBounds))"

definition join_response :: "byte \<Rightarrow> kv_obj Vector \<Rightarrow> db_item heap \<Rightarrow> triedb_response cres" where
  "join_response b v h =
     bindE (kv_tuples h v) (\<lambda>ts. Inr (JoinRes b (of_nat (v_size v)) ts))"

subsection \<open>Releasing packets\<close>

text \<open>
  The functions that release a request and the two kinds of responses, on the blocks of the allocator of \<open>Tdb_Util\<close>: a
  request has a block of its own, one for its key and, for a PUT, one for its value.
\<close>

definition triedb_request_destroy :: "byte \<Rightarrow> addr \<Rightarrow> addr option \<Rightarrow> t_mem \<Rightarrow> t_mem cres" where
  "triedb_request_destroy hdr pkt key st =
     bindE (if hdr_opcode hdr \<in> {1, 2, 3} then tfree st key else Inr st) (\<lambda>st'. tfree st' (Some pkt))"

definition get_response_destroy :: "byte \<Rightarrow> addr \<Rightarrow> addr option \<Rightarrow> t_mem \<Rightarrow> t_mem cres" where
  "get_response_destroy hdr response tuples st =
     bindE (if hdr_prefix hdr then tfree st tuples else Inr st) (\<lambda>st'. tfree st' (Some response))"

definition join_response_destroy :: "addr \<Rightarrow> addr option \<Rightarrow> t_mem \<Rightarrow> t_mem cres" where
  "join_response_destroy response tuples st = bindE (tfree st tuples) (\<lambda>st'. tfree st' (Some response))"

subsection \<open>Packing responses\<close>

definition buf_write :: "bytes \<Rightarrow> nat \<Rightarrow> bytes \<Rightarrow> bytes cres" where
  "buf_write buf pos bs =
     (if pos + length bs \<le> length buf then Inr (take pos buf @ bs @ drop (pos + length bs) buf)
      else Inl OutOfBounds)"

definition pack_at :: "bytes \<Rightarrow> nat \<Rightarrow> cstring \<Rightarrow> c_arg list \<Rightarrow> bytes cres" where
  "pack_at buf pos format args = bindE (pack format args) (\<lambda>(bs, sz). buf_write buf pos bs)"

definition strlen :: "cstring option \<Rightarrow> nat cres" where
  "strlen s = (case s of None \<Rightarrow> Inl NullDeref | Some bs \<Rightarrow> Inr (length bs))"

definition pack_response_ack :: "byte \<Rightarrow> byte \<Rightarrow> bytes cres" where
  "pack_response_ack b rc = pack_at (replicate 3 0) 0 (lit ''BBB'') [ANum (ucast b), ANum 1, ANum (ucast rc)]"

definition pack_response_cnt :: "byte \<Rightarrow> u64 \<Rightarrow> bytes cres" where
  "pack_response_cnt b val = pack_at (replicate 10 0) 0 (lit ''BBQ'') [ANum (ucast b), ANum 8, ANum val]"

text \<open>The bytes a tuple of a list takes by the fields the source adds up.\<close>

definition tuple_len :: "tuple \<Rightarrow> nat cres" where
  "tuple_len t = bindE (strlen (tp_val t)) (\<lambda>vlen. Inr (unat (tp_keylen t) + vlen + 4 + 2 * 2))"

definition pack_tuple_at :: "bytes \<Rightarrow> nat \<Rightarrow> tuple \<Rightarrow> bytes cres" where
  "pack_tuple_at buf pos t =
     bindE (strlen (tp_val t)) (\<lambda>vlen.
       pack_at buf pos (lit ''iHsHs'')
         [ANum (of_int (tp_ttl t)), ANum (ucast (tp_keylen t)), AStr (tp_key t),
          ANum (of_nat vlen), AStr (the (tp_val t))])"

text \<open>The list form, shared word for word by \<^verbatim>\<open>pack_response_get\<close> and \<^verbatim>\<open>pack_response_join\<close>.\<close>

definition pack_tuples :: "byte \<Rightarrow> u16 \<Rightarrow> tuple list \<Rightarrow> bytes cres" where
  "pack_tuples b tuples_len tuples =
     (let ts = take (unat tuples_len) tuples in
      if length tuples < unat tuples_len then Inl OutOfBounds
      else
      bindE (foldE (\<lambda>n t. bindE (tuple_len t) (\<lambda>l. Inr (n + l))) 2 ts) (\<lambda>len.
        let raw = replicate (len + 2) 0; enc = encode_length (of_nat len); steps = length enc in
        bindE (pack_at raw 0 (lit ''B'') [ANum (ucast b)]) (\<lambda>raw1.
        bindE (buf_write raw1 1 enc) (\<lambda>raw2.
        bindE (pack_at raw2 (steps + 1) (lit ''H'') [ANum (ucast tuples_len)]) (\<lambda>raw3.
        bindE (foldE (\<lambda>(buf, pos) t.
                 bindE (pack_tuple_at buf (3 + steps + pos) t) (\<lambda>buf'.
                 bindE (tuple_len t) (\<lambda>l. Inr (buf', pos + l)))) (raw3, 0) ts)
          (\<lambda>(buf, pos). Inr buf))))))"

definition pack_response_get_single :: "byte \<Rightarrow> tuple \<Rightarrow> bytes cres" where
  "pack_response_get_single b t =
     bindE (strlen (tp_val t)) (\<lambda>vlen.
       let len = unat (tp_keylen t) + vlen + 4 + 2;
           raw = replicate (len + 2) 0; enc = encode_length (of_nat len); steps = length enc
       in bindE (pack_at raw 0 (lit ''B'') [ANum (ucast b)]) (\<lambda>raw1.
          bindE (buf_write raw1 1 enc) (\<lambda>raw2.
            pack_at raw2 (steps + 1) (lit ''iHss'')
              [ANum (of_int (tp_ttl t)), ANum (ucast (tp_keylen t)), AStr (tp_key t), AStr (the (tp_val t))])))"

definition pack_response_get :: "triedb_response \<Rightarrow> bytes cres" where
  "pack_response_get res =
     (case res of
        GetPrefixRes b n ts \<Rightarrow> pack_tuples b n ts
      | GetRes b t \<Rightarrow> pack_response_get_single b t
      | _ \<Rightarrow> Inl OutOfBounds)"

definition pack_response_join :: "triedb_response \<Rightarrow> bytes cres" where
  "pack_response_join res = (case res of JoinRes b n ts \<Rightarrow> pack_tuples b n ts | _ \<Rightarrow> Inl OutOfBounds)"

text \<open>The variant of the union the table entries read.\<close>

definition pack_ack_res :: "triedb_response \<Rightarrow> bytes cres" where
  "pack_ack_res res = (case res of AckRes b rc \<Rightarrow> pack_response_ack b rc | _ \<Rightarrow> Inl OutOfBounds)"

definition pack_cnt_res :: "triedb_response \<Rightarrow> bytes cres" where
  "pack_cnt_res res = (case res of CntRes b v \<Rightarrow> pack_response_cnt b v | _ \<Rightarrow> Inl OutOfBounds)"

definition pack_handlers :: "(triedb_response \<Rightarrow> bytes cres) option list" where
  "pack_handlers =
     [None, Some pack_ack_res, Some pack_response_get, Some pack_ack_res, Some pack_ack_res,
      Some pack_ack_res, Some pack_ack_res, Some pack_cnt_res,
      None, None, None, None, None, None, Some pack_response_join]"

definition pack_response :: "triedb_response \<Rightarrow> nat \<Rightarrow> bytes cres" where
  "pack_response res type =
     (if type < length pack_handlers then
        (case pack_handlers ! type of None \<Rightarrow> Inl NullCall | Some handler \<Rightarrow> handler res)
      else Inl OutOfBounds)"

definition pack_ack :: "byte \<Rightarrow> byte \<Rightarrow> bstring cres" where
  "pack_ack b rc =
     bindE (pack_at (replicate 3 0) 0 (lit ''BBB'') [ANum (ucast b), ANum 1, ANum (ucast rc)]) (\<lambda>raw.
       bstring_copy raw 3)"

definition pack_cnt :: "byte \<Rightarrow> u64 \<Rightarrow> bstring cres" where
  "pack_cnt b val =
     bindE (pack_at (replicate 10 0) 0 (lit ''BBQ'') [ANum (ucast b), ANum 8, ANum val]) (\<lambda>raw.
       bstring_copy raw 10)"

record informations =
  nclients :: u32
  nconnections :: u32
  nnodes :: u32
  start_time :: u64
  uptime :: u64
  nrequests :: u32
  bytes_recv :: u64
  bytes_sent :: u64
  nkeys :: u64

definition pack_info :: "config \<Rightarrow> informations \<Rightarrow> bstring cres" where
  "pack_info conf infos =
     (let vlen = length (cf_version conf); llen = length (cf_logpath conf);
          hlen = length (cf_hostname conf); plen = length (cf_port conf);
          sz = vlen + 1 + llen + 1 + hlen + 1 + plen + 1 +
               1 + 1 + 1 + 8 + 8 + 8 + 4 + 4 + 4 + 8 + 8 + 4 + 8 + 8 + 8
      in bindE (bstring_empty (sz + 1)) (\<lambda>raw.
           pack_at raw 0 (lit ''BIIQQIQQQBBBQQQiBsBsBsBs'')
             [ANum 0xd0, ANum (ucast (nclients infos)), ANum (ucast (nconnections infos)),
              ANum (start_time infos), ANum (uptime infos), ANum (ucast (nrequests infos)),
              ANum (bytes_recv infos), ANum (bytes_sent infos), ANum (nkeys infos),
              ANum (of_int (cf_mode conf)), ANum (ucast (cf_loglevel conf)),
              ANum (of_int (cf_socket_family conf)), ANum (cf_max_memory conf),
              ANum (cf_mem_reclaim_time conf), ANum (cf_max_request_size conf),
              ANum (of_int (cf_tcp_backlog conf)),
              ANum (of_nat vlen), AStr (cf_version conf), ANum (of_nat llen), AStr (cf_logpath conf),
              ANum (of_nat hlen), AStr (cf_hostname conf), ANum (of_nat plen), AStr (cf_port conf)]))"


subsection \<open>The length field round trips\<close>

lemma bit_128: "bit (128 :: byte) n \<longleftrightarrow> n = 7"
proof -
  have "bit (2 ^ 7 :: byte) n \<longleftrightarrow> n = 7" unfolding bit_exp_iff by auto
  then show ?thesis by simp
qed

lemma and_127: "c AND 127 = take_bit 7 (c :: byte)"
  by (simp add: take_bit_eq_mask mask_eq_exp_minus_1)

lemma and_128: "(c :: byte) AND 128 = 0 \<longleftrightarrow> \<not> bit c 7"
proof -
  have "(128 :: byte) = 2 ^ 7" by simp
  then show ?thesis using and_exp_eq_0_iff_not_bit [of c 7] by simp
qed

lemma mod_128: "len mod 128 = take_bit 7 (len :: u64)"
  by (simp add: take_bit_eq_mod)

lemma length_digit:
  fixes len :: u64
  shows "take_bit 7 (ucast (take_bit 7 len) OR 128 :: byte) = ucast (take_bit 7 len)"
    "bit (ucast (take_bit 7 len) OR 128 :: byte) 7"
    "take_bit 7 (ucast (take_bit 7 len) :: byte) = ucast (take_bit 7 len)"
    "\<not> bit (ucast (take_bit 7 len) :: byte) 7"
  by (auto intro!: bit_word_eqI simp: bit_simps bit_128)

lemma uint_length_digit: "uint (ucast (take_bit 7 (len :: u64)) :: byte) = uint len mod 128"
proof -
  have "uint len mod 128 < 128" by simp
  then have "uint len mod 128 mod 256 = uint len mod 128" by (intro mod_pos_pos_trivial) auto
  then show ?thesis by (simp add: unsigned_ucast_eq take_bit_eq_mod uint_mod)
qed

lemma decode_encode_loop:
  assumes "bs < 4" and "uint len < 128 ^ (4 - bs)"
  shows "decode_length_loop (encode_length_loop bs len @ rest) (128 ^ bs) val pos =
           Inr (val + len * 128 ^ bs, pos + length (encode_length_loop bs len), rest)"
  using assms
proof (induction bs len arbitrary: val pos rule: encode_length_loop.induct)
  case (1 bs len)
  let ?d = "uint len mod 128"
  have "128 ^ bs \<le> (128 :: int) ^ 3" using 1(2) by (intro power_increasing) auto
  then have b: "128 ^ bs \<le> (2097152 :: int)" by simp
  have "?d * 128 ^ bs \<le> 127 * 2097152" using b by (intro mult_mono) auto
  moreover have nn: "0 \<le> ?d * 128 ^ bs" "(0 :: int) \<le> 128 ^ bs * 128" by simp_all
  ultimately have c1: "c_int (?d * 128 ^ bs) = Inr (?d * 128 ^ bs)"
    using order_trans [OF _ nn(1), of "- 2147483648"] unfolding c_int_def INT_MIN_def INT_MAX_def by simp
  have c2: "c_int (128 ^ bs * 128) = Inr (128 ^ Suc bs)"
    using b order_trans [OF _ nn(2), of "- 2147483648"] unfolding c_int_def INT_MIN_def INT_MAX_def by simp
  have "uint (len mod 128) = ?d" by (simp add: uint_mod)
  then have "(of_int ?d :: u64) = len mod 128" by (metis word_of_int_uint)
  then have split: "len = len div 128 * 128 + of_int ?d" by (metis div_mult_mod_eq)
  have enc: "encode_length_loop bs len = (if len div 128 > 0
      then (ucast (take_bit 7 len) OR 128) # encode_length_loop (bs + 1) (len div 128)
      else [ucast (take_bit 7 len)])"
    using 1(2) by (subst encode_length_loop.simps) (simp add: MAX_LEN_BYTES_def mod_128 Let_def)
  show ?case
  proof (cases "len div 128 > 0")
    case True
    have "uint (len div 128) > 0" using True by (simp add: word_less_def)
    then have "128 \<le> uint len" by (simp add: uint_div pos_imp_zdiv_pos_iff)
    with 1(3) have "4 - bs \<noteq> 1" by auto
    with 1(2) have bs: "bs + 1 < 4" by simp
    then have "(128 :: int) ^ (4 - bs) = 128 ^ (4 - (bs + 1)) * 128"
      by (metis Suc_diff_Suc Suc_eq_plus1 power_Suc2 less_imp_diff_less Suc_lessD)
    then have "uint (len div 128) < 128 ^ (4 - (bs + 1))" using 1(3) by (simp add: uint_div)
    from 1(1) [OF _ refl refl True bs this] 1(2)
    have IH: "decode_length_loop (encode_length_loop (bs + 1) (len div 128) @ rest) (128 ^ (bs + 1)) v q =
        Inr (v + len div 128 * 128 ^ (bs + 1), q + length (encode_length_loop (bs + 1) (len div 128)), rest)" for v q
      by (simp add: MAX_LEN_BYTES_def)
    have "of_int (?d * 128 ^ bs) + len div 128 * 128 ^ (bs + 1) = len * 128 ^ bs"
      by (subst (2) split) (simp add: algebra_simps)
    then show ?thesis
      using True enc c1 c2 IH length_digit [of len]
      by (simp add: and_127 and_128 uint_length_digit add.assoc)
  next
    case False
    then have "len div 128 = 0" by (simp add: word_gt_0)
    with split have "of_int ?d = len" by simp
    with False show ?thesis
      using enc c1 c2 length_digit [of len] by (simp add: and_127 and_128 uint_length_digit)
  qed
qed


lemma decode_encode_length:
  assumes "len < 128 ^ 4"
  shows "decode_length (encode_length len @ rest) = Inr (len, length (encode_length len), rest)"
proof -
  have "uint len < 128 ^ (4 - 0)" using assms by (simp add: word_less_def)
  from decode_encode_loop [OF _ this, of rest 0 0] show ?thesis
    by (simp add: decode_length_def encode_length_def)
qed

lemma encode_length_size: "length (encode_length len) = 1 \<longleftrightarrow> len < 128" "1 \<le> length (encode_length len)"
proof -
  have "len div 128 > 0 \<longleftrightarrow> \<not> len < 128"
  proof -
    have "len div 128 > 0 \<longleftrightarrow> 0 < uint len div 128" by (simp add: word_less_def uint_div)
    also have "\<dots> \<longleftrightarrow> 128 \<le> uint len" by (simp add: pos_imp_zdiv_pos_iff)
    finally show ?thesis by (simp add: word_less_def not_less)
  qed
  then have enc: "encode_length len = (if len < 128 then [ucast (len mod 128)]
      else (ucast (len mod 128) OR 0x80) # encode_length_loop 1 (len div 128))"
    unfolding encode_length_def by (subst encode_length_loop.simps) (simp add: MAX_LEN_BYTES_def Let_def)
  moreover have "encode_length_loop 1 x \<noteq> []" for x
    by (subst encode_length_loop.simps) (simp add: MAX_LEN_BYTES_def Let_def)
  ultimately show "length (encode_length len) = 1 \<longleftrightarrow> len < 128" "1 \<le> length (encode_length len)"
    by auto
qed

subsection \<open>Strings in requests\<close>

lemma sint_of_nat_64:
  assumes "n < 2 ^ 63"
  shows "sint (of_nat n :: u64) = int n"
proof -
  have "signed_take_bit 63 (int n) = int n"
    using signed_take_bit_int_eq_self [of 63 "int n"] assms by simp
  moreover have "sint (of_nat n :: u64) = signed_take_bit 63 (int n)"
    by (simp add: signed_of_nat)
  ultimately show ?thesis by simp
qed

lemma unat_of_nat_64: "n < 2 ^ 64 \<Longrightarrow> unat (of_nat n :: u64) = n"
  by (simp add: unat_of_nat take_bit_nat_eq_self_iff)

lemma string_block_ok:
  assumes "0 < unat sz" and "unat sz < 2 ^ 63 - 8"
  shows "string_block sz = Inr ()"
proof -
  have "unat (sz + 8) = unat sz + 8" using assms(2) by (simp add: unat_word_ariths)
  then show ?thesis using assms unfolding string_block_def by (auto simp: word_less_nat_alt)
qed

lemma string_block_small:
  assumes "n < 2 ^ 62"
  shows "string_block (of_nat n + 1) = Inr ()"
proof (rule string_block_ok)
  have "unat (of_nat (n + 1) :: u64) = n + 1" using assms by (intro unat_of_nat_64) simp
  then have "unat (of_nat n + 1 :: u64) = n + 1" by (simp add: add.commute)
  then show "0 < unat (of_nat n + 1 :: u64)" "unat (of_nat n + 1 :: u64) < 2 ^ 63 - 8"
    using assms by simp_all
qed

lemma sprintf_d_nat: "sprintf_d (int n) = dec_digits n"
  by (simp add: sprintf_d_def)

lemma dec_digits_bound:
  assumes "n < 10 ^ 10"
  shows "length (dec_digits n) \<le> 10"
proof -
  have "length (dec_digits n) \<le> length (dec_digits 9999999999)"
    using assms by (intro length_dec_digits_mono) simp
  then show ?thesis by (simp add: dec_digits.simps)
qed

lemma unpack_two_strings:
  assumes "length s < 2 ^ 32" and "length t < 2 ^ 32"
  shows "unpack (s @ t @ rest) (dec_digits (length s) @ lit ''s'' @ dec_digits (length t) @ lit ''s'') =
    Inr [VStr s, VStr t]"
  using unpack_fields [of "[Fs s, Fs t]" rest] assms by (simp add: unpack_format_def unpack_conv_def)

lemma unpack_string:
  assumes "length s < 2 ^ 32"
  shows "unpack (s @ rest) (dec_digits (length s) @ lit ''s'') = Inr [VStr s]"
  using unpack_fields [of "[Fs s]" rest] assms by (simp add: unpack_format_def unpack_conv_def)

lemma unpack_put_head:
  assumes "- (2 ^ 31) \<le> ttl" and "ttl < 2 ^ 31"
  shows "unpack (packi32 (word_of_int ttl) @ packi16 kl @ rest) (lit ''iH'') = Inr [VInt ttl, VUint (ucast kl)]"
  using unpack_fields [of "[Fi ttl, FH kl]" rest] assms
  by (simp add: unpack_format_def unpack_conv_def lit_def)

lemma unpack_triedb_put_eq:
  assumes "- (2 ^ 31) \<le> ttl" and "ttl < 2 ^ 31" and "length key < 2 ^ 16" and "length val < 2 ^ 32"
  shows "unpack_triedb_put (packi32 (word_of_int ttl) @ packi16 (of_nat (length key)) @ key @ val @ rest) hdr
      (of_nat (6 + length key + length val)) = Inr (ReqPut hdr ttl (of_nat (length key)) key val)"
proof -
  let ?kl = "of_nat (length key) :: u16"
  have kl: "uint ?kl = int (length key)" "(ucast ?kl :: u64) = of_nat (length key)"
    using assms(3) by (simp_all add: uint_nat unat_of_nat take_bit_nat_eq_self unsigned_of_nat)
  have pl: "of_nat (6 + length key + length val) - (4 + 2 + (ucast ?kl :: u64)) = of_nat (length val)"
    unfolding kl(2) by simp
  have sv: "sint (of_nat (length val) :: u64) = int (length val)"
    using assms(4) by (intro sint_of_nat_64) simp
  have "length (dec_digits (length key)) \<le> 10" "length (dec_digits (length val)) \<le> 10"
    using assms(3,4) by (auto intro: dec_digits_bound)
  then have fits: "fmt_fits 32 (dec_digits (length key) @ lit ''s'' @ dec_digits (length val) @ lit ''s'') =
      Inr (dec_digits (length key) @ lit ''s'' @ dec_digits (length val) @ lit ''s'')"
    by (simp add: fmt_fits_def lit_def)
  have "string_block ((of_nat (length key) :: u64) + 1) = Inr ()" "string_block ((of_nat (length val) :: u64) + 1) = Inr ()"
    using assms(3,4) by (auto intro!: string_block_small)
  then show ?thesis
    unfolding unpack_triedb_put_def unpack_put_head [OF assms(1,2)] bindE.simps list.case c_val.case
      Let_def ucast_down_up pl unfolding kl sv sprintf_d_nat fits
    using unpack_two_strings [of key val rest] assms(3,4) by simp
qed

lemma unpack_triedb_get_eq:
  assumes "length key < 10 ^ 8"
  shows "unpack_triedb_get (key @ rest) hdr (of_nat (length key)) = Inr (ReqGet hdr key)"
proof -
  have "length (dec_digits (length key)) \<le> length (dec_digits 99999999)"
    using assms by (intro length_dec_digits_mono) simp
  then have "fmt_fits 10 (dec_digits (length key) @ lit ''s'') = Inr (dec_digits (length key) @ lit ''s'')"
    by (simp add: fmt_fits_def lit_def dec_digits.simps)
  moreover have "sint (of_nat (length key) :: u64) = int (length key)"
    using assms by (intro sint_of_nat_64) simp
  moreover have "string_block ((of_nat (length key) :: u64) + 1) = Inr ()"
    using assms by (intro string_block_small) simp
  ultimately show ?thesis
    using unpack_string [of key rest] assms by (simp add: unpack_triedb_get_def sprintf_d_nat)
qed

text \<open>A size that is a small negative number taken modulo \<open>2 ^ 64\<close> is never a usable block.\<close>

lemma string_block_negative:
  assumes "0 \<le> k" and "k < 2 ^ 32"
  shows "\<exists>e. string_block (word_of_int (- k)) = Inl e"
proof -
  have u: "uint (word_of_int x :: u64) = x mod 2 ^ 64" for x by (simp add: uint_word_of_int)
  let ?sz = "word_of_int (- k) :: u64"
  have add8: "?sz + 8 = word_of_int (8 - k)" by simp
  consider "k = 0" | "1 \<le> k" "k \<le> 8" | "8 < k" using assms by linarith
  then show ?thesis
  proof cases
    case 2
    then have "(8 - k) mod 2 ^ 64 = 8 - k" "(- k) mod 2 ^ 64 = 2 ^ 64 - k"
      using zmod_zminus1_eq_if [of k "2 ^ 64"] by simp_all
    then have "uint (?sz + 8) = 8 - k" "uint ?sz = 2 ^ 64 - k" unfolding add8 u by simp_all
    then have "?sz + 8 < ?sz" using 2 by (simp only: word_less_def) simp
    then show ?thesis by (simp add: string_block_def)
  next
    case 3
    have "(8 - k) mod 2 ^ 64 = (8 - k + 2 ^ 64) mod 2 ^ 64" by (rule mod_add_self2 [symmetric])
    also have "\<dots> = 8 - k + 2 ^ 64" using 3 assms(2) by (intro mod_pos_pos_trivial) simp_all
    finally have "(8 - k) mod 2 ^ 64 = 8 - k + 2 ^ 64" .
    then have "uint (?sz + 8) = 8 - k + 2 ^ 64" unfolding add8 u .
    then have "2 ^ 63 - 1 < ?sz + 8" using assms(2) by (simp only: word_less_def) simp
    then show ?thesis by (simp add: string_block_def)
  qed (simp add: string_block_def)
qed

lemma bindE_raises: "(\<And>x. \<exists>e. f x = Inl e) \<Longrightarrow> \<exists>e. bindE m f = Inl e"
  by (cases m) auto

lemma unpack_triedb_put_short:
  assumes "- (2 ^ 31) \<le> ttl" and "ttl < 2 ^ 31" and "unat len < 6 + unat kl"
  shows "\<exists>e. unpack_triedb_put (packi32 (word_of_int ttl) @ packi16 kl @ rest) hdr len = Inl e"
proof -
  let ?k = "5 + uint kl - uint len"
  have "uint kl < 65536" using unsigned_less [of kl] by simp
  moreover have "uint len < 6 + uint kl" 
  proof -
    have "int (unat len) < int (6 + unat kl)" using assms(3) by (simp only: of_nat_less_iff)
    then show ?thesis by simp
  qed
  moreover have "(0::int) \<le> uint len" by (rule unsigned_greater_eq)
  ultimately have "0 \<le> ?k" "?k < 65542" by linarith+
  then have "0 \<le> ?k" "?k < 2 ^ 32" by (simp_all del: diff_ge_0_iff_ge)
  then have "\<exists>e. string_block (word_of_int (- ?k)) = Inl e" by (rule string_block_negative)
  moreover have "len - (4 + 2 + (ucast kl :: u64)) + 1 = word_of_int (- ?k)"
    by simp
  ultimately have "\<exists>e. string_block (len - (4 + 2 + (ucast kl :: u64)) + 1) = Inl e" by (simp only:)
  then obtain e where e: "string_block (len - (4 + 2 + (ucast kl :: u64)) + 1) = Inl e" ..
  show ?thesis
    unfolding unpack_triedb_put_def unpack_put_head [OF assms(1,2)] bindE.simps list.case c_val.case
      Let_def ucast_down_up e
    by (rule bindE_raises, rule bindE_raises) blast
qed


subsection \<open>Packing responses\<close>

text \<open>A buffer filled from the left.\<close>

lemma buf_write_next:
  assumes "length bs \<le> m" and "pos = length xs"
  shows "buf_write (xs @ replicate m 0) pos bs = Inr ((xs @ bs) @ replicate (m - length bs) 0)"
  using assms by (simp add: buf_write_def)

lemma buf_write_length: "buf_write buf pos bs = Inr buf' \<Longrightarrow> length buf' = length buf \<and> pos + length bs \<le> length buf"
  by (auto simp: buf_write_def split: if_splits)

lemma pack_B: "pack (lit ''B'') [ANum (ucast (b :: byte))] = Inr ([b], 1)"
  by (simp add: lit_def ch_def arg_num_def)

text \<open>The bytes of a tuple in a list; \<^verbatim>\<open>keylen\<close> is the length of the key and there is a value.\<close>

definition tuple_ok :: "tuple \<Rightarrow> bool" where
  "tuple_ok t \<longleftrightarrow> tp_val t \<noteq> None \<and> unat (tp_keylen t) = length (tp_key t)"

definition tuple_bytes :: "tuple \<Rightarrow> bytes" where
  "tuple_bytes t = packi32 (word_of_int (tp_ttl t)) @ packi16 (tp_keylen t) @ tp_key t @
     packi16 (of_nat (length (the (tp_val t)))) @ the (tp_val t)"

lemma ucast_of_int_32 [simp]: "(ucast (word_of_int n :: u64) :: u32) = word_of_int n"
  by (rule bit_word_eqI) (auto simp: bit_simps)

lemma ucast_of_nat_16 [simp]: "(ucast (of_nat n :: u64) :: u16) = of_nat n"
  by (rule bit_word_eqI) (auto simp: bit_simps)

lemma tuple_len_ok: "tuple_ok t \<Longrightarrow> tuple_len t = Inr (length (tuple_bytes t))"
  by (auto simp: tuple_ok_def tuple_len_def tuple_bytes_def strlen_def)

lemma pack_tuple_at_ok: "tuple_ok t \<Longrightarrow> pack_tuple_at buf pos t = buf_write buf pos (tuple_bytes t)"
  by (auto simp: tuple_ok_def pack_tuple_at_def pack_at_def tuple_bytes_def strlen_def
      lit_def ch_def arg_num_def arg_str_def)

lemma tuples_len_ok:
  "\<forall>t \<in> set ts. tuple_ok t \<Longrightarrow>
     foldE (\<lambda>n t. bindE (tuple_len t) (\<lambda>l. Inr (n + l))) n ts = Inr (n + length (concat (map tuple_bytes ts)))"
  by (induction ts arbitrary: n) (simp_all add: tuple_len_ok add.assoc)

abbreviation put_tuple :: "nat \<Rightarrow> bytes \<times> nat \<Rightarrow> tuple \<Rightarrow> (bytes \<times> nat) cres" where
  "put_tuple steps \<equiv> \<lambda>(buf, pos) t. bindE (pack_tuple_at buf (3 + steps + pos) t) (\<lambda>buf'.
     bindE (tuple_len t) (\<lambda>l. Inr (buf', pos + l)))"

lemma put_tuples_fit:
  assumes "\<forall>t \<in> set ts. tuple_ok t" and "length xs = 3 + steps + pos" and "length (concat (map tuple_bytes ts)) \<le> m"
  shows "foldE (put_tuple steps) (xs @ replicate m 0, pos) ts =
    Inr ((xs @ concat (map tuple_bytes ts)) @ replicate (m - length (concat (map tuple_bytes ts))) 0,
         pos + length (concat (map tuple_bytes ts)))"
  using assms
proof (induction ts arbitrary: xs pos m)
  case (Cons t ts)
  let ?b = "tuple_bytes t"
  have "buf_write (xs @ replicate m 0) (3 + steps + pos) ?b = Inr ((xs @ ?b) @ replicate (m - length ?b) 0)"
    using Cons.prems by (intro buf_write_next) simp_all
  moreover have "foldE (put_tuple steps) ((xs @ ?b) @ replicate (m - length ?b) 0, pos + length ?b) ts =
      Inr (((xs @ ?b) @ concat (map tuple_bytes ts)) @ replicate (m - length ?b - length (concat (map tuple_bytes ts))) 0,
        pos + length ?b + length (concat (map tuple_bytes ts)))"
    using Cons.prems by (intro Cons.IH) simp_all
  ultimately show ?case
    using Cons.prems by (simp add: pack_tuple_at_ok tuple_len_ok)
qed simp

lemma put_tuples_bound:
  assumes "\<forall>t \<in> set ts. tuple_ok t" and "foldE (put_tuple steps) (buf, pos) ts = Inr (buf', pos')" and "ts \<noteq> []"
  shows "3 + steps + pos + length (concat (map tuple_bytes ts)) \<le> length buf"
  using assms
proof (induction ts arbitrary: buf pos)
  case (Cons t ts)
  then obtain buf1 where "buf_write buf (3 + steps + pos) (tuple_bytes t) = Inr buf1"
    and rest: "foldE (put_tuple steps) (buf1, pos + length (tuple_bytes t)) ts = Inr (buf', pos')"
    by (auto simp: pack_tuple_at_ok tuple_len_ok)
  then have "length buf1 = length buf" "3 + steps + pos + length (tuple_bytes t) \<le> length buf"
    using buf_write_length by blast+
  then show ?case using Cons.IH [of buf1 "pos + length (tuple_bytes t)"] Cons.prems(1) rest
    by (cases "ts = []") auto
qed simp

lemma put_tuples_error:
  assumes "\<forall>t \<in> set ts. tuple_ok t" and "foldE (put_tuple steps) (buf, pos) ts = Inl e"
  shows "e = OutOfBounds"
  using assms
proof (induction ts arbitrary: buf pos)
  case (Cons t ts)
  then show ?case
    by (cases "buf_write buf (3 + steps + pos) (tuple_bytes t)")
      (auto simp: pack_tuple_at_ok tuple_len_ok buf_write_def split: if_splits)
qed simp

lemma encode_length_short: "len < 128 \<Longrightarrow> encode_length (of_nat len) = [of_nat len]"
proof -
  assume "len < 128"
  then have "(of_nat len :: u64) < 128" by (simp add: word_less_nat_alt unat_of_nat_64)
  then have "(of_nat len :: u64) div 128 = 0" "(of_nat len :: u64) mod 128 = of_nat len"
    by (simp_all add: word_arith_nat_div word_arith_nat_mod word_less_nat_alt)
  moreover have "(ucast (of_nat len :: u64) :: byte) = of_nat len"
    by (rule bit_word_eqI) (auto simp: bit_simps)
  ultimately show ?thesis
    unfolding encode_length_def
    by (subst encode_length_loop.simps) (simp add: MAX_LEN_BYTES_def)
qed

lemma encode_length_long:
  assumes "128 \<le> len" and "len < 2 ^ 64"
  shows "2 \<le> length (encode_length (of_nat len))"
proof -
  have "\<not> (of_nat len :: u64) < 128" using assms by (simp add: word_less_nat_alt unat_of_nat_64)
  then show ?thesis using encode_length_size [of "of_nat len"] by linarith
qed

lemma buf_fill_head:
  assumes "2 \<le> m" and "k = length enc"
  shows "bindE (pack_at (replicate m 0) 0 (lit ''B'') [ANum (ucast (b :: byte))]) (\<lambda>raw1.
      bindE (buf_write raw1 1 enc) f) =
    (if 1 + k \<le> m then f (([b] @ enc) @ replicate (m - 1 - k) 0) else Inl OutOfBounds)"
proof -
  have "buf_write ([] @ replicate m 0) 0 [b] = Inr (([] @ [b]) @ replicate (m - 1) 0)"
    using assms(1) buf_write_next [of "[b]" m 0 "[]"] by simp
  moreover have "buf_write ([b] @ replicate (m - 1) 0) 1 enc =
      (if 1 + k \<le> m then Inr (([b] @ enc) @ replicate (m - 1 - k) 0) else Inl OutOfBounds)"
    using assms buf_write_next [of enc "m - 1" 1 "[b]"] by (auto simp: buf_write_def)
  ultimately show ?thesis by (simp add: pack_at_def pack_B)
qed

lemma pack_tuples_eq:
  assumes "\<forall>t \<in> set ts. tuple_ok t" and "unat n = length ts"
    and d: "d = length (concat (map tuple_bytes ts))" and enc: "enc = encode_length (of_nat (2 + d))"
  shows "pack_tuples b n ts =
    (if 1 + length enc \<le> d + 4 then
       bindE (buf_write (([b] @ enc) @ replicate (d + 4 - 1 - length enc) 0) (length enc + 1) (packi16 n)) (\<lambda>raw.
       bindE (foldE (put_tuple (length enc)) (raw, 0) ts) (\<lambda>(buf, pos). Inr buf))
     else Inl OutOfBounds)"
proof -
  have "take (unat n) ts = ts" "\<not> length ts < unat n" "2 + d + 2 = d + 4" using assms(2) by simp_all
  moreover have "pack_at raw pos (lit ''H'') [ANum (ucast n)] = buf_write raw pos (packi16 n)" for raw pos
    by (simp add: pack_at_def lit_def ch_def arg_num_def)
  ultimately show ?thesis
    unfolding pack_tuples_def Let_def
    by (simp only: tuples_len_ok [OF assms(1)] bindE.simps if_False buf_fill_head [OF _ refl] d [symmetric]
        enc [symmetric])
qed

lemma pack_tuples_short:
  assumes "\<forall>t \<in> set ts. tuple_ok t" and "unat n = length ts"
    and d: "d = length (concat (map tuple_bytes ts))" and "2 + d < 128"
  shows "pack_tuples b n ts = Inr (b # of_nat (2 + d) # packi16 n @ concat (map tuple_bytes ts))"
proof -
  let ?l = "of_nat (2 + d) :: byte"
  have "buf_write (([b] @ [?l]) @ replicate (d + 4 - 1 - length [?l]) 0) (length [?l] + 1) (packi16 n) =
      Inr ((([b] @ [?l]) @ packi16 n) @ replicate (d + 4 - 1 - length [?l] - length (packi16 n)) 0)"
    by (intro buf_write_next) simp_all
  moreover have "foldE (put_tuple (length [?l])) ((([b] @ [?l]) @ packi16 n) @
        replicate (d + 4 - 1 - length [?l] - length (packi16 n)) 0, 0) ts =
      Inr (((([b] @ [?l]) @ packi16 n) @ concat (map tuple_bytes ts)) @
        replicate (d + 4 - 1 - length [?l] - length (packi16 n) - length (concat (map tuple_bytes ts))) 0,
        0 + length (concat (map tuple_bytes ts)))"
    using assms(1) d by (intro put_tuples_fit) simp_all
  ultimately show ?thesis
    unfolding pack_tuples_eq [OF assms(1,2) d refl, of b] encode_length_short [OF assms(4)]
    using d by simp
qed

lemma pack_tuples_long:
  assumes "\<forall>t \<in> set ts. tuple_ok t" and "unat n = length ts"
    and d: "d = length (concat (map tuple_bytes ts))" and "128 \<le> 2 + d" and "2 + d < 2 ^ 64"
  shows "pack_tuples b n ts = Inl OutOfBounds"
proof -
  let ?enc = "encode_length (of_nat (2 + d))"
  let ?raw = "([b] @ ?enc) @ replicate (d + 4 - 1 - length ?enc) 0"
  have two: "2 \<le> length ?enc" by (rule encode_length_long [OF assms(4,5)])
  have ne: "ts \<noteq> []" using assms(4) d by auto
  have "bindE (foldE (put_tuple (length ?enc)) (raw, 0) ts) (\<lambda>(buf, pos). Inr buf) = Inl OutOfBounds"
    if fit: "1 + length ?enc \<le> d + 4" and w: "buf_write ?raw (length ?enc + 1) (packi16 n) = Inr raw" for raw
  proof (cases "foldE (put_tuple (length ?enc)) (raw, 0) ts")
    case (Inl e)
    then show ?thesis using put_tuples_error [OF assms(1)] by auto
  next
    case (Inr p)
    have "length raw = d + 4" using buf_write_length [OF w] fit by simp
    moreover have "3 + length ?enc + 0 + d \<le> length raw"
      using put_tuples_bound [OF assms(1), of "length ?enc" raw 0 "fst p" "snd p"] Inr ne d by simp
    ultimately show ?thesis using two by simp
  qed
  then show ?thesis
    unfolding pack_tuples_eq [OF assms(1,2) d refl, of b]
    by (cases "buf_write ?raw (length ?enc + 1) (packi16 n)") (auto simp: buf_write_def split: if_splits)
qed

lemma pack_single_eq:
  assumes "tp_val t = Some v" and "unat (tp_keylen t) = length (tp_key t)"
    and d: "d = length (tp_key t) + length v + 6" and enc: "enc = encode_length (of_nat d)"
    and bs: "bs = packi32 (word_of_int (tp_ttl t)) @ packi16 (tp_keylen t) @ tp_key t @ v"
  shows "pack_response_get_single b t =
    (if 1 + length enc \<le> d + 2 then
       buf_write (([b] @ enc) @ replicate (d + 2 - 1 - length enc) 0) (length enc + 1) bs
     else Inl OutOfBounds)"
proof -
  have len: "unat (tp_keylen t) + length v + 4 + 2 = d" "strlen (tp_val t) = Inr (length v)"
    using assms by (simp_all add: strlen_def)
  have "pack_at raw pos (lit ''iHss'') [ANum (of_int (tp_ttl t)), ANum (ucast (tp_keylen t)),
      AStr (tp_key t), AStr (the (tp_val t))] = buf_write raw pos bs" for raw pos
    unfolding bs by (simp add: pack_at_def lit_def ch_def arg_num_def arg_str_def assms(1))
  then show ?thesis
    unfolding pack_response_get_single_def Let_def
    by (simp only: len bindE.simps buf_fill_head [OF le_add2 refl] enc [symmetric])
qed

lemma pack_single_short:
  assumes "tp_val t = Some v" and "unat (tp_keylen t) = length (tp_key t)" and "length (tp_key t) + length v + 6 < 128"
  shows "pack_response_get_single b t = Inr (b # of_nat (length (tp_key t) + length v + 6) #
    packi32 (word_of_int (tp_ttl t)) @ packi16 (tp_keylen t) @ tp_key t @ v)"
proof -
  let ?bs = "packi32 (word_of_int (tp_ttl t)) @ packi16 (tp_keylen t) @ tp_key t @ v"
  let ?d = "length (tp_key t) + length v + 6"
  let ?l = "of_nat ?d :: byte"
  have "buf_write (([b] @ [?l]) @ replicate (?d + 2 - 1 - length [?l]) 0) (length [?l] + 1) ?bs =
      Inr ((([b] @ [?l]) @ ?bs) @ replicate (?d + 2 - 1 - length [?l] - length ?bs) 0)"
    by (intro buf_write_next) simp_all
  then show ?thesis
    unfolding pack_single_eq [OF assms(1,2) refl refl refl] encode_length_short [OF assms(3)] by simp
qed

lemma pack_single_long:
  assumes "tp_val t = Some v" and "unat (tp_keylen t) = length (tp_key t)"
    and "128 \<le> length (tp_key t) + length v + 6" and "length (tp_key t) + length v + 6 < 2 ^ 64"
  shows "pack_response_get_single b t = Inl OutOfBounds"
  unfolding pack_single_eq [OF assms(1,2) refl refl refl]
  using encode_length_long [OF assms(3,4)] by (auto simp: buf_write_def)

subsection \<open>Properties\<close>

text \<open>
  C36. The size field of a packet round trips: \<^verbatim>\<open>decode_length\<close> reads back any length below \<open>128 ^ 4\<close>
  that \<^verbatim>\<open>encode_length\<close> wrote, uses exactly the bytes written and leaves the rest of the packet;
  and a length takes one byte exactly when it is below 128.
\<close>

theorem length_field_roundtrip:
  assumes "len < 128 ^ 4"
  shows "decode_length (encode_length len @ rest) = Inr (len, length (encode_length len), rest) \<and>
    (length (encode_length len) = 1 \<longleftrightarrow> len < 128)"
  using decode_encode_length [OF assms] encode_length_size by blast

theorem length_field_roundtrip_witness:
  "decode_length (encode_length 300 @ [7, 8]) = Inr (300, 2, [7, 8]) \<and> encode_length 300 = [172, 2]"
proof -
  have e: "encode_length 300 = [172, 2]" by code_simp
  show ?thesis using length_field_roundtrip [of 300 "[7, 8]"] e by simp
qed

text \<open>
  A size field of more than four bytes, which any client can send, overflows the signed
  multiplier of \<^verbatim>\<open>decode_length\<close>: there is no check of the number of bytes.
\<close>

theorem decode_length_overflow:
  assumes "\<forall>c \<in> {c1, c2, c3, c4}. c AND 128 \<noteq> 0"
  shows "decode_length (c1 # c2 # c3 # c4 # c5 # buf) = Inl SignedOverflow"
proof -
  have "c_int (x * m) = Inr (x * m)" if "0 \<le> x" "x < 128" "m \<in> {1, 128, 16384, 2097152}" for x m :: int
    using that by (auto simp: c_int_def INT_MAX_def INT_MIN_def)
  moreover have "uint (c AND 127) < 128" for c :: byte
    using take_bit_int_less_exp [of 7 "uint c"] by (simp add: and_127 unsigned_take_bit_eq)
  ultimately have "c_int (uint (c AND 127) * m) = Inr (uint (c AND 127) * m)"
    if "m \<in> {1, 128, 16384, 2097152}" for c :: byte and m
    using that by simp
  moreover have "c_int x = Inl SignedOverflow \<or> c_int x = Inr x" for x by (simp add: c_int_def)
  then have "c_int (uint (c5 AND 127) * 268435456) = Inl SignedOverflow \<or>
      c_int (uint (c5 AND 127) * 268435456) = Inr (uint (c5 AND 127) * 268435456)" .
  ultimately show ?thesis
    using assms by (auto simp: decode_length_def c_int_def INT_MAX_def INT_MIN_def)
qed

theorem decode_length_overflow_witness: "decode_length [255, 255, 255, 255, 1] = Inl SignedOverflow"
  by (rule decode_length_overflow) simp

lemma hdr_opcode_less: "hdr_opcode b < 16"
proof -
  have "unat (drop_bit 4 b) = unat b div 16" by (simp add: drop_bit_eq_div unat_div)
  moreover have "unat b < 256" using unsigned_less [of b] by simp
  ultimately show ?thesis by (simp add: hdr_opcode_def)
qed

text \<open>
  A well formed PUT request is read back: from the bytes of the ttl, the key length, the key and
  the value, \<^verbatim>\<open>unpack_triedb_request\<close> yields exactly that ttl, key and value, whatever follows in the
  buffer.
\<close>

theorem unpack_put_request:
  assumes "hdr_opcode hdr = 1" and "- (2 ^ 31) \<le> ttl \<and> ttl < 2 ^ 31"
    and "length key < 2 ^ 16" and "length val < 2 ^ 32"
  shows "unpack_triedb_request (packi32 (word_of_int ttl) @ packi16 (of_nat (length key)) @ key @ val @ rest) hdr
      (of_nat (6 + length key + length val)) = Inr (ReqPut hdr ttl (of_nat (length key)) key val)"
  unfolding unpack_triedb_request_def
  using unpack_triedb_put_eq [of ttl key val rest hdr] assms by (simp add: unpack_handlers_def)

theorem unpack_put_request_witness:
  "unpack_triedb_request ([255, 255, 255, 255, 0, 2] @ [97, 98] @ [49] @ []) 0x12 9 = Inr (ReqPut 0x12 (- 1) 2 [97, 98] [49])"
proof -
  have "packi32 (word_of_int (- 1)) = [255, 255, 255, 255]" "packi16 2 = [0, 2]" "hdr_opcode 0x12 = 1"
    by code_simp+
  then show ?thesis using unpack_put_request [of "0x12" "- 1" "[97, 98]" "[49]" "[]"] by simp
qed

text \<open>
  A PUT request whose size field is smaller than its key length says is never accepted: the
  unsigned length of the value wraps around, and the request ends in a memory fault rather than in
  an error reply.
\<close>

theorem unpack_put_short_faults:
  assumes "hdr_opcode hdr = 1" and "- (2 ^ 31) \<le> ttl \<and> ttl < 2 ^ 31" and "unat len < 6 + unat kl"
  shows "\<exists>e. unpack_triedb_request (packi32 (word_of_int ttl) @ packi16 kl @ rest) hdr len = Inl e"
  unfolding unpack_triedb_request_def
  using unpack_triedb_put_short [of ttl len kl rest hdr] assms by (simp add: unpack_handlers_def)

theorem unpack_put_short_faults_witness:
  "\<exists>e. unpack_triedb_request ([0, 0, 0, 0, 0, 200] @ [97]) 0x12 7 = Inl e"
proof -
  have "packi32 (word_of_int 0) = [0, 0, 0, 0]" "packi16 200 = [0, 200]" "hdr_opcode 0x12 = 1" by code_simp+
  then show ?thesis using unpack_put_short_faults [of "0x12" 0 7 200 "[97]"] by simp
qed

text \<open>
  GET and DEL requests carry a key alone: a key of fewer than \<open>10 ^ 8\<close> bytes is read back,
  whatever follows it in the buffer.
\<close>

theorem unpack_get_request:
  assumes "hdr_opcode hdr = 2 \<or> hdr_opcode hdr = 3" and "length key < 10 ^ 8"
  shows "unpack_triedb_request (key @ rest) hdr (of_nat (length key)) = Inr (ReqGet hdr key)"
  unfolding unpack_triedb_request_def
  using unpack_triedb_get_eq [OF assms(2)] assms(1) by (auto simp: unpack_handlers_def)

theorem unpack_get_request_witness:
  "unpack_triedb_request ([102, 111, 111] @ [9]) 0x20 3 = Inr (ReqGet 0x20 [102, 111, 111])"
proof -
  have "hdr_opcode 0x20 = 2" by code_simp
  then show ?thesis using unpack_get_request [of "0x20" "[102, 111, 111]" "[9]"] by simp
qed

text \<open>
  The table of unpacking functions has no entry for ACK, TTL, INC, DEC, CNT, USE, KEYS, PING,
  QUIT and DB: unpacking such a request calls a null pointer, and every other opcode has
  an entry. The table covers every value the four bits of an opcode can take.
\<close>

theorem unpack_null_handlers:
  "hdr_opcode hdr < length unpack_handlers \<and>
   (unpack_handlers ! hdr_opcode hdr = None \<longleftrightarrow> hdr_opcode hdr \<in> {0, 4, 5, 6, 7, 8, 9, 10, 11, 12}) \<and>
   (hdr_opcode hdr \<in> {0, 4, 5, 6, 7, 8, 9, 10, 11, 12} \<longrightarrow> unpack_triedb_request raw hdr len = Inl NullCall)"
proof -
  have "hdr_opcode hdr \<in> {0, 1, 2, 3, 4, 5, 6, 7, 8, 9, 10, 11, 12, 13, 14, 15}"
    using hdr_opcode_less [of hdr] unfolding insert_iff empty_iff by presburger
  then show ?thesis by (auto simp: unpack_triedb_request_def unpack_handlers_def)
qed

theorem unpack_null_handlers_witness: "unpack_triedb_request [] 0x40 0 = Inl NullCall"
proof -
  have "hdr_opcode 0x40 = 4" by code_simp
  then show ?thesis using unpack_null_handlers [of "0x40" "[]" 0] by simp
qed

text \<open>
  The reply to a GET of one key: below 128 bytes it is the header, the size in one byte, the
  ttl, the key length, the key and the value. From 128 bytes on the size field takes more bytes than
  the two that are allocated for header and size, and the packing writes past the end of the buffer.
\<close>

theorem pack_get_response:
  assumes "tp_val t = Some v" and "unat (tp_keylen t) = length (tp_key t)"
    and "len = length (tp_key t) + length v + 6" and "len < 2 ^ 64"
  shows "pack_response (GetRes b t) 2 =
    (if len < 128
     then Inr (b # of_nat len # packi32 (word_of_int (tp_ttl t)) @ packi16 (tp_keylen t) @ tp_key t @ v)
     else Inl OutOfBounds)"
  using pack_single_short [OF assms(1,2)] pack_single_long [OF assms(1,2)] assms(3,4)
  by (simp add: pack_response_def pack_handlers_def pack_response_get_def)

theorem pack_get_response_witness:
  "pack_response (GetRes 0x20 \<lparr> tp_ttl = 5, tp_keylen = 2, tp_key = [97, 98], tp_val = Some [49] \<rparr>) 2 =
     Inr ([0x20, 9] @ [0, 0, 0, 5] @ [0, 2] @ [97, 98] @ [49])"
proof -
  let ?t = "\<lparr> tp_ttl = 5, tp_keylen = 2, tp_key = [97, 98], tp_val = Some [49] \<rparr>"
  have "packi32 (word_of_int 5) = [0, 0, 0, 5]" "packi16 2 = [0, 2]" by code_simp+
  then show ?thesis using pack_get_response [of ?t "[49]" 9 "0x20"] by simp
qed

text \<open>
  The reply to a range query (GET of a prefix, or a JOIN reply) lists its tuples one after the
  other behind their number, each with the lengths of its key and value, when it is below 128 bytes
  in all; from 128 bytes on the same undersized buffer is overrun.
\<close>

theorem pack_range_response:
  assumes "\<forall>t \<in> set ts. tuple_ok t" and "unat n = length ts"
    and "len = 2 + length (concat (map tuple_bytes ts))" and "len < 2 ^ 64"
  shows "pack_response (GetPrefixRes b n ts) 2 =
    (if len < 128 then Inr (b # of_nat len # packi16 n @ concat (map tuple_bytes ts)) else Inl OutOfBounds)"
  using pack_tuples_short [OF assms(1,2) refl, of b] pack_tuples_long [OF assms(1,2) refl, of b] assms(3,4)
  by (simp add: pack_response_def pack_handlers_def pack_response_get_def)

theorem pack_range_response_witness:
  "pack_response (GetPrefixRes 0x28 1 [\<lparr> tp_ttl = 5, tp_keylen = 2, tp_key = [97, 98], tp_val = Some [49] \<rparr>]) 2 =
     Inr ([0x28, 13] @ [0, 1] @ [0, 0, 0, 5] @ [0, 2] @ [97, 98] @ [0, 1] @ [49])"
proof -
  let ?t = "\<lparr> tp_ttl = 5, tp_keylen = 2, tp_key = [97, 98], tp_val = Some [49] \<rparr>"
  have "tuple_ok ?t" "tuple_bytes ?t = [0, 0, 0, 5] @ [0, 2] @ [97, 98] @ [0, 1] @ [49]" "packi16 1 = [0, 1]"
    by code_simp+
  then show ?thesis using pack_range_response [of "[?t]" 1 13 "0x28"] by simp
qed

text \<open>
  The INFO reply always fits the block allocated for it: packing never writes outside, the
  reply begins with the INFO header, and its length is that of the block.
\<close>

theorem pack_info_fits:
  "\<exists>bs. pack_info conf infos = Inr (0xd0 # bs) \<and>
     length bs = 87 + length (cf_version conf) + length (cf_logpath conf) + length (cf_hostname conf) + length (cf_port conf)"
  by (simp add: pack_info_def bstring_empty_def pack_at_def buf_write_def lit_def ch_def arg_num_def arg_str_def)

subsection \<open>The memory of a request\<close>

lemma not_negative: "\<not> (w :: 'a::len word) < 0"
  by simp

text \<open>
  Releasing a PUT, GET or DEL takes exactly the block of the packet and the block of its key from the allocator; the
  block of the value of a PUT, which the item of the database keeps, is not touched.
\<close>

lemma triedb_request_destroy_ok:
  assumes "hdr_opcode hdr \<in> {1, 2, 3}" and "blocks st pkt = Some psize" and "blocks st key = Some ksize" and "pkt \<noteq> key"
  shows "triedb_request_destroy hdr pkt (Some key) st =
    Inr (st\<lparr> memory := memory st - (ksize + 8) - (psize + 8), blocks := (blocks st) |` (- {pkt, key}) \<rparr>)"
proof -
  have "(blocks st)(key := None, pkt := None) = (blocks st) |` (- {pkt, key})" by (auto simp: restrict_map_def)
  then show ?thesis
    using assms by (simp add: triedb_request_destroy_def tfree_def obj_read_Some obj_free_Some not_negative)
qed

end
