(* ===== verification/Tdb_Hashtable.thy ===== *)
theory Tdb_Hashtable
  imports Tdb_Config
begin

unbundle bit_operations_syntax

text \<open>
  The hash table of \<^verbatim>\<open>src/hashtable.c\<close>: a CRC-32 based hash, linear probing over windows of eight
  slots and doubling of the table. Keys are C strings compared with \<^verbatim>\<open>STREQ\<close>; a value is a pointer,
  \<open>None\<close> for NULL. \<open>calloc_max\<close> is the largest number of entries \<^verbatim>\<open>tcalloc\<close> can provide. The
  destructor of a table acts on a heap of the client, which the operations that call it thread.
\<close>

subsection \<open>Hashing\<close>

definition HASHTABLE_OK :: int where "HASHTABLE_OK = 0"
definition HASHTABLE_ERR :: int where "HASHTABLE_ERR = 1"
definition HASHTABLE_FULL :: int where "HASHTABLE_FULL = 3"

definition INITIAL_SIZE :: nat where "INITIAL_SIZE = 4"
definition MAX_CHAIN_LENGTH :: nat where "MAX_CHAIN_LENGTH = 8"
definition KNUTH_PRIME :: u64 where "KNUTH_PRIME = 2654435761"

definition crc32_tab :: "u64 list" where
  "crc32_tab = [
      0x00000000, 0x77073096, 0xee0e612c, 0x990951ba, 0x076dc419, 0x706af48f, 0xe963a535, 0x9e6495a3,
      0x0edb8832, 0x79dcb8a4, 0xe0d5e91e, 0x97d2d988, 0x09b64c2b, 0x7eb17cbd, 0xe7b82d07, 0x90bf1d91,
      0x1db71064, 0x6ab020f2, 0xf3b97148, 0x84be41de, 0x1adad47d, 0x6ddde4eb, 0xf4d4b551, 0x83d385c7,
      0x136c9856, 0x646ba8c0, 0xfd62f97a, 0x8a65c9ec, 0x14015c4f, 0x63066cd9, 0xfa0f3d63, 0x8d080df5,
      0x3b6e20c8, 0x4c69105e, 0xd56041e4, 0xa2677172, 0x3c03e4d1, 0x4b04d447, 0xd20d85fd, 0xa50ab56b,
      0x35b5a8fa, 0x42b2986c, 0xdbbbc9d6, 0xacbcf940, 0x32d86ce3, 0x45df5c75, 0xdcd60dcf, 0xabd13d59,
      0x26d930ac, 0x51de003a, 0xc8d75180, 0xbfd06116, 0x21b4f4b5, 0x56b3c423, 0xcfba9599, 0xb8bda50f,
      0x2802b89e, 0x5f058808, 0xc60cd9b2, 0xb10be924, 0x2f6f7c87, 0x58684c11, 0xc1611dab, 0xb6662d3d,
      0x76dc4190, 0x01db7106, 0x98d220bc, 0xefd5102a, 0x71b18589, 0x06b6b51f, 0x9fbfe4a5, 0xe8b8d433,
      0x7807c9a2, 0x0f00f934, 0x9609a88e, 0xe10e9818, 0x7f6a0dbb, 0x086d3d2d, 0x91646c97, 0xe6635c01,
      0x6b6b51f4, 0x1c6c6162, 0x856530d8, 0xf262004e, 0x6c0695ed, 0x1b01a57b, 0x8208f4c1, 0xf50fc457,
      0x65b0d9c6, 0x12b7e950, 0x8bbeb8ea, 0xfcb9887c, 0x62dd1ddf, 0x15da2d49, 0x8cd37cf3, 0xfbd44c65,
      0x4db26158, 0x3ab551ce, 0xa3bc0074, 0xd4bb30e2, 0x4adfa541, 0x3dd895d7, 0xa4d1c46d, 0xd3d6f4fb,
      0x4369e96a, 0x346ed9fc, 0xad678846, 0xda60b8d0, 0x44042d73, 0x33031de5, 0xaa0a4c5f, 0xdd0d7cc9,
      0x5005713c, 0x270241aa, 0xbe0b1010, 0xc90c2086, 0x5768b525, 0x206f85b3, 0xb966d409, 0xce61e49f,
      0x5edef90e, 0x29d9c998, 0xb0d09822, 0xc7d7a8b4, 0x59b33d17, 0x2eb40d81, 0xb7bd5c3b, 0xc0ba6cad,
      0xedb88320, 0x9abfb3b6, 0x03b6e20c, 0x74b1d29a, 0xead54739, 0x9dd277af, 0x04db2615, 0x73dc1683,
      0xe3630b12, 0x94643b84, 0x0d6d6a3e, 0x7a6a5aa8, 0xe40ecf0b, 0x9309ff9d, 0x0a00ae27, 0x7d079eb1,
      0xf00f9344, 0x8708a3d2, 0x1e01f268, 0x6906c2fe, 0xf762575d, 0x806567cb, 0x196c3671, 0x6e6b06e7,
      0xfed41b76, 0x89d32be0, 0x10da7a5a, 0x67dd4acc, 0xf9b9df6f, 0x8ebeeff9, 0x17b7be43, 0x60b08ed5,
      0xd6d6a3e8, 0xa1d1937e, 0x38d8c2c4, 0x4fdff252, 0xd1bb67f1, 0xa6bc5767, 0x3fb506dd, 0x48b2364b,
      0xd80d2bda, 0xaf0a1b4c, 0x36034af6, 0x41047a60, 0xdf60efc3, 0xa867df55, 0x316e8eef, 0x4669be79,
      0xcb61b38c, 0xbc66831a, 0x256fd2a0, 0x5268e236, 0xcc0c7795, 0xbb0b4703, 0x220216b9, 0x5505262f,
      0xc5ba3bbe, 0xb2bd0b28, 0x2bb45a92, 0x5cb36a04, 0xc2d7ffa7, 0xb5d0cf31, 0x2cd99e8b, 0x5bdeae1d,
      0x9b64c2b0, 0xec63f226, 0x756aa39c, 0x026d930a, 0x9c0906a9, 0xeb0e363f, 0x72076785, 0x05005713,
      0x95bf4a82, 0xe2b87a14, 0x7bb12bae, 0x0cb61b38, 0x92d28e9b, 0xe5d5be0d, 0x7cdcefb7, 0x0bdbdf21,
      0x86d3d2d4, 0xf1d4e242, 0x68ddb3f8, 0x1fda836e, 0x81be16cd, 0xf6b9265b, 0x6fb077e1, 0x18b74777,
      0x88085ae6, 0xff0f6a70, 0x66063bca, 0x11010b5c, 0x8f659eff, 0xf862ae69, 0x616bffd3, 0x166ccf45,
      0xa00ae278, 0xd70dd2ee, 0x4e048354, 0x3903b3c2, 0xa7672661, 0xd06016f7, 0x4969474d, 0x3e6e77db,
      0xaed16a4a, 0xd9d65adc, 0x40df0b66, 0x37d83bf0, 0xa9bcae53, 0xdebb9ec5, 0x47b2cf7f, 0x30b5ffe9,
      0xbdbdf21c, 0xcabac28a, 0x53b39330, 0x24b4a3a6, 0xbad03605, 0xcdd70693, 0x54de5729, 0x23d967bf,
      0xb3667a2e, 0xc4614ab8, 0x5d681b02, 0x2a6f2b94, 0xb40bbe37, 0xc30c8ea1, 0x5a05df1b, 0x2d02ef8d]"

fun crc32_loop :: "u64 \<Rightarrow> bytes \<Rightarrow> u64" where
  "crc32_loop crc32val [] = crc32val"
| "crc32_loop crc32val (c # s) =
     crc32_loop (crc32_tab ! unat ((crc32val XOR ucast c) AND 0xff) XOR drop_bit 8 crc32val) s"

definition crc32 :: "bytes \<Rightarrow> u64" where
  "crc32 s = crc32_loop 0 s"

definition hashtable_hash_int :: "nat \<Rightarrow> cstring \<Rightarrow> nat" where
  "hashtable_hash_int table_size keystr =
     (let key = crc32 keystr;
          key = key + push_bit 12 key;
          key = key XOR drop_bit 22 key;
          key = key + push_bit 4 key;
          key = key XOR drop_bit 9 key;
          key = key + push_bit 10 key;
          key = key XOR drop_bit 2 key;
          key = key + push_bit 7 key;
          key = key XOR drop_bit 12 key;
          key = drop_bit 3 key * KNUTH_PRIME
      in unat key mod table_size)"

subsection \<open>Tables\<close>

record 'v hashtable_entry =
  he_key :: "cstring option"
  he_val :: "'v option"
  he_taken :: bool

record ('v, 'h) HashTable =
  table_size :: nat
  ht_size :: nat
  ht_destructor :: "'v hashtable_entry \<Rightarrow> 'h \<Rightarrow> (int \<times> 'h) cres"
  ht_entries :: "'v hashtable_entry list"

text \<open>A zeroed entry, as \<^verbatim>\<open>tcalloc\<close> provides them.\<close>

definition no_entry :: "'v hashtable_entry" where
  "no_entry = \<lparr> he_key = None, he_val = None, he_taken = False \<rparr>"

definition entry_at :: "('v, 'h) HashTable \<Rightarrow> nat \<Rightarrow> 'v hashtable_entry cres" where
  "entry_at table i = (if i < length (ht_entries table) then Inr (ht_entries table ! i) else Inl OutOfBounds)"

text \<open>The linear probing of \<^verbatim>\<open>hashtable_hash\<close>, with \<open>n\<close> steps left.\<close>

fun hash_probe :: "('v, 'h) HashTable \<Rightarrow> cstring \<Rightarrow> nat \<Rightarrow> nat \<Rightarrow> int cres" where
  "hash_probe table key cur 0 = Inr (- HASHTABLE_FULL)"
| "hash_probe table key cur (Suc n) =
     bindE (entry_at table cur) (\<lambda>e.
       if \<not> he_taken e then Inr (u64_to_int (of_nat cur))
       else
         (case he_key e of
            None \<Rightarrow> Inl NullDeref
          | Some k \<Rightarrow>
              if STREQ k key (length k) then Inr (u64_to_int (of_nat cur))
              else hash_probe table key ((cur + 1) mod table_size table) n))"

definition hashtable_hash :: "('v, 'h) HashTable \<Rightarrow> cstring \<Rightarrow> int cres" where
  "hashtable_hash table key =
     (if ht_size table \<ge> table_size table div 2 then Inr (- HASHTABLE_FULL)
      else hash_probe table key (hashtable_hash_int (table_size table) key) MAX_CHAIN_LENGTH)"

text \<open>The loop of \<^verbatim>\<open>hashtable_rehash\<close> over the old entries, on top of the insertion it calls.\<close>

fun rehash_loop :: "(('v, 'h) HashTable \<Rightarrow> cstring \<Rightarrow> 'v option \<Rightarrow> (('v, 'h) HashTable \<times> int) cres) \<Rightarrow>
    ('v, 'h) HashTable \<Rightarrow> 'v hashtable_entry list \<Rightarrow> (('v, 'h) HashTable \<times> int) cres" where
  "rehash_loop put table [] = Inr (table, HASHTABLE_OK)"
| "rehash_loop put table (e # cur) =
     (if \<not> he_taken e then rehash_loop put table cur
      else
        (case he_key e of
           None \<Rightarrow> Inl AssertFailed
         | Some k \<Rightarrow>
             bindE (put table k (he_val e)) (\<lambda>(table', status).
               if status \<noteq> HASHTABLE_OK then Inr (table', status) else rehash_loop put table' cur)))"

definition hashtable_rehash :: "nat \<Rightarrow> (('v, 'h) HashTable \<Rightarrow> cstring \<Rightarrow> 'v option \<Rightarrow> (('v, 'h) HashTable \<times> int) cres) \<Rightarrow>
    ('v, 'h) HashTable \<Rightarrow> (('v, 'h) HashTable \<times> int) cres" where
  "hashtable_rehash calloc_max put table =
     (if 2 * table_size table > calloc_max then Inr (table, - HASHTABLE_ERR)
      else rehash_loop put
             (table\<lparr> ht_entries := replicate (2 * table_size table) no_entry,
                     table_size := 2 * table_size table, ht_size := 0 \<rparr>)
             (ht_entries table))"

text \<open>
  \<^verbatim>\<open>hashtable_put\<close>. Every turn of its loop and every insertion made by a rehash takes one unit of
  fuel.
\<close>

fun hashtable_put :: "nat \<Rightarrow> nat \<Rightarrow> ('v, 'h) HashTable \<Rightarrow> cstring \<Rightarrow> 'v option \<Rightarrow> (('v, 'h) HashTable \<times> int) cres" where
  "hashtable_put calloc_max 0 table key val = Inl StackExhausted"
| "hashtable_put calloc_max (Suc fuel) table key val =
     bindE (hashtable_hash table key) (\<lambda>index.
       if index = - HASHTABLE_FULL then
         bindE (hashtable_rehash calloc_max (hashtable_put calloc_max fuel) table) (\<lambda>(table', status).
           if status = - HASHTABLE_ERR then Inr (table', - HASHTABLE_ERR)
           else hashtable_put calloc_max fuel table' key val)
       else if index < 0 then Inl OutOfBounds
       else
         bindE (entry_at table (nat index)) (\<lambda>e.
           let e' = \<lparr> he_key = Some key, he_val = val, he_taken = True \<rparr>;
               sz = (if \<not> he_taken e then ht_size table + 1 else ht_size table)
           in Inr (table\<lparr> ht_entries := (ht_entries table)[nat index := e'], ht_size := sz \<rparr>, HASHTABLE_OK)))"

text \<open>The lookup loop shared by \<^verbatim>\<open>hashtable_get\<close>, \<^verbatim>\<open>hashtable_get_entry\<close> and \<^verbatim>\<open>hashtable_del\<close>.\<close>

fun find_probe :: "('v, 'h) HashTable \<Rightarrow> cstring \<Rightarrow> nat \<Rightarrow> nat \<Rightarrow> nat option cres" where
  "find_probe table key cur 0 = Inr None"
| "find_probe table key cur (Suc n) =
     bindE (entry_at table cur) (\<lambda>e.
       if he_taken e then
         (case he_key e of
            None \<Rightarrow> Inl NullDeref
          | Some k \<Rightarrow>
              if STREQ k key (length key) then Inr (Some cur)
              else find_probe table key ((cur + 1) mod table_size table) n)
       else find_probe table key ((cur + 1) mod table_size table) n)"

definition hashtable_get_entry :: "('v, 'h) HashTable \<Rightarrow> cstring \<Rightarrow> nat option cres" where
  "hashtable_get_entry table key =
     find_probe table key (hashtable_hash_int (table_size table) key) MAX_CHAIN_LENGTH"

definition hashtable_get :: "('v, 'h) HashTable \<Rightarrow> cstring \<Rightarrow> 'v option cres" where
  "hashtable_get table key =
     bindE (find_probe table key (hashtable_hash_int (table_size table) key) MAX_CHAIN_LENGTH) (\<lambda>r.
       case r of None \<Rightarrow> Inr None | Some cur \<Rightarrow> bindE (entry_at table cur) (\<lambda>e. Inr (he_val e)))"

definition hashtable_del :: "('v, 'h) HashTable \<Rightarrow> cstring \<Rightarrow> 'h \<Rightarrow> (('v, 'h) HashTable \<times> int \<times> 'h) cres" where
  "hashtable_del table key h =
     bindE (find_probe table key (hashtable_hash_int (table_size table) key) MAX_CHAIN_LENGTH) (\<lambda>r.
       case r of
         None \<Rightarrow> Inr (table, - HASHTABLE_ERR, h)
       | Some cur \<Rightarrow>
           bindE (entry_at table cur) (\<lambda>e.
             let e' = e\<lparr> he_taken := False \<rparr>;
                 sz = (if ht_size table = 0 then 2 ^ 64 - 1 else ht_size table - 1)
             in bindE (ht_destructor table e' h) (\<lambda>(status, h').
                  Inr (table\<lparr> ht_entries := (ht_entries table)[cur := e'], ht_size := sz \<rparr>, HASHTABLE_OK, h'))))"

text \<open>
  The destructor of a table that is given none, on the heap of its values; the key, a value here, is
  released as well.
\<close>

definition destroy_entry :: "addr hashtable_entry \<Rightarrow> 'v heap \<Rightarrow> (int \<times> 'v heap) cres" where
  "destroy_entry entry h =
     (case he_val entry of None \<Rightarrow> Inr (HASHTABLE_OK, h) | Some a \<Rightarrow> bindE (obj_free h a) (\<lambda>h'. Inr (HASHTABLE_OK, h')))"

definition hashtable_new :: "('v hashtable_entry \<Rightarrow> 'h \<Rightarrow> (int \<times> 'h) cres) \<Rightarrow> ('v, 'h) HashTable" where
  "hashtable_new dtor =
     \<lparr> table_size = INITIAL_SIZE, ht_size = 0, ht_destructor = dtor,
       ht_entries = replicate INITIAL_SIZE no_entry \<rparr>"

definition hashtable_size :: "('v, 'h) HashTable \<Rightarrow> nat" where
  "hashtable_size table = ht_size table"

fun map_loop :: "('v hashtable_entry \<Rightarrow> 'h \<Rightarrow> (int \<times> 'h) cres) \<Rightarrow> 'v hashtable_entry list \<Rightarrow> 'h \<Rightarrow> (int \<times> 'h) cres" where
  "map_loop func [] h = Inr (HASHTABLE_OK, h)"
| "map_loop func (e # es) h =
     (if he_taken e then
        bindE (func e h) (\<lambda>(status, h'). if status \<noteq> HASHTABLE_OK then Inr (status, h') else map_loop func es h')
      else map_loop func es h)"

definition hashtable_map :: "('v, 'h) HashTable \<Rightarrow> ('v hashtable_entry \<Rightarrow> 'h \<Rightarrow> (int \<times> 'h) cres) \<Rightarrow> 'h \<Rightarrow> (int \<times> 'h) cres" where
  "hashtable_map table func h =
     (if ht_size table \<le> 0 then Inr (- HASHTABLE_ERR, h)
      else map_loop func (take (table_size table) (ht_entries table)) h)"

definition hashtable_map2 :: "('v, 'h) HashTable \<Rightarrow> ('v hashtable_entry \<Rightarrow> 'p \<Rightarrow> 'h \<Rightarrow> (int \<times> 'h) cres) \<Rightarrow> 'p \<Rightarrow> 'h \<Rightarrow> (int \<times> 'h) cres" where
  "hashtable_map2 table func param h =
     (if ht_size table \<le> 0 then Inr (- HASHTABLE_ERR, h)
      else map_loop (\<lambda>e. func e param) (take (table_size table) (ht_entries table)) h)"

text \<open>What remains of a destroyed table is the effect of its destructor on the entries in use.\<close>

definition hashtable_destroy :: "('v, 'h) HashTable \<Rightarrow> 'h \<Rightarrow> 'h cres" where
  "hashtable_destroy table h = bindE (hashtable_map table (ht_destructor table) h) (\<lambda>(status, h'). Inr h')"

subsection \<open>The table-driven CRC\<close>

text \<open>
  The bit-serial shift register the table stands for: one step per bit, feeding back the polynomial
  \<open>0xedb88320\<close> when the lowest bit falls out.
\<close>

definition crc_bit :: "u64 \<Rightarrow> u64" where
  "crc_bit x = (if bit x 0 then drop_bit 1 x XOR 0xedb88320 else drop_bit 1 x)"

fun crc_bits :: "nat \<Rightarrow> u64 \<Rightarrow> u64" where
  "crc_bits 0 x = x"
| "crc_bits (Suc n) x = crc_bits n (crc_bit x)"

fun crc32_serial :: "u64 \<Rightarrow> bytes \<Rightarrow> u64" where
  "crc32_serial crc [] = crc"
| "crc32_serial crc (c # s) = crc32_serial (crc_bits 8 (crc XOR ucast c)) s"

lemma crc_bit_xor: "crc_bit (x XOR y) = crc_bit x XOR crc_bit y"
  by (auto simp: crc_bit_def bit_simps intro!: bit_word_eqI)

lemma crc_bits_xor: "crc_bits n (x XOR y) = crc_bits n x XOR crc_bits n y"
  by (induction n arbitrary: x y) (simp_all add: crc_bit_xor)

lemma crc_bits_shift:
  "(\<And>i. i < n \<Longrightarrow> \<not> bit x i) \<Longrightarrow> crc_bits n x = drop_bit n x"
proof (induction n arbitrary: x)
  case (Suc n)
  have "crc_bit x = drop_bit 1 x" using Suc.prems [of 0] by (simp add: crc_bit_def)
  moreover have "crc_bits n (drop_bit 1 x) = drop_bit n (drop_bit 1 x)"
    using Suc.prems by (intro Suc.IH) (simp add: bit_simps)
  ultimately show ?case by (simp add: drop_bit_drop_bit)
qed simp

text \<open>
  The register is linear, so the table is determined by its entries at the powers of two: the
  second half of each block of \<open>2 ^ (n + 1)\<close> entries is the first half with the entry at \<open>2 ^ n\<close> added.
\<close>

fun crc_table :: "int list \<Rightarrow> int list" where
  "crc_table [] = [0]"
| "crc_table (p # ps) = crc_table ps @ map (\<lambda>x. x XOR p) (crc_table ps)"

lemma length_crc_table [simp]: "length (crc_table ps) = 2 ^ length ps"
  by (induction ps) simp_all

fun powers_down :: "nat \<Rightarrow> nat list" where
  "powers_down 0 = []"
| "powers_down (Suc n) = 2 ^ n # powers_down n"

lemma length_powers_down [simp]: "length (powers_down n) = n"
  by (induction n) simp_all

lemma of_nat_add_exp:
  assumes "i < 2 ^ n"
  shows "(of_nat (i + 2 ^ n) :: u64) = of_nat i XOR of_nat (2 ^ n)"
proof -
  have "i + 2 ^ n = i XOR 2 ^ n"
  proof (rule disjunctive_add_eq_xor)
    have "take_bit n i = i" using assms by (simp add: take_bit_nat_eq_self)
    then show "i AND 2 ^ n = 0"
      by (intro bit_eqI) (metis bit_0_eq bit_and_iff bit_exp_iff bit_take_bit_iff bot_apply bot_bool_def less_irrefl)
  qed
  then show ?thesis by (simp add: of_nat_xor_eq del: of_nat_add)
qed

lemma crc_table_serial:
  "i < 2 ^ n \<Longrightarrow> crc_table (map (\<lambda>p. uint (crc_bits 8 (of_nat p))) (powers_down n)) ! i = uint (crc_bits 8 (of_nat i :: u64))"
proof (induction n arbitrary: i)
  case 0
  have "crc_bits 8 0 = 0" using crc_bits_shift [of 8 0] by simp
  with 0 show ?case by simp
next
  case (Suc n)
  show ?case
  proof (cases "i < 2 ^ n")
    case True
    then show ?thesis using Suc.IH by (simp add: nth_append)
  next
    case False
    then obtain k where k: "i = k + 2 ^ n" "k < 2 ^ n" using Suc.prems by (metis add.commute le_Suc_ex mult_2 nat_add_left_cancel_less not_less power_Suc)
    then show ?thesis using Suc.IH [OF k(2)] of_nat_add_exp [OF k(2)]
      by (simp add: nth_append crc_bits_xor unsigned_xor_eq del: of_nat_add)
  qed
qed

lemma crc32_tab_powers: "map (\<lambda>p. uint (crc_bits 8 (of_nat p))) (powers_down 8) =
   [0xedb88320, 0x76dc4190, 0x3b6e20c8, 0x1db71064, 0x0edb8832, 0x076dc419, 0xee0e612c, 0x77073096]"
  by code_simp

lemma crc32_tab_table:
  "map uint crc32_tab = crc_table [0xedb88320, 0x76dc4190, 0x3b6e20c8, 0x1db71064, 0x0edb8832, 0x076dc419, 0xee0e612c, 0x77073096]"
  by (simp add: crc32_tab_def)

lemma crc32_tab_serial:
  assumes "i < 256"
  shows "crc32_tab ! i = crc_bits 8 (of_nat i)"
proof -
  have "length crc32_tab = 256" by (simp add: crc32_tab_def)
  then have "uint (crc32_tab ! i) = map uint crc32_tab ! i" using assms by simp
  also have "\<dots> = uint (crc_bits 8 (of_nat i :: u64))"
    unfolding crc32_tab_table crc32_tab_powers [symmetric] using assms by (intro crc_table_serial) simp
  finally show ?thesis by (simp add: word_uint_eq_iff)
qed

lemma crc32_step:
  "crc32_tab ! unat ((crc XOR ucast (c :: byte)) AND 0xff) XOR drop_bit 8 crc = crc_bits 8 (crc XOR ucast c)"
proof -
  let ?y = "crc XOR ucast c"
  have low: "?y AND 0xff = take_bit 8 ?y" by (simp add: take_bit_eq_mask mask_eq_exp_minus_1)
  have split: "?y = take_bit 8 ?y XOR (push_bit 8 (drop_bit 8 ?y))"
  proof (rule bit_word_eqI)
    fix n
    assume "n < LENGTH(64)"
    then show "bit ?y n \<longleftrightarrow> bit (take_bit 8 ?y XOR push_bit 8 (drop_bit 8 ?y)) n"
      by (cases "n < 8") (simp_all add: bit_simps)
  qed
  have "unat (take_bit 8 ?y) < 256"
    unfolding unsigned_take_bit_eq using take_bit_nat_less_exp [of 8 "unat ?y"] by simp
  then have tab: "crc32_tab ! unat (take_bit 8 ?y) = crc_bits 8 (take_bit 8 ?y)"
    using crc32_tab_serial [of "unat (take_bit 8 ?y)"] by (simp only: of_nat_unat ucast_id)
  have "crc_bits 8 (push_bit 8 (drop_bit 8 ?y)) = drop_bit 8 (push_bit 8 (drop_bit 8 ?y))"
    by (rule crc_bits_shift) (simp add: bit_simps)
  also have "\<dots> = drop_bit 8 crc"
    by (rule bit_word_eqI) (auto simp: bit_simps dest: bit_imp_le_length)
  finally have "crc_bits 8 (take_bit 8 ?y) XOR drop_bit 8 crc = crc_bits 8 (take_bit 8 ?y XOR push_bit 8 (drop_bit 8 ?y))"
    unfolding crc_bits_xor by (simp only:)
  then show ?thesis unfolding low tab split [symmetric] .
qed

lemma crc32_loop_serial: "crc32_loop crc s = crc32_serial crc s"
  by (induction s arbitrary: crc) (simp_all add: crc32_step)

subsection \<open>Tables as maps\<close>

text \<open>
  Keys are compared up to the length of one of them and without regard to case; a set of keys is
  apart when that comparison is equality on it, as it is for lower-case keys of one length.
\<close>

definition keys_apart :: "cstring set \<Rightarrow> bool" where
  "keys_apart K \<longleftrightarrow> (\<forall>a \<in> K. \<forall>b \<in> K. STREQ a b (length a) \<or> STREQ a b (length b) \<longrightarrow> a = b)"

definition slot :: "('v, 'h) HashTable \<Rightarrow> cstring \<Rightarrow> nat \<Rightarrow> nat" where
  "slot t k j = (hashtable_hash_int (table_size t) k + j) mod table_size t"

definition taken_at :: "('v, 'h) HashTable \<Rightarrow> nat \<Rightarrow> bool" where
  "taken_at t i \<longleftrightarrow> i < table_size t \<and> he_taken (ht_entries t ! i)"

definition key_at :: "('v, 'h) HashTable \<Rightarrow> nat \<Rightarrow> cstring \<Rightarrow> bool" where
  "key_at t i k \<longleftrightarrow> taken_at t i \<and> he_key (ht_entries t ! i) = Some k"

definition ht_view :: "('v, 'h) HashTable \<Rightarrow> cstring \<Rightarrow> 'v option option" where
  "ht_view t k = map_option he_val (find (\<lambda>e. he_taken e \<and> he_key e = Some k) (ht_entries t))"

text \<open>
  The invariant of a table: its size counts the slots in use, at most half of them; each key in use
  stands once, in the window of eight slots from its hash.
\<close>

definition ht_ok :: "nat \<Rightarrow> cstring set \<Rightarrow> ('v, 'h) HashTable \<Rightarrow> bool" where
  "ht_ok mem K t \<longleftrightarrow>
     length (ht_entries t) = table_size t \<and> 4 \<le> table_size t \<and> table_size t \<le> mem \<and> mem < 2 ^ 31 \<and>
     ht_size t = card {i. taken_at t i} \<and> ht_size t \<le> table_size t div 2 \<and>
     (\<forall>i. taken_at t i \<longrightarrow> (\<exists>k \<in> K. key_at t i k \<and> (\<exists>j < MAX_CHAIN_LENGTH. i = slot t k j))) \<and>
     (\<forall>i i' k. key_at t i k \<and> key_at t i' k \<longrightarrow> i = i')"

text \<open>No deleted slot stands between the hash of a key and the key.\<close>

definition ht_compact :: "('v, 'h) HashTable \<Rightarrow> bool" where
  "ht_compact t \<longleftrightarrow> (\<forall>i k. key_at t i k \<longrightarrow>
     (\<exists>j < MAX_CHAIN_LENGTH. i = slot t k j \<and> (\<forall>j' < j. taken_at t (slot t k j'))))"

lemma keys_apartD:
  assumes "keys_apart K" "a \<in> K" "b \<in> K"
  shows "STREQ a b (length a) \<longleftrightarrow> a = b" "STREQ a b (length b) \<longleftrightarrow> a = b"
  using assms by (auto simp: keys_apart_def STREQ_iff)

lemma keys_apart_fixed: "keys_apart {k. length k = n \<and> map tolower k = k}"
  by (auto simp: keys_apart_def STREQ_iff)

lemma slot_less: "0 < table_size t \<Longrightarrow> slot t k j < table_size t"
  by (simp add: slot_def)

lemma slot_0: "0 < table_size t \<Longrightarrow> hashtable_hash_int (table_size t) k = slot t k 0"
  by (simp add: slot_def hashtable_hash_int_def Let_def)

lemma slot_Suc: "(slot t k j + 1) mod table_size t = slot t k (Suc j)"
  by (simp add: slot_def mod_Suc_eq)

lemma ht_ok_pos: "ht_ok mem K t \<Longrightarrow> 0 < table_size t"
  by (simp add: ht_ok_def)

lemma u64_to_int_of_nat: "i < 2 ^ 31 \<Longrightarrow> u64_to_int (of_nat i) = int i"
  using u64_to_int_small [of "of_nat i"] by (simp add: uint_nat unat_of_nat take_bit_nat_eq_self)

lemma key_at_K:
  assumes "ht_ok mem K t" and "taken_at t i"
  obtains k where "k \<in> K" and "key_at t i k" and "he_key (ht_entries t ! i) = Some k"
  using assms unfolding ht_ok_def key_at_def by blast

lemma entry_at_ok: "ht_ok mem K t \<Longrightarrow> i < table_size t \<Longrightarrow> entry_at t i = Inr (ht_entries t ! i)"
  by (simp add: ht_ok_def entry_at_def)

lemma ht_view_Some:
  assumes "ht_ok mem K t"
  shows "ht_view t k = Some v \<longleftrightarrow> (\<exists>i. key_at t i k \<and> he_val (ht_entries t ! i) = v)"
proof
  assume "ht_view t k = Some v"
  then obtain i where "i < length (ht_entries t)" "he_taken (ht_entries t ! i)" "he_key (ht_entries t ! i) = Some k"
    "he_val (ht_entries t ! i) = v"
    by (auto simp: ht_view_def find_Some_iff)
  then show "\<exists>i. key_at t i k \<and> he_val (ht_entries t ! i) = v"
    using assms by (auto simp: key_at_def taken_at_def ht_ok_def)
next
  assume "\<exists>i. key_at t i k \<and> he_val (ht_entries t ! i) = v"
  then obtain i where i: "key_at t i k" "he_val (ht_entries t ! i) = v" by blast
  have len: "length (ht_entries t) = table_size t" using assms by (simp add: ht_ok_def)
  have at: "i < table_size t" "he_taken (ht_entries t ! i)" "he_key (ht_entries t ! i) = Some k"
    using i(1) by (simp_all add: key_at_def taken_at_def)
  have "\<not> (he_taken (ht_entries t ! j) \<and> he_key (ht_entries t ! j) = Some k)" if "j < i" for j
  proof -
    have "\<not> key_at t j k" using assms i(1) that unfolding ht_ok_def by blast
    then show ?thesis using that at(1) by (simp add: key_at_def taken_at_def)
  qed
  then have "find (\<lambda>e. he_taken e \<and> he_key e = Some k) (ht_entries t) = Some (ht_entries t ! i)"
    unfolding find_Some_iff using at len by (intro exI [of _ i]) simp
  then show "ht_view t k = Some v" using i(2) by (simp add: ht_view_def)
qed

lemma ht_view_None:
  assumes "ht_ok mem K t"
  shows "ht_view t k = None \<longleftrightarrow> (\<forall>i. \<not> key_at t i k)"
proof (cases "ht_view t k")
  case None
  have "\<not> key_at t i k" for i
    using ht_view_Some [OF assms, of k "he_val (ht_entries t ! i)"] None by auto
  with None show ?thesis by simp
next
  case (Some v)
  then show ?thesis using ht_view_Some [OF assms, of k v] by auto
qed

subsection \<open>Probing\<close>

lemma find_probe_spec:
  assumes "ht_ok mem K t" and "keys_apart K" and "key \<in> K"
  shows "(\<exists>i. find_probe t key (slot t key j) n = Inr (Some i) \<and> key_at t i key) \<or>
    find_probe t key (slot t key j) n = Inr None \<and> (\<forall>m<n. \<not> key_at t (slot t key (j + m)) key)"
proof (induction n arbitrary: j)
  case (Suc n)
  let ?i = "slot t key j"
  have less: "?i < table_size t" using ht_ok_pos [OF assms(1)] by (rule slot_less)
  note IH = Suc.IH [of "Suc j"]
  note step = entry_at_ok [OF assms(1) less] slot_Suc [simplified] All_less_Suc2
  show ?case
  proof (cases "taken_at t ?i")
    case True
    then obtain k where k: "k \<in> K" "key_at t ?i k" "he_key (ht_entries t ! ?i) = Some k"
      by (rule key_at_K [OF assms(1)])
    have "he_taken (ht_entries t ! ?i)" using True by (simp add: taken_at_def)
    moreover have "STREQ k key (length key) \<longleftrightarrow> k = key" using keys_apartD [OF assms(2) k(1) assms(3)] by simp
    moreover have "key_at t ?i key \<longleftrightarrow> k = key" using k by (auto simp: key_at_def)
    ultimately show ?thesis using k IH by (simp add: step)
  next
    case False
    then have "\<not> he_taken (ht_entries t ! ?i)" "\<not> key_at t ?i key"
      using less by (simp_all add: taken_at_def key_at_def)
    then show ?thesis using IH by (simp add: step)
  qed
qed simp

lemma find_spec:
  assumes "ht_ok mem K t" and "keys_apart K" and "key \<in> K"
  shows "(\<exists>i. find_probe t key (hashtable_hash_int (table_size t) key) MAX_CHAIN_LENGTH = Inr (Some i) \<and> key_at t i key) \<or>
    find_probe t key (hashtable_hash_int (table_size t) key) MAX_CHAIN_LENGTH = Inr None \<and> ht_view t key = None"
proof -
  have "\<not> key_at t i key" if "\<forall>m < MAX_CHAIN_LENGTH. \<not> key_at t (slot t key m) key" for i
  proof
    assume k: "key_at t i key"
    then have "taken_at t i" by (simp add: key_at_def)
    then obtain k' j where "key_at t i k'" "j < MAX_CHAIN_LENGTH" "i = slot t k' j"
      using assms(1) unfolding ht_ok_def by blast
    moreover from this(1) k have "k' = key" by (simp add: key_at_def)
    ultimately show False using that k by blast
  qed
  then show ?thesis
    using find_probe_spec [OF assms, of 0 MAX_CHAIN_LENGTH] assms(1)
    by (auto simp: slot_0 ht_ok_pos ht_view_None)
qed

text \<open>The slot \<^verbatim>\<open>hashtable_hash\<close> chooses: the first of the window that is free or has the key.\<close>

lemma hash_probe_spec:
  assumes "ht_ok mem K t" and "keys_apart K" and "key \<in> K"
  shows "(\<exists>m<n. hash_probe t key (slot t key j) n = Inr (int (slot t key (j + m))) \<and>
      (\<not> taken_at t (slot t key (j + m)) \<or> key_at t (slot t key (j + m)) key) \<and>
      (\<forall>m'<m. taken_at t (slot t key (j + m')) \<and> \<not> key_at t (slot t key (j + m')) key)) \<or>
    hash_probe t key (slot t key j) n = Inr (- HASHTABLE_FULL) \<and> (\<forall>m<n. taken_at t (slot t key (j + m)))"
proof (induction n arbitrary: j)
  case (Suc n)
  let ?i = "slot t key j"
  have less: "?i < table_size t" using ht_ok_pos [OF assms(1)] by (rule slot_less)
  moreover have "table_size t < 2 ^ 31" using assms(1) by (simp add: ht_ok_def)
  ultimately have "u64_to_int (of_nat ?i) = int ?i" by (intro u64_to_int_of_nat) simp
  note step = entry_at_ok [OF assms(1) less] slot_Suc [simplified] All_less_Suc2 Ex_less_Suc2 this
  note IH = Suc.IH [of "Suc j"]
  show ?case
  proof (cases "taken_at t ?i")
    case True
    then obtain k where k: "k \<in> K" "key_at t ?i k" "he_key (ht_entries t ! ?i) = Some k"
      by (rule key_at_K [OF assms(1)])
    have "he_taken (ht_entries t ! ?i)" using True by (simp add: taken_at_def)
    moreover have "STREQ k key (length k) \<longleftrightarrow> k = key" using keys_apartD [OF assms(2) k(1) assms(3)] by simp
    moreover have "key_at t ?i key \<longleftrightarrow> k = key" using k by (auto simp: key_at_def)
    ultimately show ?thesis using k IH True by (simp add: step)
  next
    case False
    then have "\<not> he_taken (ht_entries t ! ?i)" using less by (simp add: taken_at_def)
    then show ?thesis using False by (simp add: step)
  qed
qed simp

subsection \<open>Storing and releasing an entry\<close>

abbreviation new_entry :: "cstring \<Rightarrow> 'v option \<Rightarrow> 'v hashtable_entry" where
  "new_entry key v \<equiv> \<lparr> he_key = Some key, he_val = v, he_taken = True \<rparr>"

abbreviation store_entry :: "('v, 'h) HashTable \<Rightarrow> nat \<Rightarrow> cstring \<Rightarrow> 'v option \<Rightarrow> ('v, 'h) HashTable" where
  "store_entry t i key v \<equiv> t\<lparr> ht_entries := (ht_entries t)[i := new_entry key v],
     ht_size := (if \<not> he_taken (ht_entries t ! i) then ht_size t + 1 else ht_size t) \<rparr>"

lemma option_eqI: "(\<And>x. a = Some x \<longleftrightarrow> b = Some x) \<Longrightarrow> a = b"
  by (cases a; cases b) auto

lemma table_size_update [simp]:
  "table_size (t\<lparr> ht_entries := es, ht_size := n \<rparr>) = table_size t"
  "slot (t\<lparr> ht_entries := es, ht_size := n \<rparr>) = slot t"
  by (simp_all add: slot_def fun_eq_iff)

lemma finite_taken: "finite {i. taken_at t i}"
  by (rule finite_subset [of _ "{..< table_size t}"]) (auto simp: taken_at_def)

lemma store_taken_at:
  assumes "ht_ok mem K t" and "i < table_size t"
  shows "taken_at (store_entry t i key v) i' \<longleftrightarrow> i' = i \<or> taken_at t i'"
  using assms by (auto simp: taken_at_def ht_ok_def nth_list_update)

lemma store_key_at:
  assumes "ht_ok mem K t" and "i < table_size t"
  shows "key_at (store_entry t i key v) i' k \<longleftrightarrow> (if i' = i then k = key else key_at t i' k)"
  using assms by (auto simp: key_at_def taken_at_def ht_ok_def nth_list_update)

lemma ht_okI:
  assumes "length (ht_entries t) = table_size t" "4 \<le> table_size t" "table_size t \<le> mem" "mem < 2 ^ 31"
    "ht_size t = card {i. taken_at t i}" "ht_size t \<le> table_size t div 2"
    "\<And>i. taken_at t i \<Longrightarrow> \<exists>k \<in> K. key_at t i k \<and> (\<exists>j < MAX_CHAIN_LENGTH. i = slot t k j)"
    "\<And>i i' k. key_at t i k \<Longrightarrow> key_at t i' k \<Longrightarrow> i = i'"
  shows "ht_ok mem K t"
  using assms unfolding ht_ok_def by blast

lemma store_ok:
  assumes ok: "ht_ok mem K t" and "key \<in> K" and i: "i = slot t key m" "m < MAX_CHAIN_LENGTH"
    and free: "\<not> taken_at t i \<or> key_at t i key" and room: "ht_size t < table_size t div 2"
    and only: "\<And>i'. key_at t i' key \<Longrightarrow> i' = i"
  shows "ht_ok mem K (store_entry t i key v)" (is "ht_ok _ _ ?t'")
proof -
  have less: "i < table_size t" unfolding i by (rule slot_less [OF ht_ok_pos [OF ok]])
  have "{j. taken_at ?t' j} = insert i {j. taken_at t j}" using store_taken_at [OF ok less] by auto
  then have size: "ht_size ?t' = card {j. taken_at ?t' j}"
    using ok less finite_taken [of t] by (auto simp: ht_ok_def taken_at_def card_insert_if)
  have half: "ht_size ?t' \<le> table_size t div 2" using room by simp
  have keyed: "\<exists>k \<in> K. key_at ?t' j k \<and> (\<exists>n < MAX_CHAIN_LENGTH. j = slot t k n)" if "taken_at ?t' j" for j
  proof (cases "j = i")
    case True
    then have "key_at ?t' j key" using store_key_at [OF ok less] by simp
    then show ?thesis using True assms(2) i by (intro bexI [of _ key] conjI exI [of _ m]) simp_all
  next
    case False
    then have "taken_at t j" using that store_taken_at [OF ok less] by blast
    then obtain k n where "k \<in> K" "key_at t j k" "n < MAX_CHAIN_LENGTH" "j = slot t k n"
      using ok unfolding ht_ok_def by blast
    then show ?thesis using False store_key_at [OF ok less] by metis
  qed
  have once: "j = j'" if "key_at ?t' j k" "key_at ?t' j' k" for j j' k
  proof -
    have "\<And>j j'. key_at t j k \<Longrightarrow> key_at t j' k \<Longrightarrow> j = j'" using ok unfolding ht_ok_def by blast
    then show ?thesis using that only unfolding store_key_at [OF ok less] by (metis (full_types))
  qed
  have "length (ht_entries ?t') = table_size t" "4 \<le> table_size t" "table_size t \<le> mem" "mem < 2 ^ 31"
    using ok by (simp_all add: ht_ok_def)
  then show ?thesis
    by (intro ht_okI) (use size half keyed once in \<open>simp_all only: table_size_update\<close>)
qed

lemma store_view:
  assumes ok: "ht_ok mem K t" and ok': "ht_ok mem K (store_entry t i key v)" and less: "i < table_size t"
    and free: "\<not> taken_at t i \<or> key_at t i key"
  shows "ht_view (store_entry t i key v) = (ht_view t)(key \<mapsto> v)" (is "ht_view ?t' = _")
proof
  fix k
  have len: "length (ht_entries t) = table_size t" using ok by (simp add: ht_ok_def)
  show "ht_view ?t' k = ((ht_view t)(key \<mapsto> v)) k"
  proof (cases "k = key")
    case True
    have "key_at ?t' i k" using True store_key_at [OF ok less] by simp
    then have "ht_view ?t' k = Some v"
      unfolding ht_view_Some [OF ok'] using less len by (intro exI [of _ i]) simp
    then show ?thesis using True by simp
  next
    case False
    have "\<not> key_at t i k" using free False by (auto simp: key_at_def)
    then have "key_at ?t' j k \<and> he_val (ht_entries ?t' ! j) = x \<longleftrightarrow> key_at t j k \<and> he_val (ht_entries t ! j) = x" for j x
      using False store_key_at [OF ok less] by (cases "j = i") simp_all
    then have "ht_view ?t' k = Some x \<longleftrightarrow> ht_view t k = Some x" for x
      unfolding ht_view_Some [OF ok'] ht_view_Some [OF ok] by simp
    then have "ht_view ?t' k = ht_view t k" by (rule option_eqI)
    then show ?thesis using False by simp
  qed
qed

lemma store_compact:
  assumes ok: "ht_ok mem K t" and cp: "ht_compact t" and i: "i = slot t key m" "m < MAX_CHAIN_LENGTH"
    and before: "\<forall>m'<m. taken_at t (slot t key m')"
  shows "ht_compact (store_entry t i key v)" (is "ht_compact ?t'")
  unfolding ht_compact_def
proof (intro allI impI)
  fix j k
  assume at: "key_at ?t' j k"
  have less: "i < table_size t" unfolding i by (rule slot_less [OF ht_ok_pos [OF ok]])
  show "\<exists>n<MAX_CHAIN_LENGTH. j = slot ?t' k n \<and> (\<forall>n'<n. taken_at ?t' (slot ?t' k n'))"
  proof (cases "j = i")
    case True
    then have "k = key" using at store_key_at [OF ok less] by simp
    then show ?thesis
      using True i before store_taken_at [OF ok less] by (intro exI [of _ m]) simp
  next
    case False
    then have "key_at t j k" using at store_key_at [OF ok less] by simp
    then obtain n where "n < MAX_CHAIN_LENGTH" "j = slot t k n" "\<forall>n'<n. taken_at t (slot t k n')"
      using cp unfolding ht_compact_def by blast
    then show ?thesis using store_taken_at [OF ok less] by (intro exI [of _ n]) simp
  qed
qed

subsection \<open>Insertion\<close>

lemma hash_cases:
  assumes ok: "ht_ok mem K t" and apart: "keys_apart K" and key: "key \<in> K"
    and fresh: "ht_view t key = None \<or> ht_compact t"
  obtains (full) "hashtable_hash t key = Inr (- HASHTABLE_FULL)"
    "ht_size t < table_size t div 2 \<Longrightarrow> \<forall>m < MAX_CHAIN_LENGTH. taken_at t (slot t key m)"
  | (found) i where "hashtable_hash t key = Inr (int i)" "i < table_size t" "ht_ok mem K (store_entry t i key v)"
    "ht_view (store_entry t i key v) = (ht_view t)(key \<mapsto> v)" "ht_compact t \<longrightarrow> ht_compact (store_entry t i key v)"
proof (cases "ht_size t < table_size t div 2")
  case False
  then show ?thesis using full by (simp add: hashtable_hash_def)
next
  case room: True
  then have hash: "hashtable_hash t key = hash_probe t key (slot t key 0) MAX_CHAIN_LENGTH"
    using ok by (simp add: hashtable_hash_def slot_0 ht_ok_pos)
  show ?thesis
  proof (cases "(\<forall>m < MAX_CHAIN_LENGTH. taken_at t (slot t key m)) \<and>
      hash_probe t key (slot t key 0) MAX_CHAIN_LENGTH = Inr (- HASHTABLE_FULL)")
    case True
    then show ?thesis using full hash by simp
  next
    case False
    then obtain m where m: "m < MAX_CHAIN_LENGTH" "hash_probe t key (slot t key 0) MAX_CHAIN_LENGTH = Inr (int (slot t key m))"
      "\<not> taken_at t (slot t key m) \<or> key_at t (slot t key m) key"
      "\<forall>m'<m. taken_at t (slot t key m') \<and> \<not> key_at t (slot t key m') key"
      using hash_probe_spec [OF ok apart key, of MAX_CHAIN_LENGTH 0] by auto
    have less: "slot t key m < table_size t" by (rule slot_less [OF ht_ok_pos [OF ok]])
    have only: "i' = slot t key m" if at: "key_at t i' key" for i'
    proof -
      have "ht_compact t" using fresh at ht_view_None [OF ok] by blast
      then obtain n where n: "i' = slot t key n" "\<forall>n'<n. taken_at t (slot t key n')"
        using at unfolding ht_compact_def by blast
      consider "n < m" | "n = m" | "m < n" by linarith
      then show ?thesis
      proof cases
        case 3
        then have "key_at t (slot t key m) key" using m(3) n(2) by blast
        then show ?thesis using ok at unfolding ht_ok_def by blast
      qed (use m(4) n(1) at in auto)
    qed
    have ok': "ht_ok mem K (store_entry t (slot t key m) key v)"
      by (rule store_ok [OF ok key refl m(1) m(3) room only])
    show ?thesis
      using found [of "slot t key m"] hash m less ok' store_view [OF ok ok' less m(3)]
        store_compact [OF ok _ refl m(1), of key v] by simp
  qed
qed

text \<open>The map a list of entries stands for, and lists whose keys stand once.\<close>

definition entries_view :: "'v hashtable_entry list \<Rightarrow> cstring \<Rightarrow> 'v option option" where
  "entries_view es k = map_option he_val (find (\<lambda>e. he_taken e \<and> he_key e = Some k) es)"

fun entries_ok :: "cstring set \<Rightarrow> 'v hashtable_entry list \<Rightarrow> bool" where
  "entries_ok K [] \<longleftrightarrow> True"
| "entries_ok K (e # es) \<longleftrightarrow>
     (he_taken e \<longrightarrow> (\<exists>k \<in> K. he_key e = Some k \<and> entries_view es k = None)) \<and> entries_ok K es"

lemma ht_view_entries: "ht_view t = entries_view (ht_entries t)"
  by (simp add: fun_eq_iff ht_view_def entries_view_def)

lemma entries_okI:
  assumes "\<And>i. i < length es \<Longrightarrow> he_taken (es ! i) \<Longrightarrow> \<exists>k \<in> K. he_key (es ! i) = Some k"
    and "\<And>i j k. i < length es \<Longrightarrow> j < length es \<Longrightarrow> he_taken (es ! i) \<Longrightarrow> he_taken (es ! j) \<Longrightarrow>
      he_key (es ! i) = Some k \<Longrightarrow> he_key (es ! j) = Some k \<Longrightarrow> i = j"
  shows "entries_ok K es"
  using assms
proof (induction es)
  case (Cons e es)
  have "entries_ok K es"
  proof (rule Cons.IH)
    show "\<exists>k \<in> K. he_key (es ! i) = Some k" if "i < length es" "he_taken (es ! i)" for i
      using Cons.prems(1) [of "Suc i"] that by simp
    show "i = j" if "i < length es" "j < length es" "he_taken (es ! i)" "he_taken (es ! j)"
      "he_key (es ! i) = Some k" "he_key (es ! j) = Some k" for i j k
      using Cons.prems(2) [of "Suc i" "Suc j" k] that by simp
  qed
  moreover have "\<exists>k \<in> K. he_key e = Some k \<and> entries_view es k = None" if taken: "he_taken e"
  proof -
    obtain k where k: "k \<in> K" "he_key e = Some k" using Cons.prems(1) [of 0] taken by auto
    have "\<not> (he_taken (es ! j) \<and> he_key (es ! j) = Some k)" if "j < length es" for j
      using Cons.prems(2) [of 0 "Suc j" k] that k(2) taken by auto
    then have "entries_view es k = None"
      by (auto simp: entries_view_def find_None_iff in_set_conv_nth)
    with k show ?thesis by blast
  qed
  ultimately show ?case by simp
qed simp

lemma ht_ok_entries:
  assumes ok: "ht_ok mem K t"
  shows "entries_ok K (ht_entries t)"
proof (rule entries_okI)
  have len: "length (ht_entries t) = table_size t" using ok by (simp add: ht_ok_def)
  show "\<exists>k \<in> K. he_key (ht_entries t ! i) = Some k" if "i < length (ht_entries t)" "he_taken (ht_entries t ! i)" for i
    using key_at_K [OF ok, of i] that len unfolding taken_at_def by metis
  show "i = j" if "i < length (ht_entries t)" "j < length (ht_entries t)" "he_taken (ht_entries t ! i)"
    "he_taken (ht_entries t ! j)" "he_key (ht_entries t ! i) = Some k" "he_key (ht_entries t ! j) = Some k" for i j k
  proof -
    have "key_at t i k" "key_at t j k" using that len by (simp_all add: key_at_def taken_at_def)
    then show ?thesis using ok unfolding ht_ok_def by blast
  qed
qed

text \<open>What an insertion promises: an error code, or the table with the key set.\<close>

definition put_result :: "nat \<Rightarrow> cstring set \<Rightarrow> ('v, 'h) HashTable \<Rightarrow> (cstring \<rightharpoonup> 'v option) \<Rightarrow> (('v, 'h) HashTable \<times> int) cres \<Rightarrow> bool" where
  "put_result mem K t view r \<longleftrightarrow>
     (\<exists>t' s. r = Inr (t', s) \<and> table_size t \<le> table_size t' \<and>
        (s = - HASHTABLE_ERR \<or>
         s = HASHTABLE_OK \<and> ht_ok mem K t' \<and> ht_view t' = view \<and> (ht_compact t \<longrightarrow> ht_compact t')))"

lemma put_found:
  assumes "hashtable_hash t key = Inr (int i)" and "ht_ok mem K t" and "i < table_size t"
  shows "hashtable_put mem (Suc f) t key v = Inr (store_entry t i key v, HASHTABLE_OK)"
  using assms by (simp add: entry_at_ok Let_def HASHTABLE_FULL_def)

lemma rehash_loop_spec:
  assumes put: "\<And>t key v. ht_ok mem K t \<Longrightarrow> key \<in> K \<Longrightarrow> ht_view t key = None \<or> ht_compact t \<Longrightarrow>
      mem < table_size t * 2 ^ f \<Longrightarrow> put_result mem K t ((ht_view t)(key \<mapsto> v)) (put t key v)"
    and "ht_ok mem K t" and "ht_compact t" and "mem < table_size t * 2 ^ f" and "entries_ok K es"
  shows "put_result mem K t (ht_view t ++ entries_view es) (rehash_loop put t es)"
  using assms(2-)
proof (induction es arbitrary: t)
  case Nil
  have "ht_view t ++ entries_view [] = ht_view t" by (simp add: entries_view_def fun_eq_iff map_add_def)
  then show ?case using Nil by (simp add: put_result_def)
next
  case (Cons e es)
  show ?case
  proof (cases "he_taken e")
    case False
    then have "entries_view (e # es) = entries_view es" by (simp add: entries_view_def fun_eq_iff)
    then show ?thesis using Cons.IH [OF Cons.prems(1-3)] Cons.prems(4) False by simp
  next
    case True
    then obtain k where k: "k \<in> K" "he_key e = Some k" "entries_view es k = None" using Cons.prems(4) by auto
    have "put_result mem K t ((ht_view t)(k \<mapsto> he_val e)) (put t k (he_val e))"
      by (rule put [OF Cons.prems(1) k(1) _ Cons.prems(3)]) (simp add: Cons.prems(2))
    then obtain t1 s where t1: "put t k (he_val e) = Inr (t1, s)" "table_size t \<le> table_size t1"
      "s = - HASHTABLE_ERR \<or> s = HASHTABLE_OK \<and> ht_ok mem K t1 \<and> ht_view t1 = (ht_view t)(k \<mapsto> he_val e) \<and> ht_compact t1"
      using Cons.prems(2) unfolding put_result_def by blast
    show ?thesis
    proof (cases "s = HASHTABLE_OK")
      case False
      then show ?thesis using t1 True k(2) by (simp add: put_result_def)
    next
      case ok: True
      have "ht_view t1 ++ entries_view es = ht_view t ++ entries_view (e # es)"
        using t1(3) ok True k(2,3) by (auto simp: fun_eq_iff entries_view_def map_add_def
            HASHTABLE_OK_def HASHTABLE_ERR_def split: option.splits)
      moreover have "table_size t * 2 ^ f \<le> table_size t1 * 2 ^ f" using t1(2) by simp
      then have "mem < table_size t1 * 2 ^ f" using Cons.prems(3) by linarith
      then have "put_result mem K t1 (ht_view t1 ++ entries_view es) (rehash_loop put t1 es)"
        using Cons.IH [of t1] t1(3) ok Cons.prems(4) by (simp add: HASHTABLE_OK_def HASHTABLE_ERR_def)
      ultimately show ?thesis
        using t1 True k(2) ok unfolding put_result_def
        by (auto simp: HASHTABLE_OK_def HASHTABLE_ERR_def)
    qed
  qed
qed

abbreviation grown :: "('v, 'h) HashTable \<Rightarrow> ('v, 'h) HashTable" where
  "grown t \<equiv> t\<lparr> ht_entries := replicate (2 * table_size t) no_entry, table_size := 2 * table_size t, ht_size := 0 \<rparr>"

lemma fresh_table_ok:
  assumes "ht_ok mem K t" and "2 * table_size t \<le> mem"
  shows "ht_ok mem K (grown t)" and "ht_compact (grown t)" and "ht_view (grown t) = Map.empty"
proof -
  let ?t = "grown t"
  have none: "\<not> taken_at ?t i" "\<not> key_at ?t i k" for i k
    by (simp_all add: taken_at_def key_at_def no_entry_def)
  show "ht_ok mem K ?t" using assms none by (intro ht_okI) (simp_all add: ht_ok_def)
  show "ht_compact ?t" using none by (simp add: ht_compact_def)
  show "ht_view ?t = Map.empty" by (simp add: ht_view_def fun_eq_iff no_entry_def find_None_iff)
qed

lemma rehash_spec:
  assumes put: "\<And>t key v. ht_ok mem K t \<Longrightarrow> key \<in> K \<Longrightarrow> ht_view t key = None \<or> ht_compact t \<Longrightarrow>
      mem < table_size t * 2 ^ f \<Longrightarrow> put_result mem K t ((ht_view t)(key \<mapsto> v)) (put t key v)"
    and ok: "ht_ok mem K t" and fuel: "mem < table_size t * 2 ^ Suc f"
  shows "\<exists>t' s. hashtable_rehash mem put t = Inr (t', s) \<and> table_size t \<le> table_size t' \<and>
    (s = - HASHTABLE_ERR \<or> s = HASHTABLE_OK \<and> ht_ok mem K t' \<and> ht_view t' = ht_view t \<and> ht_compact t' \<and>
       2 * table_size t \<le> table_size t')"
proof (cases "2 * table_size t > mem")
  case True
  then show ?thesis by (simp add: hashtable_rehash_def)
next
  case False
  let ?t = "grown t"
  have fresh: "ht_ok mem K ?t" "ht_compact ?t" "ht_view ?t = Map.empty"
    using fresh_table_ok [OF ok] False by auto
  have "put_result mem K ?t (ht_view ?t ++ entries_view (ht_entries t)) (rehash_loop put ?t (ht_entries t))"
    by (rule rehash_loop_spec [OF put fresh(1,2) _ ht_ok_entries [OF ok]]) (use fuel in \<open>simp_all add: ac_simps\<close>)
  then show ?thesis
    using False fresh(2) unfolding fresh(3) hashtable_rehash_def put_result_def ht_view_entries [of t] by auto
qed

lemma put_spec:
  assumes "keys_apart K"
  shows "ht_ok mem K t \<Longrightarrow> key \<in> K \<Longrightarrow> ht_view t key = None \<or> ht_compact t \<Longrightarrow> mem < table_size t * 2 ^ f \<Longrightarrow>
    put_result mem K t ((ht_view t)(key \<mapsto> v)) (hashtable_put mem f t key v)"
proof (induction f arbitrary: t key v)
  case 0
  then show ?case by (simp add: ht_ok_def)
next
  case (Suc f)
  from Suc.prems(1) assms Suc.prems(2,3) show ?case
  proof (cases rule: hash_cases [where v = v])
    case (found i)
    then show ?thesis
      using put_found [OF found(1) Suc.prems(1) found(2)] unfolding put_result_def by auto
  next
    case full
    obtain t1 s where t1: "hashtable_rehash mem (hashtable_put mem f) t = Inr (t1, s)" "table_size t \<le> table_size t1"
      "s = - HASHTABLE_ERR \<or> s = HASHTABLE_OK \<and> ht_ok mem K t1 \<and> ht_view t1 = ht_view t \<and> ht_compact t1 \<and>
         2 * table_size t \<le> table_size t1"
      using rehash_spec [OF Suc.IH Suc.prems(1,4)] by blast
    show ?thesis
    proof (cases "s = - HASHTABLE_ERR")
      case True
      then show ?thesis using full(1) t1 by (simp add: put_result_def)
    next
      case False
      then have t1': "ht_ok mem K t1" "ht_view t1 = ht_view t" "ht_compact t1" "2 * table_size t \<le> table_size t1"
        using t1(3) by auto
      have "2 * table_size t * 2 ^ f \<le> table_size t1 * 2 ^ f" using t1'(4) by (rule mult_le_mono1)
      moreover have "mem < 2 * table_size t * 2 ^ f" using Suc.prems(4) by (simp add: ac_simps)
      ultimately have "mem < table_size t1 * 2 ^ f" by linarith
      then have "put_result mem K t1 ((ht_view t1)(key \<mapsto> v)) (hashtable_put mem f t1 key v)"
        using Suc.IH [OF t1'(1) Suc.prems(2), of v] t1'(3) by blast
      then show ?thesis using full(1) t1(1,2) t1'(3) False unfolding t1'(2) by (auto simp: put_result_def fun_upd_def)
    qed
  qed
qed

subsection \<open>Small tables always have room\<close>

lemma window_free:
  assumes ok: "ht_ok mem K t" and "ht_size t < 8" and "ht_size t < table_size t div 2"
  shows "\<exists>m < MAX_CHAIN_LENGTH. \<not> taken_at t (slot t key m)"
proof (rule ccontr)
  assume "\<not> (\<exists>m < MAX_CHAIN_LENGTH. \<not> taken_at t (slot t key m))"
  then have all: "taken_at t (slot t key m)" if "m < 8" for m using that by (auto simp: MAX_CHAIN_LENGTH_def)
  let ?n = "min 8 (table_size t)"
  have "inj_on (slot t key) {..<?n}"
  proof (rule inj_onI)
    fix a b
    assume ab: "a \<in> {..<?n}" "b \<in> {..<?n}" and eq: "slot t key a = slot t key b"
    let ?h = "hashtable_hash_int (table_size t) key"
    have "int (?h + a) mod int (table_size t) = int (?h + b) mod int (table_size t)"
      using eq by (simp only: slot_def flip: of_nat_mod)
    then have "int (table_size t) dvd int a - int b" by (simp add: mod_eq_dvd_iff)
    then have "int a - int b \<noteq> 0 \<Longrightarrow> \<bar>int (table_size t)\<bar> \<le> \<bar>int a - int b\<bar>" by (rule dvd_imp_le_int [rotated])
    moreover have "\<bar>int a - int b\<bar> < int (table_size t)" using ab by auto
    ultimately show "a = b" by linarith
  qed
  then have "?n = card (slot t key ` {..<?n})" by (simp add: card_image)
  also have "\<dots> \<le> card {i. taken_at t i}"
    by (rule card_mono [OF finite_taken]) (auto intro: all)
  also have "\<dots> = ht_size t" using ok by (simp add: ht_ok_def)
  finally show False using assms(2,3) by auto
qed

lemma small_found:
  assumes "ht_ok mem K t" and "keys_apart K" and "key \<in> K" and "ht_view t key = None \<or> ht_compact t"
    and "ht_size t < 8" and "ht_size t < table_size t div 2"
  obtains t' where "\<And>f. hashtable_put mem (Suc f) t key v = Inr (t', HASHTABLE_OK)" "ht_ok mem K t'"
    "ht_view t' = (ht_view t)(key \<mapsto> v)" "ht_compact t \<longrightarrow> ht_compact t'" "table_size t' = table_size t"
    "ht_size t' \<le> ht_size t + 1"
  using assms(1-4)
proof (cases rule: hash_cases [where v = v])
  case full
  then show ?thesis using window_free [OF assms(1,5,6)] assms(6) by blast
next
  case (found i)
  then show ?thesis
    using that [of "store_entry t i key v"] put_found [OF found(1) assms(1) found(2)] by simp
qed

lemma rehash_small:
  assumes "keys_apart K" and "ht_ok mem K t" and "ht_compact t" and "entries_ok K es"
    and "ht_size t + length (filter he_taken es) < 8"
    and "ht_size t + length (filter he_taken es) \<le> table_size t div 2"
  shows "\<exists>t'. rehash_loop (hashtable_put mem (Suc f)) t es = Inr (t', HASHTABLE_OK) \<and> ht_ok mem K t' \<and> ht_compact t' \<and>
    table_size t' = table_size t \<and> ht_size t' \<le> ht_size t + length (filter he_taken es)"
  using assms(2-)
proof (induction es arbitrary: t)
  case (Cons e es)
  show ?case
  proof (cases "he_taken e")
    case True
    then obtain k where k: "k \<in> K" "he_key e = Some k" using Cons.prems(3) by auto
    have "ht_view t k = None \<or> ht_compact t" "ht_size t < 8" "ht_size t < table_size t div 2"
      using Cons.prems True by simp_all
    with Cons.prems(1) assms(1) k(1) obtain t1 where t1: "hashtable_put mem (Suc f) t k (he_val e) = Inr (t1, HASHTABLE_OK)"
      "ht_ok mem K t1" "ht_compact t \<longrightarrow> ht_compact t1" "table_size t1 = table_size t" "ht_size t1 \<le> ht_size t + 1"
      by (rule small_found [where v = "he_val e"]) blast
    then have "\<exists>t'. rehash_loop (hashtable_put mem (Suc f)) t1 es = Inr (t', HASHTABLE_OK) \<and> ht_ok mem K t' \<and> ht_compact t' \<and>
        table_size t' = table_size t1 \<and> ht_size t' \<le> ht_size t1 + length (filter he_taken es)"
      using Cons.prems True by (intro Cons.IH) simp_all
    then show ?thesis using t1 True k(2) by (auto simp del: hashtable_put.simps)
  next
    case False
    then show ?thesis using Cons.IH [of t] Cons.prems by (simp del: hashtable_put.simps)
  qed
qed simp

lemma put_small:
  assumes ok: "ht_ok mem K t" and apart: "keys_apart K" and key: "key \<in> K"
    and fresh: "ht_view t key = None \<or> ht_compact t"
    and small: "ht_size t < 8" and mem: "2 * table_size t \<le> mem"
  shows "\<exists>t'. hashtable_put mem (Suc (Suc f)) t key v = Inr (t', HASHTABLE_OK)"
proof (cases "ht_size t < table_size t div 2")
  case True
  show ?thesis using small_found [OF ok apart key fresh small True] by blast
next
  case False
  have len: "length (filter he_taken (ht_entries t)) = ht_size t"
    using ok by (simp add: length_filter_conv_card ht_ok_def taken_at_def)
  have half: "ht_size t \<le> table_size t div 2" "4 \<le> table_size t" using ok by (simp_all add: ht_ok_def)
  then have whole: "ht_size t \<le> table_size t" by linarith
  obtain t1 where t1: "rehash_loop (hashtable_put mem (Suc f)) (grown t) (ht_entries t) = Inr (t1, HASHTABLE_OK)"
    "ht_ok mem K t1" "ht_compact t1" "table_size t1 = 2 * table_size t" "ht_size t1 \<le> ht_size t"
    using rehash_small [OF apart fresh_table_ok(1,2) [OF ok mem] ht_ok_entries [OF ok], of f] len small whole by auto
  have "ht_size t1 < 8" "ht_size t1 < table_size t1 div 2" using t1(4,5) small half by simp_all
  then obtain t' where "hashtable_put mem (Suc f) t1 key v = Inr (t', HASHTABLE_OK)"
    using small_found [OF t1(2) apart key disjI2 [OF t1(3)]] by metis
  moreover have "hashtable_hash t key = Inr (- HASHTABLE_FULL)" using False by (simp add: hashtable_hash_def)
  ultimately show ?thesis
    using t1(1) mem by (simp add: hashtable_rehash_def HASHTABLE_OK_def HASHTABLE_ERR_def del: hashtable_put.simps(2) add: hashtable_put.simps(2) [of mem "Suc f" t])
qed

subsection \<open>Lookup and deletion\<close>

lemma hashtable_get_view:
  assumes "ht_ok mem K t" and "keys_apart K" and "key \<in> K"
  shows "hashtable_get t key = Inr (case ht_view t key of Some v \<Rightarrow> v | None \<Rightarrow> None)"
  using find_spec [OF assms]
proof (elim disjE exE conjE)
  fix i
  assume r: "find_probe t key (hashtable_hash_int (table_size t) key) MAX_CHAIN_LENGTH = Inr (Some i)" and at: "key_at t i key"
  then have "ht_view t key = Some (he_val (ht_entries t ! i))" using ht_view_Some [OF assms(1)] by blast
  moreover have "i < table_size t" using at by (simp add: key_at_def taken_at_def)
  ultimately show ?thesis using r assms(1) by (simp add: hashtable_get_def entry_at_ok)
qed (simp add: hashtable_get_def)

abbreviation free_entry :: "('v, 'h) HashTable \<Rightarrow> nat \<Rightarrow> ('v, 'h) HashTable" where
  "free_entry t i \<equiv> t\<lparr> ht_entries := (ht_entries t)[i := (ht_entries t ! i)\<lparr> he_taken := False \<rparr>], ht_size := ht_size t - 1 \<rparr>"

lemma free_entry_at:
  assumes "ht_ok mem K t" and "i < table_size t"
  shows "taken_at (free_entry t i) j \<longleftrightarrow> taken_at t j \<and> j \<noteq> i"
    and "key_at (free_entry t i) j k \<longleftrightarrow> key_at t j k \<and> j \<noteq> i"
  using assms by (auto simp: taken_at_def key_at_def ht_ok_def nth_list_update)

lemma free_entry_ok:
  assumes ok: "ht_ok mem K t" and at: "key_at t i key"
  shows "ht_ok mem K (free_entry t i)" and "ht_view (free_entry t i) = (ht_view t)(key := None)" and "0 < ht_size t"
proof -
  have less: "i < table_size t" and taken: "taken_at t i" using at by (simp_all add: key_at_def taken_at_def)
  note fe = free_entry_at [OF ok less]
  have card: "ht_size t = card {j. taken_at t j}" using ok by (simp add: ht_ok_def)
  have "{j. taken_at (free_entry t i) j} = {j. taken_at t j} - {i}" unfolding fe by auto
  then have size: "ht_size t - 1 = card {j. taken_at (free_entry t i) j}" using taken card by simp
  show "0 < ht_size t" using card taken finite_taken [of t] by (auto simp: card_gt_0_iff)
  have basic: "length (ht_entries t) = table_size t" "4 \<le> table_size t" "table_size t \<le> mem" "mem < 2 ^ 31"
    "ht_size t \<le> table_size t div 2"
    using ok by (simp_all add: ht_ok_def)
  show ok': "ht_ok mem K (free_entry t i)"
  proof (rule ht_okI)
    show "\<exists>k \<in> K. key_at (free_entry t i) j k \<and> (\<exists>n < MAX_CHAIN_LENGTH. j = slot (free_entry t i) k n)"
      if "taken_at (free_entry t i) j" for j
    proof -
      have "taken_at t j" "j \<noteq> i" using that unfolding fe by simp_all
      then obtain k n where "k \<in> K" "key_at t j k" "n < MAX_CHAIN_LENGTH" "j = slot t k n"
        using ok unfolding ht_ok_def by blast
      then show ?thesis using \<open>j \<noteq> i\<close> unfolding fe table_size_update by blast
    qed
    show "j = j'" if "key_at (free_entry t i) j k" "key_at (free_entry t i) j' k" for j j' k
      using that ok unfolding fe ht_ok_def by blast
  qed (use basic size in simp_all)
  show "ht_view (free_entry t i) = (ht_view t)(key := None)"
  proof
    fix k
    show "ht_view (free_entry t i) k = ((ht_view t)(key := None)) k"
    proof (cases "k = key")
      case True
      have "\<not> key_at (free_entry t i) j k" for j
        using ok at unfolding fe True ht_ok_def by blast
      then show ?thesis using ht_view_None [OF ok'] True by simp
    next
      case False
      then have "\<not> key_at t i k" using at by (auto simp: key_at_def)
      then have "key_at (free_entry t i) j k \<and> he_val (ht_entries (free_entry t i) ! j) = x \<longleftrightarrow>
          key_at t j k \<and> he_val (ht_entries t ! j) = x" for j x
        unfolding fe by (cases "j = i") simp_all
      then have "ht_view (free_entry t i) k = Some x \<longleftrightarrow> ht_view t k = Some x" for x
        unfolding ht_view_Some [OF ok'] ht_view_Some [OF ok] by simp
      then have "ht_view (free_entry t i) k = ht_view t k" by (rule option_eqI)
      then show ?thesis using False by simp
    qed
  qed
qed

lemma hashtable_del_found:
  assumes ok: "ht_ok mem K t" and apart: "keys_apart K" and key: "key \<in> K" and "ht_view t key = Some v"
    and dtor: "ht_destructor t \<lparr> he_key = Some key, he_val = v, he_taken = False \<rparr> h = Inr (st, h')"
  shows "\<exists>t'. hashtable_del t key h = Inr (t', HASHTABLE_OK, h') \<and> ht_ok mem K t' \<and> ht_view t' = (ht_view t)(key := None)"
proof -
  obtain i where r: "find_probe t key (hashtable_hash_int (table_size t) key) MAX_CHAIN_LENGTH = Inr (Some i)" and at: "key_at t i key"
    using find_spec [OF ok apart key] assms(4) by auto
  have less: "i < table_size t" using at by (simp add: key_at_def taken_at_def)
  have "Some (he_val (ht_entries t ! i)) = Some v" using ht_view_Some [OF ok, of key] assms(4) at by metis
  then have "(ht_entries t ! i)\<lparr> he_taken := False \<rparr> = \<lparr> he_key = Some key, he_val = v, he_taken = False \<rparr>"
    using at by (cases "ht_entries t ! i") (simp add: key_at_def)
  then have "hashtable_del t key h = Inr (free_entry t i, HASHTABLE_OK, h')"
    using r less dtor free_entry_ok(3) [OF ok at] by (simp add: hashtable_del_def entry_at_ok [OF ok] Let_def)
  then show ?thesis using free_entry_ok(1,2) [OF ok at] by blast
qed

subsection \<open>Properties\<close>

lemma hashtable_new_ok:
  assumes "4 \<le> mem" and "mem < 2 ^ 31"
  shows "ht_ok mem K (hashtable_new dtor)" and "ht_compact (hashtable_new dtor)" and "ht_view (hashtable_new dtor) = Map.empty"
proof -
  have none: "\<not> taken_at (hashtable_new dtor) i" "\<not> key_at (hashtable_new dtor) i k" for i k
    by (simp_all add: taken_at_def key_at_def no_entry_def hashtable_new_def)
  show "ht_ok mem K (hashtable_new dtor)"
    using assms none by (intro ht_okI) (simp_all add: hashtable_new_def INITIAL_SIZE_def)
  show "ht_compact (hashtable_new dtor)" using none by (simp add: ht_compact_def)
  show "ht_view (hashtable_new dtor) = Map.empty"
    by (simp add: ht_view_def hashtable_new_def fun_eq_iff no_entry_def find_None_iff)
qed

text \<open>
  C31. The table-driven \<^verbatim>\<open>crc32\<close> computes the bit-serial CRC with the polynomial \<open>0xedb88320\<close>, from a zero
  register and without a final complement: all 256 entries of \<^verbatim>\<open>crc32_tab\<close> are those of the
  polynomial.
\<close>

theorem crc32_is_bit_serial: "crc32 s = crc32_serial 0 s"
  by (simp add: crc32_def crc32_loop_serial)

text \<open>
  C29. \<^verbatim>\<open>hashtable_put\<close> ends and is an update of the map: on a table of \<open>n\<close> slots it returns whenever
  the fuel \<open>f\<close> makes \<open>n * 2 ^ f\<close> exceed what \<^verbatim>\<open>tcalloc\<close> can provide, with either the error code or a
  table in which the key has the value and every other key is as before. No two keys in use may be equal up to case and
  up to the length of one of them, and the key must be new, or no deletion must have opened a gap in front of a stored key. With fewer than eight keys in a table that can
  still double, the error code is excluded.
\<close>

theorem hashtable_put_correct:
  assumes "ht_ok mem K t" and "keys_apart K" and "key \<in> K" and "ht_view t key = None \<or> ht_compact t"
    and "mem < table_size t * 2 ^ f"
  shows "\<exists>t' s. hashtable_put mem f t key v = Inr (t', s) \<and>
    (s = - HASHTABLE_ERR \<or>
     s = HASHTABLE_OK \<and> ht_ok mem K t' \<and> ht_view t' = (ht_view t)(key \<mapsto> v) \<and> (ht_compact t \<longrightarrow> ht_compact t')) \<and>
    (ht_size t < 8 \<and> 2 * table_size t \<le> mem \<longrightarrow> s = HASHTABLE_OK)"
proof -
  obtain t' s where r: "hashtable_put mem f t key v = Inr (t', s)" "s = - HASHTABLE_ERR \<or>
     s = HASHTABLE_OK \<and> ht_ok mem K t' \<and> ht_view t' = (ht_view t)(key \<mapsto> v) \<and> (ht_compact t \<longrightarrow> ht_compact t')"
    using put_spec [OF assms(2,1,3,4,5), of v] unfolding put_result_def by blast
  have "s = HASHTABLE_OK" if small: "ht_size t < 8" "2 * table_size t \<le> mem"
  proof -
    have "f \<noteq> 0" using assms(5) small(2) by (intro notI) simp
    moreover have "f \<noteq> 1" using assms(5) small(2) by (intro notI) simp
    ultimately obtain g where "f = Suc (Suc g)" by (metis One_nat_def not0_implies_Suc)
    then show ?thesis using put_small [OF assms(1-4) small, of g v] r(1) by auto
  qed
  with r show ?thesis by blast
qed

theorem hashtable_put_correct_witness:
  "\<exists>t' s. hashtable_put 64 5 (hashtable_new (\<lambda>e (h :: unit). Inr (0, h))) [97] (Some (7 :: nat)) = Inr (t', s) \<and>
     ht_view t' [97] = Some (Some 7)"
proof -
  let ?t = "hashtable_new (\<lambda>e (h :: unit). Inr (0, h)) :: (nat, unit) HashTable"
  let ?K = "{k. length k = 1 \<and> map tolower k = k}"
  have ok: "ht_ok 64 ?K ?t" "ht_compact ?t"
    by (rule hashtable_new_ok(1); simp) (rule hashtable_new_ok(2) [of 64]; simp)
  have "tolower 97 = 97" by code_simp
  then have "[97] \<in> ?K" by simp
  moreover have "table_size ?t = 4" "ht_size ?t = 0" by (simp_all add: hashtable_new_def INITIAL_SIZE_def)
  ultimately show ?thesis
    using hashtable_put_correct [OF ok(1) keys_apart_fixed, of "[97]" 5 "Some 7"] ok(2)
    by (auto simp: HASHTABLE_OK_def HASHTABLE_ERR_def)
qed

text \<open>
  C30. \<^verbatim>\<open>hashtable_get\<close> reads the map and \<^verbatim>\<open>hashtable_del\<close> removes from it, on keys of which no two are equal up to case and
  up to the length of one of them: a key that is present is released through the destructor exactly once, with its key and value, and is gone afterwards; a
  key that is absent leaves everything as it is and gives the error code.
\<close>

theorem hashtable_get_del_correct:
  assumes "ht_ok mem K t" and "keys_apart K" and "key \<in> K"
  shows "(ht_view t key = None \<longrightarrow> hashtable_get t key = Inr None \<and> hashtable_del t key h = Inr (t, - HASHTABLE_ERR, h)) \<and>
    (\<forall>v st h'. ht_view t key = Some v \<and> ht_destructor t \<lparr> he_key = Some key, he_val = v, he_taken = False \<rparr> h = Inr (st, h') \<longrightarrow>
       hashtable_get t key = Inr v \<and>
       (\<exists>t'. hashtable_del t key h = Inr (t', HASHTABLE_OK, h') \<and> ht_ok mem K t' \<and>
          ht_view t' = (ht_view t)(key := None) \<and> hashtable_get t' key = Inr None))"
proof (intro conjI allI impI; (elim conjE)?)
  assume none: "ht_view t key = None"
  then have "find_probe t key (hashtable_hash_int (table_size t) key) MAX_CHAIN_LENGTH = Inr None"
    using find_spec [OF assms] ht_view_None [OF assms(1)] by blast
  then show "hashtable_del t key h = Inr (t, - HASHTABLE_ERR, h)" by (simp add: hashtable_del_def)
  show "hashtable_get t key = Inr None" using none hashtable_get_view [OF assms] by simp
next
  fix v st h'
  assume v: "ht_view t key = Some v"
    and dtor: "ht_destructor t \<lparr> he_key = Some key, he_val = v, he_taken = False \<rparr> h = Inr (st, h')"
  show "hashtable_get t key = Inr v" using v hashtable_get_view [OF assms] by simp
  obtain t' where t': "hashtable_del t key h = Inr (t', HASHTABLE_OK, h')" "ht_ok mem K t'" "ht_view t' = (ht_view t)(key := None)"
    using hashtable_del_found [OF assms v dtor] by blast
  then show "\<exists>t'. hashtable_del t key h = Inr (t', HASHTABLE_OK, h') \<and> ht_ok mem K t' \<and>
      ht_view t' = (ht_view t)(key := None) \<and> hashtable_get t' key = Inr None"
    using hashtable_get_view [OF t'(2) assms(2,3)] by simp
qed

lemma hash_int_example: "hashtable_hash_int 4 [99] = 0" "hashtable_hash_int 4 [100] = 0"
  by (simp_all add: hashtable_hash_int_def crc32_def crc32_tab_def Let_def KNUTH_PRIME_def)

lemma chain_unfold: "MAX_CHAIN_LENGTH = Suc (Suc (Suc (Suc (Suc (Suc (Suc (Suc 0)))))))"
  by (simp add: MAX_CHAIN_LENGTH_def)

lemma new_unfold:
  "hashtable_new dtor = \<lparr> table_size = 4, ht_size = 0, ht_destructor = dtor,
     ht_entries = [no_entry, no_entry, no_entry, no_entry] \<rparr>"
  by (simp add: hashtable_new_def INITIAL_SIZE_def numeral_eq_Suc)

lemma index_example: "u64_to_int 0 = 0" "u64_to_int 1 = 1"
  by code_simp+

lemma put_example:
  "hashtable_put 64 (Suc f) (hashtable_new dtor) [99] (Some v) =
     Inr (\<lparr> table_size = 4, ht_size = 1, ht_destructor = dtor, ht_entries = [new_entry [99] (Some v), no_entry, no_entry, no_entry] \<rparr>,
          HASHTABLE_OK)"
  by (simp add: hash_int_example new_unfold chain_unfold hashtable_hash_def entry_at_def no_entry_def
      HASHTABLE_FULL_def index_example)

text \<open>A table whose destructor notes what it is called with: the stored key is released once and gone.\<close>

theorem hashtable_get_del_correct_witness:
  "\<exists>t t'. hashtable_put 64 5 (hashtable_new (\<lambda>e h. Inr (0, (he_key e, he_val e) # h))) [99] (Some (7 :: nat)) = Inr (t, 0) \<and>
     hashtable_get t [99] = Inr (Some 7) \<and> hashtable_del t [99] [] = Inr (t', 0, [(Some [99], Some 7)]) \<and> hashtable_get t' [99] = Inr None"
proof -
  let ?d = "\<lambda>(e :: nat hashtable_entry) h. Inr (0, (he_key e, he_val e) # h) :: (int \<times> (cstring option \<times> nat option) list) cres"
  let ?K = "{k. length k = 1 \<and> map tolower k = k}"
  let ?t = "\<lparr> table_size = 4, ht_size = 1, ht_destructor = ?d, ht_entries = [new_entry [99] (Some 7), no_entry, no_entry, no_entry] \<rparr>"
  have "tolower 99 = 99" by code_simp
  then have key: "[99] \<in> ?K" by simp
  have new: "ht_ok 64 ?K (hashtable_new ?d)" "ht_compact (hashtable_new ?d)"
    by (rule hashtable_new_ok(1); simp) (rule hashtable_new_ok(2) [of 64]; simp)
  have "64 < table_size (hashtable_new ?d) * 2 ^ Suc 4" by (simp add: new_unfold)
  from put_spec [OF keys_apart_fixed new(1) key disjI2 [OF new(2)] this, of "Some 7"]
  have t: "ht_ok 64 ?K ?t" "ht_view ?t = (ht_view (hashtable_new ?d))([99] \<mapsto> Some 7)"
    unfolding put_result_def put_example by (auto simp: HASHTABLE_OK_def HASHTABLE_ERR_def)
  have "ht_view ?t [99] = Some (Some 7)" "ht_destructor ?t \<lparr> he_key = Some [99], he_val = Some 7, he_taken = False \<rparr> [] = Inr (0, [(Some [99], Some 7)])"
    unfolding t(2) by simp_all
  with hashtable_get_del_correct [OF t(1) keys_apart_fixed key, of "[]"] have
    "hashtable_get ?t [99] = Inr (Some 7)" "\<exists>t'. hashtable_del ?t [99] [] = Inr (t', 0, [(Some [99], Some 7)]) \<and> hashtable_get t' [99] = Inr None"
    unfolding HASHTABLE_OK_def by blast+
  then show ?thesis using put_example [of 4 ?d 7] by (auto simp: HASHTABLE_OK_def simp del: hashtable_put.simps)
qed

text \<open>
  Deleting a key opens a gap that a later \<^verbatim>\<open>hashtable_put\<close> stops at: a key that is stored behind
  the gap is then stored a second time, and deleting it brings its old value back. Here \<open>c\<close> and \<open>d\<close>
  share a hash; after setting \<open>d\<close> to 1, deleting \<open>c\<close>, setting \<open>d\<close> to 2 and deleting \<open>d\<close>, a lookup of
  \<open>d\<close> returns 1.
\<close>

theorem hashtable_delete_revives:
  "bindE (hashtable_put 64 1 (hashtable_new (\<lambda>e h. Inr (0, h))) [99] (Some (0 :: nat))) (\<lambda>(t1, s1).
   bindE (hashtable_put 64 1 t1 [100] (Some 1)) (\<lambda>(t2, s2).
   bindE (hashtable_del t2 [99] ()) (\<lambda>(t3, s3, h3).
   bindE (hashtable_put 64 1 t3 [100] (Some 2)) (\<lambda>(t4, s4).
   bindE (hashtable_get t4 [100]) (\<lambda>r4.
   bindE (hashtable_del t4 [100] ()) (\<lambda>(t5, s5, h5).
   bindE (hashtable_get t5 [100]) (\<lambda>r5. Inr (r4, s5, r5)))))))) = Inr (Some 2, 0, Some 1)"
  by (simp add: hash_int_example new_unfold chain_unfold hashtable_hash_def
      hashtable_get_def hashtable_del_def entry_at_def no_entry_def HASHTABLE_FULL_def HASHTABLE_OK_def
      index_example tolower_def)

end
