(* ===== verification/Tdb_List.thy ===== *)
theory Tdb_List
  imports Tdb_Vector
begin

text \<open>
  The singly linked list of \<^verbatim>\<open>src/list.c\<close>, on a heap of nodes: a node holds a pointer to its data and
  the next node, \<open>None\<close> for NULL. The address of a new node is an argument, as the allocator chooses
  it. Loops and recursions along the nodes take fuel, because a heap may hold a cycle; the lemmas
  show how much is enough.
\<close>

subsection \<open>Nodes and lists\<close>

record list_node =
  ln_data :: "addr option"
  ln_next :: "addr option"

type_synonym nodes = "list_node heap"

record 'd List =
  l_head :: "addr option"
  l_tail :: "addr option"
  l_len :: u64
  l_destructor :: "(addr \<Rightarrow> nodes \<times> 'd heap \<Rightarrow> (nodes \<times> 'd heap) cres) option"

definition list_new :: "(addr \<Rightarrow> nodes \<times> 'd heap \<Rightarrow> (nodes \<times> 'd heap) cres) option \<Rightarrow> 'd List" where
  "list_new destructor = \<lparr> l_head = None, l_tail = None, l_len = 0, l_destructor = destructor \<rparr>"

text \<open>Releasing a node, and its data when \<^verbatim>\<open>deep\<close> is set.\<close>

definition free_node :: "bool \<Rightarrow> addr \<Rightarrow> nodes \<times> 'd heap \<Rightarrow> (nodes \<times> 'd heap) cres" where
  "free_node deep a s =
     (case s of (nh, dh) \<Rightarrow>
        bindE (obj_read nh a) (\<lambda>n.
        bindE (case ln_data n of Some d \<Rightarrow> if deep then obj_free dh d else Inr dh | None \<Rightarrow> Inr dh) (\<lambda>dh'.
        bindE (obj_free nh a) (\<lambda>nh'. Inr (nh', dh')))))"

text \<open>The loop \<^verbatim>\<open>while (l->len--)\<close> of \<^verbatim>\<open>list_destroy\<close> and \<^verbatim>\<open>list_clear\<close>.\<close>

fun destroy_nodes :: "nat \<Rightarrow> (addr \<Rightarrow> nodes \<times> 'd heap \<Rightarrow> (nodes \<times> 'd heap) cres) \<Rightarrow> addr option \<Rightarrow>
    nodes \<times> 'd heap \<Rightarrow> (nodes \<times> 'd heap) cres" where
  "destroy_nodes 0 release h s = Inr s"
| "destroy_nodes (Suc len) release h s =
     (case h of
        None \<Rightarrow> Inl NullDeref
      | Some a \<Rightarrow>
          bindE (obj_read (fst s) a) (\<lambda>n.
          bindE (release a s) (\<lambda>s'. destroy_nodes len release (ln_next n) s')))"

definition list_destroy :: "'d List \<Rightarrow> bool \<Rightarrow> nodes \<times> 'd heap \<Rightarrow> (nodes \<times> 'd heap) cres" where
  "list_destroy l deep s =
     destroy_nodes (unat (l_len l)) (case l_destructor l of Some f \<Rightarrow> f | None \<Rightarrow> free_node deep) (l_head l) s"

definition list_size :: "'d List \<Rightarrow> u64" where
  "list_size l = l_len l"

definition list_clear :: "'d List \<Rightarrow> bool \<Rightarrow> nodes \<times> 'd heap \<Rightarrow> ('d List \<times> nodes \<times> 'd heap) cres" where
  "list_clear l deep s =
     (if l_head l = None then Inr (l, s)
      else bindE (destroy_nodes (unat (l_len l)) (free_node deep) (l_head l) s) (\<lambda>s'.
             Inr (l\<lparr> l_head := None, l_tail := None, l_len := 0 \<rparr>, s')))"

definition list_attach :: "'d List \<Rightarrow> addr option \<Rightarrow> u64 \<Rightarrow> 'd List" where
  "list_attach l head len = l\<lparr> l_head := head, l_len := len \<rparr>"

subsection \<open>Insertion\<close>

definition list_push :: "'d List \<Rightarrow> addr option \<Rightarrow> addr \<Rightarrow> nodes \<Rightarrow> 'd List \<times> nodes" where
  "list_push l val new_node nh =
     (if l_len l = 0 then
        (l\<lparr> l_head := Some new_node, l_tail := Some new_node, l_len := l_len l + 1 \<rparr>,
         nh(new_node \<mapsto> \<lparr> ln_data = val, ln_next = None \<rparr>))
      else
        (l\<lparr> l_head := Some new_node, l_len := l_len l + 1 \<rparr>,
         nh(new_node \<mapsto> \<lparr> ln_data = val, ln_next = l_head l \<rparr>)))"

definition set_next :: "nodes \<Rightarrow> addr \<Rightarrow> addr option \<Rightarrow> nodes cres" where
  "set_next nh a p = bindE (obj_read nh a) (\<lambda>n. Inr (nh(a \<mapsto> n\<lparr> ln_next := p \<rparr>)))"

definition list_push_back :: "'d List \<Rightarrow> addr option \<Rightarrow> addr \<Rightarrow> nodes \<Rightarrow> ('d List \<times> nodes) cres" where
  "list_push_back l val new_node nh =
     (let nh1 = nh(new_node \<mapsto> \<lparr> ln_data = val, ln_next = None \<rparr>) in
      if l_len l = 0 then
        Inr (l\<lparr> l_head := Some new_node, l_tail := Some new_node, l_len := l_len l + 1 \<rparr>, nh1)
      else
        (case l_tail l of
           None \<Rightarrow> Inl NullDeref
         | Some t \<Rightarrow>
             bindE (set_next nh1 t (Some new_node)) (\<lambda>nh2.
               Inr (l\<lparr> l_tail := Some new_node, l_len := l_len l + 1 \<rparr>, nh2))))"

subsection \<open>Removal\<close>

text \<open>
  The comparison is with a fixed second argument: \<open>matches a\<close> is the outcome of \<^verbatim>\<open>cmp(head, node) == 0\<close>
  on the node at \<open>a\<close>.
\<close>

fun list_node_remove :: "nat \<Rightarrow> nodes \<Rightarrow> addr option \<Rightarrow> (addr \<Rightarrow> bool) \<Rightarrow> (nodes \<times> addr option \<times> nat) cres" where
  "list_node_remove 0 nh head matches = Inl StackExhausted"
| "list_node_remove (Suc depth) nh head matches =
     (case head of
        None \<Rightarrow> Inr (nh, None, 0)
      | Some a \<Rightarrow>
          bindE (obj_read nh a) (\<lambda>n.
            if matches a then bindE (obj_free nh a) (\<lambda>nh'. Inr (nh', ln_next n, 1))
            else
              bindE (list_node_remove depth nh (ln_next n) matches) (\<lambda>(nh1, p, counter).
              bindE (set_next nh1 a p) (\<lambda>nh2. Inr (nh2, head, counter)))))"

definition list_remove :: "nat \<Rightarrow> 'd List \<Rightarrow> addr option \<Rightarrow> (addr \<Rightarrow> bool) \<Rightarrow> nodes \<Rightarrow> ('d List \<times> nodes) cres" where
  "list_remove depth l node matches nh =
     (if node = None then Inr (l, nh)
      else bindE (list_node_remove depth nh (l_head l) matches) (\<lambda>(nh', head, counter).
             Inr (l\<lparr> l_head := head, l_len := l_len l - of_nat counter \<rparr>, nh')))"

fun list_remove_single_node :: "nat \<Rightarrow> nodes \<Rightarrow> addr option \<Rightarrow> addr option \<Rightarrow> (addr \<Rightarrow> bool) \<Rightarrow>
    (nodes \<times> addr option \<times> addr option) cres" where
  "list_remove_single_node 0 nh head ret matches = Inl StackExhausted"
| "list_remove_single_node (Suc depth) nh head ret matches =
     (case head of
        None \<Rightarrow> Inr (nh, None, ret)
      | Some a \<Rightarrow>
          bindE (obj_read nh a) (\<lambda>n.
            if matches a \<and> ret = None then Inr (nh, ln_next n, Some a)
            else
              bindE (list_remove_single_node depth nh (ln_next n) ret matches) (\<lambda>(nh1, p, ret').
              bindE (set_next nh1 a p) (\<lambda>nh2. Inr (nh2, head, ret')))))"

text \<open>\<^verbatim>\<open>list_remove_node\<close> drops the new head that the recursion returns.\<close>

definition list_remove_node :: "nat \<Rightarrow> 'd List \<Rightarrow> (addr \<Rightarrow> bool) \<Rightarrow> nodes \<Rightarrow> ('d List \<times> nodes \<times> addr option) cres" where
  "list_remove_node depth l matches nh =
     (if l_len l = 0 then Inr (l, nh, None)
      else
        bindE (list_remove_single_node depth nh (l_head l) None matches) (\<lambda>(nh1, p, node).
          case node of
            None \<Rightarrow> Inr (l, nh1, None)
          | Some a \<Rightarrow>
              bindE (set_next nh1 a None) (\<lambda>nh2. Inr (l\<lparr> l_len := l_len l - 1 \<rparr>, nh2, Some a))))"

subsection \<open>Merge sort\<close>

fun bisect_loop :: "nat \<Rightarrow> nodes \<Rightarrow> addr option \<Rightarrow> addr option \<Rightarrow> addr option \<Rightarrow> (addr option \<times> addr option) cres" where
  "bisect_loop 0 nh fast slow prev = Inl StackExhausted"
| "bisect_loop (Suc fuel) nh fast slow prev =
     (case fast of
        None \<Rightarrow> Inr (slow, prev)
      | Some f \<Rightarrow>
          bindE (obj_read nh f) (\<lambda>fn.
            case ln_next fn of
              None \<Rightarrow> Inr (slow, prev)
            | Some g \<Rightarrow>
                bindE (obj_read nh g) (\<lambda>gn.
                  case slow of
                    None \<Rightarrow> Inl NullDeref
                  | Some s \<Rightarrow>
                      bindE (obj_read nh s) (\<lambda>sn. bisect_loop fuel nh (ln_next gn) (ln_next sn) slow))))"

definition bisect_list :: "nat \<Rightarrow> nodes \<Rightarrow> addr option \<Rightarrow> (nodes \<times> addr option) cres" where
  "bisect_list fuel nh head =
     bindE (bisect_loop fuel nh head head None) (\<lambda>(slow, prev).
       case prev of
         None \<Rightarrow> Inr (nh, slow)
       | Some p \<Rightarrow> bindE (set_next nh p None) (\<lambda>nh'. Inr (nh', slow)))"

text \<open>
  \<^verbatim>\<open>tail->next = p\<close>, where \<^verbatim>\<open>tail\<close> is the dummy head as long as nothing is merged: \<open>first\<close> is
  \<^verbatim>\<open>dummy_head.next\<close> and \<open>tail = None\<close> the dummy.
\<close>

definition link_tail :: "nodes \<Rightarrow> addr option \<Rightarrow> addr option \<Rightarrow> addr option \<Rightarrow> (nodes \<times> addr option) cres" where
  "link_tail nh first tail p =
     (case tail of
        None \<Rightarrow> Inr (nh, p)
      | Some t \<Rightarrow> bindE (set_next nh t p) (\<lambda>nh'. Inr (nh', first)))"

fun merge_loop :: "nat \<Rightarrow> (addr option \<Rightarrow> addr option \<Rightarrow> int cres) \<Rightarrow> nodes \<Rightarrow> addr option \<Rightarrow> addr option \<Rightarrow>
    addr option \<Rightarrow> addr option \<Rightarrow> (nodes \<times> addr option) cres" where
  "merge_loop 0 cmp_func nh list1 list2 first tail = Inl StackExhausted"
| "merge_loop (Suc fuel) cmp_func nh list1 list2 first tail =
     (case (list1, list2) of
        (Some a, Some b) \<Rightarrow>
          bindE (obj_read nh a) (\<lambda>na.
          bindE (obj_read nh b) (\<lambda>nb.
          bindE (cmp_func (ln_data na) (ln_data nb)) (\<lambda>outcome.
            if outcome \<le> 0 then
              bindE (link_tail nh first tail (Some a)) (\<lambda>(nh', first').
                merge_loop fuel cmp_func nh' (ln_next na) list2 first' (Some a))
            else
              bindE (link_tail nh first tail (Some b)) (\<lambda>(nh', first').
                merge_loop fuel cmp_func nh' list1 (ln_next nb) first' (Some b)))))
      | _ \<Rightarrow> link_tail nh first tail (if list1 \<noteq> None then list1 else list2))"

definition merge_list :: "nat \<Rightarrow> (addr option \<Rightarrow> addr option \<Rightarrow> int cres) \<Rightarrow> nodes \<Rightarrow> addr option \<Rightarrow> addr option \<Rightarrow>
    (nodes \<times> addr option) cres" where
  "merge_list fuel cmp_func nh list1 list2 = merge_loop fuel cmp_func nh list1 list2 None None"

fun list_merge_sort :: "nat \<Rightarrow> nat \<Rightarrow> (addr option \<Rightarrow> addr option \<Rightarrow> int cres) \<Rightarrow> nodes \<Rightarrow> addr option \<Rightarrow>
    (nodes \<times> addr option) cres" where
  "list_merge_sort 0 fuel cmp_func nh head = Inl StackExhausted"
| "list_merge_sort (Suc depth) fuel cmp_func nh head =
     (case head of
        None \<Rightarrow> Inr (nh, None)
      | Some a \<Rightarrow>
          bindE (obj_read nh a) (\<lambda>n.
            if ln_next n = None then Inr (nh, head)
            else
              bindE (bisect_list fuel nh head) (\<lambda>(nh1, list2).
              bindE (list_merge_sort depth fuel cmp_func nh1 head) (\<lambda>(nh2, sorted1).
              bindE (list_merge_sort depth fuel cmp_func nh2 list2) (\<lambda>(nh3, sorted2).
                merge_list fuel cmp_func nh3 sorted1 sorted2)))))"

subsection \<open>Paths\<close>

fun path :: "nodes \<Rightarrow> addr option \<Rightarrow> addr list \<Rightarrow> addr option \<Rightarrow> bool" where
  "path nh p [] q \<longleftrightarrow> p = q"
| "path nh p (a # as) q \<longleftrightarrow> p = Some a \<and> (case nh a of None \<Rightarrow> False | Some n \<Rightarrow> path nh (ln_next n) as q)"

abbreviation chain :: "nodes \<Rightarrow> addr option \<Rightarrow> addr list \<Rightarrow> bool" where
  "chain nh p as \<equiv> path nh p as None"

lemma path_append: "path nh p (as @ bs) q \<longleftrightarrow> (\<exists>r. path nh p as r \<and> path nh r bs q)"
  by (induction as arbitrary: p) (auto split: option.splits)

lemma path_cong: "(\<And>a. a \<in> set as \<Longrightarrow> nh' a = nh a) \<Longrightarrow> path nh' p as q = path nh p as q"
  by (induction as arbitrary: p) (auto split: option.splits)

lemma path_other [simp]: "a \<notin> set as \<Longrightarrow> path (nh(a := v)) p as q = path nh p as q"
  by (rule path_cong) auto

lemma path_dom: "path nh p as q \<Longrightarrow> a \<in> set as \<Longrightarrow> nh a \<noteq> None"
  by (induction as arbitrary: p) (auto split: option.splits)

lemma path_ConsE:
  assumes "path nh p (a # as) q"
  obtains n where "p = Some a" and "nh a = Some n" and "path nh (ln_next n) as q"
  using assms by (auto split: option.splits)

lemma chain_None [simp]: "chain nh None as \<longleftrightarrow> as = []"
  by (cases as) auto

lemma chain_SomeE:
  assumes "chain nh (Some a) as"
  obtains n as' where "as = a # as'" and "nh a = Some n" and "chain nh (ln_next n) as'"
  using assms by (cases as) (auto split: option.splits)

text \<open>The last node of a path is linked anew.\<close>

lemma path_relink:
  assumes "path nh p (as @ [t]) q" and "t \<notin> set as"
  shows "\<exists>n. nh t = Some n \<and> set_next nh t r = Inr (nh(t \<mapsto> n\<lparr> ln_next := r \<rparr>)) \<and>
    path (nh(t \<mapsto> n\<lparr> ln_next := r \<rparr>)) p (as @ [t]) r"
proof -
  obtain n where n: "path nh p as (Some t)" "nh t = Some n"
    using assms(1) by (auto simp: path_append split: option.splits)
  then show ?thesis
    using assms(2) by (intro exI [of _ n]) (auto simp: set_next_def obj_read_def path_append)
qed

text \<open>What sorting leaves alone: the data of every node, and every node outside the list.\<close>

definition frame :: "addr set \<Rightarrow> nodes \<Rightarrow> nodes \<Rightarrow> bool" where
  "frame S nh nh' \<longleftrightarrow> (\<forall>a. map_option ln_data (nh' a) = map_option ln_data (nh a)) \<and> (\<forall>a. a \<notin> S \<longrightarrow> nh' a = nh a)"

lemma frame_refl [simp]: "frame S nh nh"
  by (simp add: frame_def)

lemma frame_trans: "frame S nh nh1 \<Longrightarrow> frame T nh1 nh2 \<Longrightarrow> S \<subseteq> U \<Longrightarrow> T \<subseteq> U \<Longrightarrow> frame U nh nh2"
  unfolding frame_def by (metis subsetD)

lemma frame_next: "nh t = Some n \<Longrightarrow> t \<in> S \<Longrightarrow> frame S nh (nh(t \<mapsto> n\<lparr> ln_next := r \<rparr>))"
  by (auto simp: frame_def)

lemma frame_path: "frame S nh nh' \<Longrightarrow> S \<inter> set as = {} \<Longrightarrow> path nh' p as q = path nh p as q"
  unfolding frame_def by (intro path_cong) auto

subsection \<open>Bisection\<close>

lemma bisect_loop_spec:
  assumes "path nh head pre slow" and "path nh slow mid fast" and "chain nh fast post"
    and "length mid = length pre" and "prev = (if pre = [] then None else Some (last pre))" and "length post < fuel"
  shows "\<exists>pre' suf slow'. bisect_loop fuel nh fast slow prev = Inr (slow', if pre' = [] then None else Some (last pre')) \<and>
    pre' @ suf = pre @ mid @ post \<and> path nh head pre' slow' \<and> chain nh slow' suf \<and>
    length pre' = length (pre @ mid @ post) div 2"
  using assms
proof (induction fuel arbitrary: pre slow mid fast post prev)
  case (Suc fuel)
  note prems = Suc.prems
  have whole: "chain nh slow (mid @ post)" using prems(2,3) by (auto simp: path_append)
  show ?case
  proof (cases post)
    case Nil
    then have "fast = None" using prems(3) by simp
    then show ?thesis using prems(1,4,5) whole Nil by (intro exI [of _ pre] exI [of _ mid] exI [of _ slow]) simp
  next
    case (Cons f post1)
    then obtain fn where f: "fast = Some f" "nh f = Some fn" "chain nh (ln_next fn) post1"
      using prems(3) by (auto split: option.splits)
    show ?thesis
    proof (cases post1)
      case Nil
      then have "ln_next fn = None" using f(3) by simp
      then show ?thesis using prems(1,4,5) whole Cons Nil f
        by (intro exI [of _ pre] exI [of _ "mid @ [f]"] exI [of _ slow]) (simp add: obj_read_def)
    next
      case more: (Cons g post2)
      then obtain gn where g: "ln_next fn = Some g" "nh g = Some gn" "chain nh (ln_next gn) post2"
        using f(3) by (auto split: option.splits)
      have "path nh slow (mid @ [f, g]) (ln_next gn)" using prems(2) f g by (auto simp: path_append)
      then obtain s mid' sn where s: "mid @ [f, g] = s # mid'" "slow = Some s" "nh s = Some sn" "path nh (ln_next sn) mid' (ln_next gn)"
        by (cases "mid @ [f, g]") (auto split: option.splits)
      have "length mid' = length (pre @ [s])" using s(1) prems(4) by (metis length_append_singleton length_Cons add_Suc_right append_Cons append_assoc append_Nil nat.inject length_append)
      moreover have "path nh head (pre @ [s]) (ln_next sn)" using prems(1) s by (auto simp: path_append)
      moreover have "length post2 < fuel" using prems(6) Cons more by simp
      ultimately have IH: "\<exists>pre' suf slow'. bisect_loop fuel nh (ln_next gn) (ln_next sn) (Some s) =
            Inr (slow', if pre' = [] then None else Some (last pre')) \<and>
          pre' @ suf = (pre @ [s]) @ mid' @ post2 \<and> path nh head pre' slow' \<and> chain nh slow' suf \<and>
          length pre' = length ((pre @ [s]) @ mid' @ post2) div 2"
        using s(4) g(3) by (intro Suc.IH) simp_all
      have eq: "(pre @ [s]) @ mid' @ post2 = pre @ mid @ post"
        using s(1) Cons more by (metis append.assoc append_Cons append_Nil)
      have step: "bisect_loop (Suc fuel) nh fast slow prev = bisect_loop fuel nh (ln_next gn) (ln_next sn) (Some s)"
        using f g s by (simp add: obj_read_def)
      show ?thesis using IH unfolding step eq .
    qed
  qed
qed simp

lemma bisect_list_spec:
  assumes "chain nh head as" and "distinct as" and "2 \<le> length as" and "length as < fuel"
  shows "\<exists>nh' slow xs ys. bisect_list fuel nh head = Inr (nh', slow) \<and> as = xs @ ys \<and> length xs = length as div 2 \<and>
    chain nh' head xs \<and> chain nh' slow ys \<and> frame (set as) nh nh'"
proof -
  obtain xs ys slow where loop: "bisect_loop fuel nh head head None = Inr (slow, if xs = [] then None else Some (last xs))"
    "xs @ ys = as" "path nh head xs slow" "chain nh slow ys" "length xs = length as div 2"
    using bisect_loop_spec [of nh head "[]" head "[]" head as None fuel] assms by auto
  then have "xs \<noteq> []" using assms(3) by auto
  then obtain zs t where zs: "xs = zs @ [t]" by (cases xs rule: rev_cases) auto
  have "t \<notin> set zs" "t \<notin> set ys" "t \<in> set as" using assms(2) loop(2) zs by auto
  with path_relink [of nh head zs t slow None] loop(3) zs obtain n where
    "nh t = Some n" "set_next nh t None = Inr (nh(t \<mapsto> n\<lparr> ln_next := None \<rparr>))"
    "chain (nh(t \<mapsto> n\<lparr> ln_next := None \<rparr>)) head xs" by auto
  then show ?thesis
    using loop zs \<open>t \<notin> set ys\<close> \<open>t \<in> set as\<close>
    by (intro exI [of _ "nh(t \<mapsto> n\<lparr> ln_next := None \<rparr>)"] exI [of _ slow] exI [of _ xs] exI [of _ ys])
      (simp add: bisect_list_def frame_next)
qed

subsection \<open>Merging\<close>

fun merge_by :: "(addr \<Rightarrow> addr \<Rightarrow> bool) \<Rightarrow> addr list \<Rightarrow> addr list \<Rightarrow> addr list" where
  "merge_by le [] bs = bs"
| "merge_by le as [] = as"
| "merge_by le (a # as) (b # bs) =
     (if le a b then a # merge_by le as (b # bs) else b # merge_by le (a # as) bs)"

lemma mset_merge_by: "mset (merge_by le as bs) = mset as + mset bs"
  by (induction le as bs rule: merge_by.induct) auto

lemma set_merge_by: "set (merge_by le as bs) = set as \<union> set bs"
  by (induction le as bs rule: merge_by.induct) auto

text \<open>The comparison function, on the data of nodes of a list, decides an order of the nodes.\<close>

definition cmp_decides :: "(addr option \<Rightarrow> addr option \<Rightarrow> int cres) \<Rightarrow> (addr \<Rightarrow> addr \<Rightarrow> bool) \<Rightarrow> nodes \<Rightarrow> addr set \<Rightarrow> bool" where
  "cmp_decides cmp_func le nh S \<longleftrightarrow> (\<forall>a \<in> S. \<forall>b \<in> S. \<forall>na nb. nh a = Some na \<longrightarrow> nh b = Some nb \<longrightarrow>
     (\<exists>c. cmp_func (ln_data na) (ln_data nb) = Inr c \<and> (c \<le> 0 \<longleftrightarrow> le a b)))"

lemma cmp_decides_frame:
  assumes "cmp_decides cmp_func le nh S" and "frame T nh nh'" and "S' \<subseteq> S"
  shows "cmp_decides cmp_func le nh' S'"
  unfolding cmp_decides_def
proof (intro ballI allI impI)
  fix a b na nb
  assume ab: "a \<in> S'" "b \<in> S'" and n: "nh' a = Some na" "nh' b = Some nb"
  have "map_option ln_data (nh a) = Some (ln_data na)" "map_option ln_data (nh b) = Some (ln_data nb)"
    using assms(2) n unfolding frame_def by (metis option.simps(9))+
  then obtain ma mb where "nh a = Some ma" "ln_data ma = ln_data na" "nh b = Some mb" "ln_data mb = ln_data nb" by auto
  then show "\<exists>c. cmp_func (ln_data na) (ln_data nb) = Inr c \<and> (c \<le> 0 \<longleftrightarrow> le a b)"
    using assms(1,3) ab unfolding cmp_decides_def by (metis subsetD)
qed

text \<open>The nodes merged so far: none, or a path that ends in \<open>tail\<close>.\<close>

definition merged :: "nodes \<Rightarrow> addr option \<Rightarrow> addr option \<Rightarrow> addr list \<Rightarrow> bool" where
  "merged nh first tail ps \<longleftrightarrow>
     (if ps = [] then tail = None else tail = Some (last ps) \<and> (\<exists>q. path nh first ps q))"

lemma link_tail_spec:
  assumes "merged nh first tail ps" and "distinct ps"
  shows "\<exists>nh' first'. link_tail nh first tail p = Inr (nh', first') \<and> path nh' first' ps p \<and> frame (set ps) nh nh'"
proof (cases ps rule: rev_cases)
  case Nil
  then show ?thesis using assms(1) by (simp add: merged_def link_tail_def)
next
  case (snoc zs t)
  with assms obtain q where "path nh first (zs @ [t]) q" "tail = Some t" "t \<notin> set zs" by (auto simp: merged_def)
  with path_relink [of nh first zs t q p] obtain n where "nh t = Some n"
    "set_next nh t p = Inr (nh(t \<mapsto> n\<lparr> ln_next := p \<rparr>))" "path (nh(t \<mapsto> n\<lparr> ln_next := p \<rparr>)) first ps p"
    using snoc by blast
  then show ?thesis using \<open>tail = Some t\<close> snoc by (simp add: link_tail_def frame_next)
qed

text \<open>One turn of the merge: the node \<open>m\<close> at the front of a list \<open>m # ms\<close> is appended.\<close>

lemma merge_step:
  assumes "merged nh first tail ps" and "distinct (ps @ m # ms @ os)"
    and "nh m = Some n" and "chain nh (ln_next n) ms" and "chain nh o_list os"
  shows "\<exists>nh' first'. link_tail nh first tail (Some m) = Inr (nh', first') \<and> merged nh' first' (Some m) (ps @ [m]) \<and>
    chain nh' (ln_next n) ms \<and> chain nh' o_list os \<and> frame (set ps) nh nh'"
proof -
  obtain nh' first' where l: "link_tail nh first tail (Some m) = Inr (nh', first')" "path nh' first' ps (Some m)" "frame (set ps) nh nh'"
    using link_tail_spec [OF assms(1), of "Some m"] assms(2) by auto
  have "nh' m = Some n" using l(3) assms(2,3) by (auto simp: frame_def)
  then have "path nh' first' (ps @ [m]) (ln_next n)" using l(2) by (auto simp: path_append)
  then have "merged nh' first' (Some m) (ps @ [m])" by (auto simp: merged_def)
  moreover have "chain nh' (ln_next n) ms" "chain nh' o_list os"
  proof -
    have "set ps \<inter> set ms = {}" "set ps \<inter> set os = {}" using assms(2) by auto
    then show "chain nh' (ln_next n) ms" "chain nh' o_list os" using frame_path [OF l(3)] assms(4,5) by blast+
  qed
  ultimately show ?thesis using l by blast
qed

lemma merge_loop_spec:
  assumes "chain nh l1 as" and "chain nh l2 bs" and "distinct (ps @ as @ bs)" and "merged nh first tail ps"
    and "cmp_decides cmp_func le nh (set as \<union> set bs)" and "length as + length bs < fuel"
  shows "\<exists>nh' p. merge_loop fuel cmp_func nh l1 l2 first tail = Inr (nh', p) \<and> chain nh' p (ps @ merge_by le as bs) \<and>
    frame (set (ps @ as @ bs)) nh nh'"
  using assms
proof (induction fuel arbitrary: nh l1 l2 as bs ps first tail)
  case (Suc fuel)
  note prems = Suc.prems
  show ?case
  proof (cases "as = [] \<or> bs = []")
    case True
    let ?q = "if l1 \<noteq> None then l1 else l2"
    have rest: "merge_loop (Suc fuel) cmp_func nh l1 l2 first tail = link_tail nh first tail ?q"
      using True prems(1,2) by (auto split: option.splits)
    have q: "chain nh ?q (merge_by le as bs)" using True prems(1,2) by (cases as; cases bs) auto
    obtain nh' first' where l: "link_tail nh first tail ?q = Inr (nh', first')" "path nh' first' ps ?q" "frame (set ps) nh nh'"
      using link_tail_spec [OF prems(4), of ?q] prems(3) by auto
    have "chain nh' ?q (merge_by le as bs)"
      using frame_path [OF l(3)] q prems(3) by (auto simp: set_merge_by)
    then have "chain nh' first' (ps @ merge_by le as bs)" using l(2) by (auto simp: path_append)
    moreover have "frame (set (ps @ as @ bs)) nh nh'" using l(3) frame_refl by (rule frame_trans) auto
    ultimately show ?thesis using rest l(1) by auto
  next
    case False
    then obtain a as' b bs' where ab: "as = a # as'" "bs = b # bs'" by (meson neq_Nil_conv)
    from prems(1,2) ab obtain na nb where n: "l1 = Some a" "nh a = Some na" "chain nh (ln_next na) as'"
      "l2 = Some b" "nh b = Some nb" "chain nh (ln_next nb) bs'" by (auto elim!: path_ConsE simp del: path.simps)
    obtain c where c: "cmp_func (ln_data na) (ln_data nb) = Inr c" "c \<le> 0 \<longleftrightarrow> le a b"
      using prems(5) n ab unfolding cmp_decides_def by auto
    show ?thesis
    proof (cases "le a b")
      case True
      obtain nh1 first1 where s: "link_tail nh first tail (Some a) = Inr (nh1, first1)" "merged nh1 first1 (Some a) (ps @ [a])"
        "chain nh1 (ln_next na) as'" "chain nh1 l2 bs" "frame (set ps) nh nh1"
        using merge_step [OF prems(4), of a as' bs na l2] prems(2,3) n(2,3) ab by auto
      have "cmp_decides cmp_func le nh1 (set as' \<union> set bs)"
        by (rule cmp_decides_frame [OF prems(5) s(5)]) (use ab in auto)
      then obtain nh' p where r: "merge_loop fuel cmp_func nh1 (ln_next na) l2 first1 (Some a) = Inr (nh', p)"
        "chain nh' p ((ps @ [a]) @ merge_by le as' bs)" "frame (set ((ps @ [a]) @ as' @ bs)) nh1 nh'"
        using Suc.IH [OF s(3,4) _ s(2)] prems(3,6) ab by auto
      have "frame (set (ps @ as @ bs)) nh nh'" by (rule frame_trans [OF s(5) r(3)]) (use ab in auto)
      moreover have "merge_loop (Suc fuel) cmp_func nh l1 l2 first tail = Inr (nh', p)"
        using r(1) s(1) n c True by (simp add: obj_read_def)
      ultimately show ?thesis using r(2) True ab by (intro exI [of _ nh'] exI [of _ p]) simp
    next
      case False
      obtain nh1 first1 where s: "link_tail nh first tail (Some b) = Inr (nh1, first1)" "merged nh1 first1 (Some b) (ps @ [b])"
        "chain nh1 (ln_next nb) bs'" "chain nh1 l1 as" "frame (set ps) nh nh1"
        using merge_step [OF prems(4), of b bs' as nb l1] prems(1,3) n(5,6) ab by auto
      have "cmp_decides cmp_func le nh1 (set as \<union> set bs')"
        by (rule cmp_decides_frame [OF prems(5) s(5)]) (use ab in auto)
      then obtain nh' p where r: "merge_loop fuel cmp_func nh1 l1 (ln_next nb) first1 (Some b) = Inr (nh', p)"
        "chain nh' p ((ps @ [b]) @ merge_by le as bs')" "frame (set ((ps @ [b]) @ as @ bs')) nh1 nh'"
        using Suc.IH [OF s(4,3) _ s(2)] prems(3,6) ab by auto
      have "frame (set (ps @ as @ bs)) nh nh'" by (rule frame_trans [OF s(5) r(3)]) (use ab in auto)
      moreover have "merge_loop (Suc fuel) cmp_func nh l1 l2 first tail = Inr (nh', p)"
        using r(1) s(1) n c False by (simp add: obj_read_def)
      ultimately show ?thesis using r(2) False ab by (intro exI [of _ nh'] exI [of _ p]) simp
    qed
  qed
qed simp

subsection \<open>Sorting\<close>

lemma sorted_merge_by:
  "total_preorder le \<Longrightarrow> sorted_wrt le as \<Longrightarrow> sorted_wrt le bs \<Longrightarrow> sorted_wrt le (merge_by le as bs)"
proof (induction le as bs rule: merge_by.induct)
  case (3 le a as b bs)
  note trans = total_preorder.cmp_trans [OF 3(3)]
  have "le a b \<or> le b a" by (rule total_preorder.cmp_total [OF 3(3)])
  with 3 show ?case
    by (cases "le a b") (auto simp: set_merge_by intro: trans)
qed simp_all

text \<open>
  The contract of a comparison of list nodes: a total preorder of their addresses. Merge sort is
  proved once for any such order.
\<close>

locale node_order = total_preorder le for le :: "addr \<Rightarrow> addr \<Rightarrow> bool"
begin

lemma merge_sort_spec:
  assumes "chain nh head as" and "distinct as" and "cmp_decides cmp_func le nh (set as)"
    and "length as < depth" and "length as < fuel"
  shows "\<exists>nh' p as'. list_merge_sort depth fuel cmp_func nh head = Inr (nh', p) \<and> chain nh' p as' \<and>
    mset as' = mset as \<and> sorted_wrt le as' \<and> frame (set as) nh nh'"
  using assms
proof (induction depth arbitrary: nh head as)
  case (Suc depth)
  note prems = Suc.prems
  show ?case
  proof (cases "length as \<le> 1")
    case True
    then have "sorted_wrt le as" by (rule sorted_wrt01)
    moreover have "list_merge_sort (Suc depth) fuel cmp_func nh head = Inr (nh, head)"
      using True prems(1) by (cases as) (auto simp: obj_read_def split: option.splits)
    ultimately show ?thesis using prems(1) by (intro exI [of _ nh] exI [of _ head] exI [of _ as]) simp
  next
    case False
    then obtain a b as2 where as: "as = a # b # as2" by (cases as rule: remdups_adj.cases) auto
    then obtain n where n: "head = Some a" "nh a = Some n" "ln_next n \<noteq> None"
      using prems(1) by (auto split: option.splits)
    have two: "2 \<le> length as" using False by simp
    obtain nh1 l2 xs ys where b: "bisect_list fuel nh head = Inr (nh1, l2)" "as = xs @ ys" "length xs = length as div 2"
      "chain nh1 head xs" "chain nh1 l2 ys" "frame (set as) nh nh1"
      using bisect_list_spec [OF prems(1,2) two prems(5)] by blast
    have len: "length xs < length as" "length ys < length as"
      using b(2,3) two by (auto simp: b(2))
    have dec1: "cmp_decides cmp_func le nh1 (set xs)"
      by (rule cmp_decides_frame [OF prems(3) b(6)]) (simp add: b(2))
    have "distinct xs" "distinct ys" "set xs \<inter> set ys = {}" using prems(2) b(2) by auto
    then obtain nh2 p1 xs' where x: "list_merge_sort depth fuel cmp_func nh1 head = Inr (nh2, p1)" "chain nh2 p1 xs'"
      "mset xs' = mset xs" "sorted_wrt le xs'" "frame (set xs) nh1 nh2"
      using Suc.IH [OF b(4) _ dec1] len prems(4,5) by auto
    have f2: "frame (set as) nh nh2" by (rule frame_trans [OF b(6) x(5)]) (auto simp: b(2))
    have dec2: "cmp_decides cmp_func le nh2 (set ys)"
      by (rule cmp_decides_frame [OF prems(3) f2]) (simp add: b(2))
    have "chain nh2 l2 ys" using frame_path [OF x(5) \<open>set xs \<inter> set ys = {}\<close>] b(5) by blast
    then obtain nh3 p2 ys' where y: "list_merge_sort depth fuel cmp_func nh2 l2 = Inr (nh3, p2)" "chain nh3 p2 ys'"
      "mset ys' = mset ys" "sorted_wrt le ys'" "frame (set ys) nh2 nh3"
      using Suc.IH [of nh2 l2 ys] \<open>distinct ys\<close> dec2 len prems(4,5) by auto
    have sets: "set xs' = set xs" "set ys' = set ys" using x(3) y(3) by (metis set_mset_mset)+
    have "set ys \<inter> set xs' = {}" using \<open>set xs \<inter> set ys = {}\<close> sets by auto
    then have c3: "chain nh3 p1 xs'" using frame_path [OF y(5)] x(2) by blast
    have f3: "frame (set as) nh nh3" by (rule frame_trans [OF f2 y(5)]) (auto simp: b(2))
    have dec3: "cmp_decides cmp_func le nh3 (set xs' \<union> set ys')"
      by (rule cmp_decides_frame [OF prems(3) f3]) (auto simp: b(2) sets)
    have "mset (xs' @ ys') = mset as" using x(3) y(3) b(2) by simp
    then have perm: "distinct (xs' @ ys')" "length (xs' @ ys') = length as"
      using prems(2) by (metis mset_eq_imp_distinct_iff, metis size_mset)
    have "merged nh3 None None []" by (simp add: merged_def)
    then obtain nh' p where m: "merge_loop fuel cmp_func nh3 p1 p2 None None = Inr (nh', p)"
      "chain nh' p (merge_by le xs' ys')" "frame (set (xs' @ ys')) nh3 nh'"
      using merge_loop_spec [OF c3 y(2) _ _ dec3, of "[]" None None fuel] perm prems(5) by auto
    have "frame (set as) nh nh'" by (rule frame_trans [OF f3 m(3)]) (auto simp: b(2) sets)
    moreover have "list_merge_sort (Suc depth) fuel cmp_func nh head = Inr (nh', p)"
      using n b(1) x(1) y(1) m(1) by (auto simp: obj_read_def merge_list_def)
    ultimately show ?thesis
      using m(2) sorted_merge_by [OF total_preorder_axioms x(4) y(4)] x(3) y(3) b(2)
      by (intro exI [of _ nh'] exI [of _ p] exI [of _ "merge_by le xs' ys'"]) (simp add: mset_merge_by)
  qed
qed simp

end

subsection \<open>Lists in the heap\<close>

text \<open>A list that is well formed, with the addresses of its nodes in order.\<close>

definition list_ok :: "'d List \<Rightarrow> nodes \<Rightarrow> addr list \<Rightarrow> bool" where
  "list_ok l nh as \<longleftrightarrow> chain nh (l_head l) as \<and> distinct as \<and> unat (l_len l) = length as \<and>
     l_tail l = (if as = [] then None else Some (last as))"

lemma unat_Suc: "length as < 2 ^ 64 - 1 \<Longrightarrow> unat (w :: u64) = length as \<Longrightarrow> unat (w + 1) = Suc (length as)"
  by (simp add: unat_word_ariths)

lemma list_push_ok:
  assumes "list_ok l nh as" and "nh a = None" and "length as < 2 ^ 64 - 1"
  shows "case list_push l v a nh of (l', nh') \<Rightarrow> list_ok l' nh' (a # as) \<and> map_option ln_data (nh' a) = Some v"
proof -
  have "a \<notin> set as" using assms path_dom unfolding list_ok_def by metis
  moreover have "l_len l = 0 \<longleftrightarrow> as = []" using assms(1) by (auto simp: list_ok_def simp flip: unat_eq_zero)
  ultimately show ?thesis
    using assms unat_Suc [of as "l_len l"] by (auto simp: list_push_def list_ok_def)
qed

lemma list_push_back_ok:
  assumes "list_ok l nh as" and "nh a = None" and "length as < 2 ^ 64 - 1"
  shows "\<exists>l' nh'. list_push_back l v a nh = Inr (l', nh') \<and> list_ok l' nh' (as @ [a]) \<and> map_option ln_data (nh' a) = Some v"
proof -
  have new: "a \<notin> set as" using assms path_dom unfolding list_ok_def by metis
  have zero: "l_len l = 0 \<longleftrightarrow> as = []" using assms(1) by (auto simp: list_ok_def simp flip: unat_eq_zero)
  show ?thesis
  proof (cases as rule: rev_cases)
    case Nil
    then show ?thesis using zero assms unat_Suc [of as "l_len l"]
      by (auto simp: list_push_back_def list_ok_def Let_def)
  next
    case (snoc bs t)
    let ?nh1 = "nh(a \<mapsto> \<lparr> ln_data = v, ln_next = None \<rparr>)"
    have at: "chain ?nh1 (l_head l) (bs @ [t])" "t \<notin> set bs" "l_tail l = Some t" "a \<noteq> t"
      using assms(1) new snoc by (auto simp: list_ok_def)
    obtain n where n: "?nh1 t = Some n" "set_next ?nh1 t (Some a) = Inr (?nh1(t \<mapsto> n\<lparr> ln_next := Some a \<rparr>))"
      "path (?nh1(t \<mapsto> n\<lparr> ln_next := Some a \<rparr>)) (l_head l) (bs @ [t]) (Some a)"
      using path_relink [OF at(1,2), of "Some a"] by blast
    let ?nh2 = "?nh1(t \<mapsto> n\<lparr> ln_next := Some a \<rparr>)"
    have "chain ?nh2 (l_head l) (as @ [a])"
      unfolding path_append using n(3) at(4) snoc by (intro exI [of _ "Some a"]) simp
    moreover have "list_push_back l v a nh = Inr (l\<lparr> l_tail := Some a, l_len := l_len l + 1 \<rparr>, ?nh2)"
      using n(2) at(3) zero snoc by (simp add: list_push_back_def Let_def)
    ultimately show ?thesis
      using assms new at(4) unat_Suc [of as "l_len l"] by (auto simp: list_ok_def)
  qed
qed

lemma destroy_nodes_spec:
  assumes "chain nh h as" and "distinct as" and "map (\<lambda>a. map_option ln_data (nh a)) as = map (\<lambda>d. Some (Some d)) ds"
    and "distinct ds" and "set ds \<subseteq> dom dh"
  shows "destroy_nodes (length as) (free_node True) h (nh, dh) = Inr (nh |` (- set as), dh |` (- set ds))"
  using assms
proof (induction as arbitrary: nh h ds dh)
  case (Cons a as)
  then obtain n d ds' where a: "h = Some a" "nh a = Some n" "chain nh (ln_next n) as" "ds = d # ds'" "ln_data n = Some d"
    "map (\<lambda>a. map_option ln_data (nh a)) as = map (\<lambda>d. Some (Some d)) ds'"
    by (cases ds) (auto split: option.splits)
  let ?nh = "nh(a := None)" and ?dh = "dh(d := None)"
  have out: "a \<notin> set as" "distinct as" "d \<notin> set ds'" "distinct ds'" "d \<in> dom dh" "set ds' \<subseteq> dom dh"
    using Cons.prems a(4) by auto
  have "chain ?nh (ln_next n) as" "map (\<lambda>a. map_option ln_data (?nh a)) as = map (\<lambda>d. Some (Some d)) ds'" "set ds' \<subseteq> dom ?dh"
  proof -
    have "map (\<lambda>a. map_option ln_data (?nh a)) as = map (\<lambda>a. map_option ln_data (nh a)) as" using out(1) by auto
    then show "map (\<lambda>a. map_option ln_data (?nh a)) as = map (\<lambda>d. Some (Some d)) ds'" using a(6) by simp
  qed (use a(3) out in auto)
  then have "destroy_nodes (length as) (free_node True) (ln_next n) (?nh, ?dh) = Inr (?nh |` (- set as), ?dh |` (- set ds'))"
    using Cons.IH [of ?nh "ln_next n" ds' ?dh] out(2,4) by blast
  moreover have "free_node True a (nh, dh) = Inr (?nh, ?dh)"
    using a out(5) by (auto simp: free_node_def obj_read_def obj_free_def)
  moreover have "?nh |` (- set as) = nh |` (- set (a # as))" "?dh |` (- set ds') = dh |` (- set ds)"
    using a(4) by (auto simp: fun_eq_iff restrict_map_def)
  ultimately show ?case using a by (simp add: obj_read_def)
next
  case Nil
  then show ?case by (simp add: restrict_map_def)
qed

subsection \<open>Properties\<close>

definition sample_nodes :: nodes where
  "sample_nodes = [1 \<mapsto> \<lparr> ln_data = Some 10, ln_next = Some 2 \<rparr>, 2 \<mapsto> \<lparr> ln_data = Some 20, ln_next = None \<rparr>]"

definition sample_list :: "nat List" where
  "sample_list = \<lparr> l_head = Some 1, l_tail = Some 2, l_len = 2, l_destructor = None \<rparr>"

lemma sample_list_ok: "list_ok sample_list sample_nodes [1, 2]"
  by (simp add: list_ok_def sample_list_def sample_nodes_def)

text \<open>
  \<^verbatim>\<open>list_push\<close> and \<^verbatim>\<open>list_push_back\<close> insert at the two ends: on a well formed list, with a node the
  allocator provides, the nodes are the old ones with the new one in front, or behind; the list stays
  well formed (head, tail, length and links), and the new node holds the value.
\<close>

theorem list_insert_correct:
  assumes "list_ok l nh as" and "nh a = None" and "length as < 2 ^ 64 - 1"
  shows "(case list_push l v a nh of (l', nh') \<Rightarrow> list_ok l' nh' (a # as) \<and> map_option ln_data (nh' a) = Some v) \<and>
    (\<exists>l' nh'. list_push_back l v a nh = Inr (l', nh') \<and> list_ok l' nh' (as @ [a]) \<and> map_option ln_data (nh' a) = Some v)"
  by (rule conjI [OF list_push_ok [OF assms] list_push_back_ok [OF assms]])

theorem list_insert_correct_witness:
  "\<exists>l' nh'. list_push_back sample_list (Some 30) 3 sample_nodes = Inr (l', nh') \<and> list_ok l' nh' [1, 2, 3]"
  using list_insert_correct [OF sample_list_ok, of 3 "Some 30"] by (auto simp: sample_nodes_def)

text \<open>
  \<^verbatim>\<open>list_destroy\<close> of a list without a destructor, with \<^verbatim>\<open>deep\<close> set, releases every node and every
  data object exactly once and nothing else, when no two nodes share their data.
\<close>

theorem list_destroy_correct:
  assumes "list_ok l nh as" and "l_destructor l = None" and "map (\<lambda>a. map_option ln_data (nh a)) as = map (\<lambda>d. Some (Some d)) ds"
    and "distinct ds" and "set ds \<subseteq> dom dh"
  shows "list_destroy l True (nh, dh) = Inr (nh |` (- set as), dh |` (- set ds))"
  using assms destroy_nodes_spec [of nh "l_head l" as ds dh] by (simp add: list_destroy_def list_ok_def)

theorem list_destroy_correct_witness:
  "list_destroy sample_list True (sample_nodes, [10 \<mapsto> (0 :: nat), 20 \<mapsto> 1, 30 \<mapsto> 2]) =
     Inr (sample_nodes |` (- {1, 2}), [10 \<mapsto> 0, 20 \<mapsto> 1, 30 \<mapsto> 2] |` (- {10, 20}))"
  using list_destroy_correct [OF sample_list_ok, of "[10, 20]" "[10 \<mapsto> 0, 20 \<mapsto> 1, 30 \<mapsto> 2]"]
  by (simp add: sample_list_def sample_nodes_def)

text \<open>
  \<^verbatim>\<open>list_remove_node\<close> cannot remove the first node: the node is returned and the length drops, but
  the list still starts with it, and because its link is cleared the rest of the list is lost.
\<close>

theorem list_remove_node_first:
  assumes "list_ok l nh (a # as)" and "matches a" and "0 < depth"
  shows "\<exists>l' nh'. list_remove_node depth l matches nh = Inr (l', nh', Some a) \<and>
    l_head l' = Some a \<and> chain nh' (l_head l') [a] \<and> unat (l_len l') = length as"
proof -
  obtain n where n: "l_head l = Some a" "nh a = Some n" using assms(1) by (auto simp: list_ok_def split: option.splits)
  have len: "unat (l_len l) = Suc (length as)" using assms(1) by (simp add: list_ok_def)
  then have "l_len l \<noteq> 0" by auto
  moreover have "unat (l_len l - 1) = length as" using len by (simp add: unat_minus_one [OF calculation])
  moreover obtain d where "depth = Suc d" using assms(3) by (cases depth) auto
  ultimately show ?thesis using n assms(2) by (simp add: list_remove_node_def set_next_def obj_read_def)
qed

theorem list_remove_node_first_witness:
  "\<exists>l' nh'. list_remove_node 1 sample_list (\<lambda>a. a = 1) sample_nodes = Inr (l', nh', Some 1) \<and>
     l_head l' = Some 1 \<and> chain nh' (l_head l') [1] \<and> unat (l_len l') = 1"
  using list_remove_node_first [OF sample_list_ok, of "\<lambda>a. a = 1" 1] by simp

end
