(* ===== verification/Tdb_Cluster.thy ===== *)
theory Tdb_Cluster
  imports Tdb_Hashtable Tdb_List
begin

unbundle bit_operations_syntax

text \<open>
  The consistent hash ring of \<^verbatim>\<open>src/cluster.c\<close>: a list of cluster nodes sorted by the last hash value
  each of them owns, with virtual nodes for each real one. The nodes of the list and the cluster
  nodes they point to live in two heaps; the addresses the allocator provides are an argument.
\<close>

subsection \<open>Ring points\<close>

definition RING_SIZE :: nat where "RING_SIZE = 4096"
definition KPRIME :: u64 where "KPRIME = 2654435761"

definition hash :: "cstring option \<Rightarrow> u16" where
  "hash keystr =
     (case keystr of
        None \<Rightarrow> - 1
      | Some s \<Rightarrow>
          let key = crc32 s;
              key = key + push_bit 12 key;
              key = key XOR drop_bit 22 key;
              key = key + push_bit 4 key;
              key = key XOR drop_bit 9 key;
              key = key + push_bit 10 key;
              key = key XOR drop_bit 2 key;
              key = key + push_bit 7 key;
              key = key XOR drop_bit 12 key;
              key = drop_bit 3 key * KPRIME
          in of_nat (unat key mod RING_SIZE))"

record cluster_node =
  cn_self :: bool
  cn_vnode :: bool
  cn_fd :: int
  cn_upper_bound :: u16
  cn_host :: cstring
  cn_port :: cstring

record cluster =
  cl_size :: int
  cl_replicas :: int
  cl_nodes :: "cluster_node List"

type_synonym ring_heap = "nodes \<times> cluster_node heap"

definition read_node :: "cluster_node heap \<Rightarrow> addr option \<Rightarrow> cluster_node cres" where
  "read_node dh p = (case p of None \<Rightarrow> Inl NullDeref | Some d \<Rightarrow> obj_read dh d)"

definition compare_upper_bound :: "cluster_node heap \<Rightarrow> addr option \<Rightarrow> addr option \<Rightarrow> int cres" where
  "compare_upper_bound dh arg1 arg2 =
     bindE (read_node dh arg1) (\<lambda>c1.
     bindE (read_node dh arg2) (\<lambda>c2.
       let n1 = cn_upper_bound c1; n2 = cn_upper_bound c2
       in if n1 = n2 then Inr 0 else if n1 < n2 then Inr (- 1) else Inr 1))"

subsection \<open>Adding nodes\<close>

definition insert_node :: "nat \<Rightarrow> cluster \<Rightarrow> addr \<Rightarrow> bool \<Rightarrow> addr \<Rightarrow> ring_heap \<Rightarrow> (cluster \<times> ring_heap) cres" where
  "insert_node fuel cluster cnode vnode new_node s =
     (case s of (nh, dh) \<Rightarrow>
        bindE (obj_read dh cnode) (\<lambda>c.
          let dh1 = dh(cnode \<mapsto> c\<lparr> cn_vnode := vnode \<rparr>) in
          case list_push (cl_nodes cluster) (Some cnode) new_node nh of (l, nh1) \<Rightarrow>
            bindE (list_merge_sort fuel fuel (compare_upper_bound dh1) nh1 (l_head l)) (\<lambda>(nh2, head).
            bindE (if vnode then Inr (cl_size cluster) else c_int (cl_size cluster + 1)) (\<lambda>sz.
              Inr (cluster\<lparr> cl_nodes := l\<lparr> l_head := head \<rparr>, cl_size := sz \<rparr>, (nh2, dh1))))))"

text \<open>\<^verbatim>\<open>strcpy\<close> and \<^verbatim>\<open>strcat\<close> into an array of \<open>cap\<close> bytes, with the terminating NUL.\<close>

definition str_fits :: "nat \<Rightarrow> cstring \<Rightarrow> cstring cres" where
  "str_fits cap s = (if length s + 1 \<le> cap then Inr s else Inl OutOfBounds)"

definition INET_ADDRSTRLEN :: nat where "INET_ADDRSTRLEN = 16"

text \<open>
  One node of the ring: allocation, the ring point of its full address, its fields and the insertion.
  Each pair of \<open>alloc\<close> is a block for a cluster node and one for its list node.
\<close>

definition add_ring_node :: "nat \<Rightarrow> cluster \<Rightarrow> int \<Rightarrow> cstring \<Rightarrow> cstring \<Rightarrow> bool \<Rightarrow> cstring \<Rightarrow> bool \<Rightarrow> addr \<times> addr \<Rightarrow>
    ring_heap \<Rightarrow> (cluster \<times> ring_heap) cres" where
  "add_ring_node fuel cluster fd addr port self fulladdr vnode new s =
     (case s of (nh, dh) \<Rightarrow>
        let upper_bound = hash (Some fulladdr) mod of_nat RING_SIZE in
        bindE (str_fits (INET_ADDRSTRLEN + 1) addr) (\<lambda>host.
        bindE (str_fits 6 port) (\<lambda>prt.
          insert_node fuel cluster (fst new) vnode (snd new)
            (nh, dh(fst new \<mapsto> \<lparr> cn_self = self, cn_vnode = False, cn_fd = fd, cn_upper_bound = upper_bound,
                              cn_host = host, cn_port = prt \<rparr>)))))"

fun add_vnodes :: "nat \<Rightarrow> nat \<Rightarrow> cluster \<Rightarrow> int \<Rightarrow> cstring \<Rightarrow> cstring \<Rightarrow> bool \<Rightarrow> (addr \<times> addr) list \<Rightarrow> ring_heap \<Rightarrow>
    (cluster \<times> ring_heap \<times> int) cres" where
  "add_vnodes fuel 0 cluster fd addr port self alloc s = Inr (cluster, s, 0)"
| "add_vnodes fuel (Suc replicas) cluster fd addr port self alloc s =
     bindE (str_fits 20 (sprintf_d (int replicas) @ addr)) (\<lambda>pre.
     bindE (str_fits 30 (pre @ port)) (\<lambda>fulladdr.
       case alloc of
         [] \<Rightarrow> Inr (cluster, s, - 1)
       | new # alloc' \<Rightarrow>
           bindE (add_ring_node fuel cluster fd addr port self fulladdr True new s) (\<lambda>(cluster', s').
             add_vnodes fuel replicas cluster' fd addr port self alloc' s')))"

definition cluster_add_new_node :: "nat \<Rightarrow> cluster \<Rightarrow> int \<Rightarrow> cstring \<Rightarrow> cstring \<Rightarrow> bool \<Rightarrow> (addr \<times> addr) list \<Rightarrow> ring_heap \<Rightarrow>
    (cluster \<times> ring_heap \<times> int) cres" where
  "cluster_add_new_node fuel cluster fd addr port self alloc s =
     bindE (str_fits 30 (addr @ port)) (\<lambda>fulladdr.
       case alloc of
         [] \<Rightarrow> Inr (cluster, s, - 1)
       | new # alloc' \<Rightarrow>
           bindE (add_ring_node fuel cluster fd addr port self fulladdr False new s) (\<lambda>(cluster', s').
             if cl_replicas cluster' < 0 then Inl SignedOverflow
             else add_vnodes fuel (nat (cl_replicas cluster')) cluster' fd addr port self alloc' s'))"

subsection \<open>Lookup\<close>

definition deref_node :: "nodes \<Rightarrow> addr option \<Rightarrow> list_node cres" where
  "deref_node nh p = (case p of None \<Rightarrow> Inl NullDeref | Some a \<Rightarrow> obj_read nh a)"

fun ring_walk :: "nat \<Rightarrow> ring_heap \<Rightarrow> u16 \<Rightarrow> addr option \<Rightarrow> addr option cres" where
  "ring_walk 0 s hash_value cur = Inl StackExhausted"
| "ring_walk (Suc fuel) s hash_value cur =
     bindE (deref_node (fst s) cur) (\<lambda>n.
       if ln_next n = None then Inr cur
       else
         bindE (deref_node (fst s) (ln_next n)) (\<lambda>m.
         bindE (read_node (snd s) (ln_data m)) (\<lambda>c.
           if cn_upper_bound c < hash_value then ring_walk fuel s hash_value (ln_next n) else Inr cur)))"

definition cluster_get_node :: "nat \<Rightarrow> cluster \<Rightarrow> u16 \<Rightarrow> ring_heap \<Rightarrow> addr option cres" where
  "cluster_get_node fuel cluster hash_value s =
     (let head = l_head (cl_nodes cluster) in
      if l_len (cl_nodes cluster) = 1 then bindE (deref_node (fst s) head) (\<lambda>n. Inr (ln_data n))
      else
        bindE (ring_walk fuel s hash_value head) (\<lambda>cur.
        bindE (deref_node (fst s) cur) (\<lambda>n.
        bindE (read_node (snd s) (ln_data n)) (\<lambda>c.
          if ln_next n = None \<and> cn_upper_bound c < hash_value
          then bindE (deref_node (fst s) head) (\<lambda>m. Inr (ln_data m))
          else if hash_value > cn_upper_bound c then bindE (deref_node (fst s) (ln_next n)) (\<lambda>m. Inr (ln_data m))
          else Inr (ln_data n)))))"

definition cluster_size :: "cluster \<Rightarrow> u64" where
  "cluster_size cluster = l_len (cl_nodes cluster)"

subsection \<open>The ring of a cluster\<close>

definition node_at :: "ring_heap \<Rightarrow> addr \<Rightarrow> cluster_node" where
  "node_at s a = the (snd s (the (ln_data (the (fst s a)))))"

definition bound_at :: "ring_heap \<Rightarrow> addr \<Rightarrow> u16" where
  "bound_at s a = cn_upper_bound (node_at s a)"

definition ring_le :: "ring_heap \<Rightarrow> addr \<Rightarrow> addr \<Rightarrow> bool" where
  "ring_le s a b \<longleftrightarrow> bound_at s a \<le> bound_at s b"

text \<open>The list node at an address points to a live cluster node.\<close>

definition live_node :: "ring_heap \<Rightarrow> addr \<Rightarrow> bool" where
  "live_node s a \<longleftrightarrow> (case fst s a of
     None \<Rightarrow> False | Some n \<Rightarrow> (case ln_data n of None \<Rightarrow> False | Some d \<Rightarrow> snd s d \<noteq> None))"

definition data_of :: "nodes \<Rightarrow> addr \<Rightarrow> addr option" where
  "data_of nh a = ln_data (the (nh a))"

definition ring_ok :: "cluster \<Rightarrow> ring_heap \<Rightarrow> addr list \<Rightarrow> bool" where
  "ring_ok cl s as \<longleftrightarrow> chain (fst s) (l_head (cl_nodes cl)) as \<and> distinct as \<and> unat (l_len (cl_nodes cl)) = length as \<and>
     (\<forall>a \<in> set as. live_node s a) \<and> sorted_wrt (ring_le s) as \<and>
     inj_on (data_of (fst s)) (set as) \<and> l_destructor (cl_nodes cl) = None"

interpretation ring_order: node_order "ring_le s" for s
  by unfold_locales (auto simp: ring_le_def)

lemma live_nodeE:
  assumes "live_node s a"
  obtains n d where "fst s a = Some n" and "ln_data n = Some d" and "snd s d = Some (node_at s a)"
  using assms by (auto simp: live_node_def node_at_def split: option.splits)

lemma compare_decides:
  assumes "\<forall>a \<in> S. live_node (nh, dh) a"
  shows "cmp_decides (compare_upper_bound dh) (ring_le (nh, dh)) nh S"
  unfolding cmp_decides_def
proof (intro ballI allI impI)
  fix a b na nb
  assume ab: "a \<in> S" "b \<in> S" and n: "nh a = Some na" "nh b = Some nb"
  obtain da where "ln_data na = Some da" "dh da = Some (node_at (nh, dh) a)" using assms ab(1) n by (auto elim!: live_nodeE)
  moreover obtain db where "ln_data nb = Some db" "dh db = Some (node_at (nh, dh) b)" using assms ab(2) n by (auto elim!: live_nodeE)
  ultimately show "\<exists>c. compare_upper_bound dh (ln_data na) (ln_data nb) = Inr c \<and> (c \<le> 0 \<longleftrightarrow> ring_le (nh, dh) a b)"
    by (auto simp: compare_upper_bound_def read_node_def obj_read_def ring_le_def bound_at_def Let_def)
qed

lemma frame_dom: "frame T nh nh' \<Longrightarrow> dom nh' = dom nh"
proof -
  assume "frame T nh nh'"
  then have "map_option ln_data (nh' a) = None \<longleftrightarrow> map_option ln_data (nh a) = None" for a
    by (simp only: frame_def)
  then have "nh' a = None \<longleftrightarrow> nh a = None" for a by (simp only: map_option_is_None)
  then show ?thesis by (simp only: dom_def)
qed

lemma frame_node_at:
  assumes "frame T nh nh'"
  shows "node_at (nh', dh) = node_at (nh, dh)" and "ring_le (nh', dh) = ring_le (nh, dh)"
    and "live_node (nh', dh) a \<longleftrightarrow> live_node (nh, dh) a"
proof -
  have "map_option ln_data (nh' a) = map_option ln_data (nh a)" for a using assms by (simp add: frame_def)
  then have eq: "(\<exists>n'. nh' a = Some n' \<and> (\<exists>n. nh a = Some n \<and> ln_data n = ln_data n')) \<or> nh' a = None \<and> nh a = None" for a
    by (cases "nh a"; cases "nh' a") (metis option.simps(8,9) option.distinct(1) option.inject)+
  show "node_at (nh', dh) = node_at (nh, dh)"
  proof
    show "node_at (nh', dh) a = node_at (nh, dh) a" for a using eq [of a] by (auto simp: node_at_def)
  qed
  then show "ring_le (nh', dh) = ring_le (nh, dh)" by (simp add: ring_le_def bound_at_def fun_eq_iff)
  show "live_node (nh', dh) a \<longleftrightarrow> live_node (nh, dh) a"
    using eq [of a] by (auto simp: live_node_def split: option.splits)
qed

lemma frame_data_of:
  assumes "frame T nh nh'"
  shows "data_of nh' = data_of nh"
proof
  fix a
  have "map_option ln_data (nh' a) = map_option ln_data (nh a)" using assms by (simp add: frame_def)
  then show "data_of nh' a = data_of nh a" by (cases "nh a"; cases "nh' a") (simp_all add: data_of_def)
qed

lemma ring_push:
  assumes ok: "ring_ok cl (nh, dh) as" and new: "nh a = None" "dh d = None"
    and s1_def: "s1 = (nh(a \<mapsto> \<lparr> ln_data = Some d, ln_next = l_head (cl_nodes cl) \<rparr>), dh(d \<mapsto> c))"
  shows "chain (fst s1) (Some a) (a # as)" and "distinct (a # as)" and "\<forall>x \<in> set (a # as). live_node s1 x"
    and "node_at s1 a = c" and "\<forall>x \<in> set as. node_at s1 x = node_at (nh, dh) x"
    and "inj_on (data_of (fst s1)) (set (a # as))"
proof -
  have chain: "chain nh (l_head (cl_nodes cl)) as" and dist: "distinct as" and live: "\<forall>x \<in> set as. live_node (nh, dh) x"
    using ok by (simp_all add: ring_ok_def)
  have out: "a \<notin> set as" using path_dom [OF chain] new(1) by blast
  then show "chain (fst s1) (Some a) (a # as)" "distinct (a # as)" using chain dist by (simp_all add: s1_def)
  have other: "x \<noteq> a \<and> (\<exists>n e. nh x = Some n \<and> ln_data n = Some e \<and> e \<noteq> d \<and> dh e = Some (node_at (nh, dh) x))" if "x \<in> set as" for x
  proof -
    have "live_node (nh, dh) x" using live that by blast
    then obtain n e where "nh x = Some n" "ln_data n = Some e" "dh e = Some (node_at (nh, dh) x)"
      by (auto elim!: live_nodeE)
    then show ?thesis using out that new(2) by auto
  qed
  show "\<forall>x \<in> set (a # as). live_node s1 x"
  proof
    fix x assume x: "x \<in> set (a # as)"
    show "live_node s1 x"
    proof (cases "x = a")
      case False
      then obtain n e where "nh x = Some n" "ln_data n = Some e" "e \<noteq> d" "dh e \<noteq> None" using other x by force
      then show ?thesis using False by (simp add: s1_def live_node_def)
    qed (simp add: s1_def live_node_def)
  qed
  show "node_at s1 a = c" by (simp add: s1_def node_at_def)
  have "data_of (fst s1) a = Some d" by (simp add: s1_def data_of_def)
  moreover have dat: "data_of (fst s1) x = data_of nh x \<and> data_of nh x \<noteq> Some d" if "x \<in> set as" for x
    using other [OF that] by (auto simp: s1_def data_of_def)
  moreover have "inj_on (data_of (fst s1)) (set as)"
    using ok dat by (simp add: ring_ok_def inj_on_def)
  ultimately show "inj_on (data_of (fst s1)) (set (a # as))" by (force simp: inj_on_def)
  show "\<forall>x \<in> set as. node_at s1 x = node_at (nh, dh) x"
  proof
    fix x assume "x \<in> set as"
    then obtain n e where "x \<noteq> a" "nh x = Some n" "ln_data n = Some e" "e \<noteq> d" using other by blast
    then show "node_at s1 x = node_at (nh, dh) x" by (simp add: s1_def node_at_def)
  qed
qed

lemma insert_node_spec:
  assumes ok: "ring_ok cl (nh, dh) as" and new: "nh a = None" "dh d = None"
    and fuel: "length as + 1 < fuel" "length as < 2 ^ 64 - 1" and sz: "0 \<le> cl_size cl" "cl_size cl < INT_MAX"
  shows "\<exists>cl' nh' as'. insert_node fuel cl d v a (nh, dh(d \<mapsto> c)) = Inr (cl', (nh', dh(d \<mapsto> c\<lparr> cn_vnode := v \<rparr>))) \<and>
    ring_ok cl' (nh', dh(d \<mapsto> c\<lparr> cn_vnode := v \<rparr>)) as' \<and> length as' = length as + 1 \<and> dom nh' = insert a (dom nh) \<and>
    mset (map (node_at (nh', dh(d \<mapsto> c\<lparr> cn_vnode := v \<rparr>))) as') = add_mset (c\<lparr> cn_vnode := v \<rparr>) (mset (map (node_at (nh, dh)) as)) \<and>
    cl_replicas cl' = cl_replicas cl \<and> cl_size cl' = cl_size cl + (if v then 0 else 1)"
proof -
  let ?c = "c\<lparr> cn_vnode := v \<rparr>"
  let ?dh = "dh(d \<mapsto> ?c)"
  let ?nh = "nh(a \<mapsto> \<lparr> ln_data = Some d, ln_next = l_head (cl_nodes cl) \<rparr>)"
  let ?l = "cl_nodes cl"
  note p = ring_push [OF ok new, of "(?nh, ?dh)" ?c, OF refl]
  have len: "unat (l_len ?l) = length as" and chain: "chain nh (l_head ?l) as" using ok by (simp_all add: ring_ok_def)
  have zero: "l_len ?l = 0 \<longleftrightarrow> as = []" using len by (auto simp flip: unat_eq_zero)
  obtain l where push: "list_push ?l (Some d) a nh = (l, ?nh)" "l_head l = Some a" "l_len l = l_len ?l + 1"
    "l_destructor l = l_destructor ?l"
    using zero chain by (cases "as = []") (auto simp: list_push_def)
  obtain nh' p' as' where sort: "list_merge_sort fuel fuel (compare_upper_bound ?dh) ?nh (Some a) = Inr (nh', p')" "chain nh' p' as'"
    "mset as' = mset (a # as)" "sorted_wrt (ring_le (?nh, ?dh)) as'" "frame (set (a # as)) ?nh nh'"
    using ring_order.merge_sort_spec [OF p(1) [unfolded fst_conv] p(2) compare_decides [OF p(3)], of fuel fuel] fuel(1) by auto
  note fr = frame_node_at [OF sort(5), of ?dh]
  have "set as' = set (a # as)" "length as' = length (a # as)" "distinct as'"
    using sort(3) p(2) by (metis set_mset_mset, metis size_mset, metis mset_eq_imp_distinct_iff)
  moreover have "unat (l_len l) = length as + 1" using push(3) len fuel(2) by (simp add: unat_word_ariths)
  moreover have "c_int (cl_size cl + 1) = Inr (cl_size cl + 1)" using sz by (simp add: c_int_def INT_MIN_def)
  moreover have "mset (map (node_at (nh', ?dh)) as') = add_mset ?c (mset (map (node_at (nh, dh)) as))"
  proof -
    have "map (node_at (?nh, ?dh)) as = map (node_at (nh, dh)) as" using p(5) by (simp only: map_eq_conv)
    then have "mset (map (node_at (?nh, ?dh)) (a # as)) = add_mset ?c (mset (map (node_at (nh, dh)) as))"
      using p(4) by (simp only: list.map mset.simps)
    moreover have "mset (map f as') = mset (map f (a # as))" for f :: "addr \<Rightarrow> cluster_node"
      using sort(3) by (simp only: mset_map)
    ultimately show ?thesis unfolding fr(1) by (simp only:)
  qed
  moreover have "dom nh' = insert a (dom nh)" using frame_dom [OF sort(5)] by simp
  ultimately show ?thesis
    using push sort(1,2,4) p(3,6) fr frame_data_of [OF sort(5)] ok
    by (intro exI [of _ "cl\<lparr> cl_nodes := l\<lparr> l_head := p' \<rparr>, cl_size := cl_size cl + (if v then 0 else 1) \<rparr>"] exI [of _ nh'] exI [of _ as'])
      (simp add: insert_node_def obj_read_def ring_ok_def)
qed

subsection \<open>Adding a real node and its replicas\<close>

abbreviation ring_node :: "int \<Rightarrow> cstring \<Rightarrow> cstring \<Rightarrow> bool \<Rightarrow> cstring \<Rightarrow> bool \<Rightarrow> cluster_node" where
  "ring_node fd addr port self fulladdr v \<equiv>
     \<lparr> cn_self = self, cn_vnode = v, cn_fd = fd, cn_upper_bound = hash (Some fulladdr) mod of_nat RING_SIZE,
       cn_host = addr, cn_port = port \<rparr>"

text \<open>The blocks the allocator provides are distinct and not in use.\<close>

definition alloc_ok :: "(addr \<times> addr) list \<Rightarrow> ring_heap \<Rightarrow> bool" where
  "alloc_ok alloc s \<longleftrightarrow> distinct (map fst alloc) \<and> distinct (map snd alloc) \<and>
     (\<forall>x \<in> set alloc. snd s (fst x) = None \<and> fst s (snd x) = None)"

text \<open>The heap has grown by at most the blocks of an allocation.\<close>

definition grown :: "(addr \<times> addr) list \<Rightarrow> ring_heap \<Rightarrow> ring_heap \<Rightarrow> bool" where
  "grown alloc s s' \<longleftrightarrow> dom (fst s') \<subseteq> dom (fst s) \<union> snd ` set alloc \<and> dom (snd s') \<subseteq> dom (snd s) \<union> fst ` set alloc"

lemma grown_refl: "grown alloc s s"
  by (simp add: grown_def)

lemma grown_Cons: "grown [new] s s1 \<Longrightarrow> grown alloc s1 s2 \<Longrightarrow> grown (new # alloc) s s2"
  unfolding grown_def by (simp only: list.set image_insert image_empty) blast

lemma grown_alloc_ok:
  assumes "grown alloc s s'" and "alloc_ok (alloc @ alloc2) s"
  shows "alloc_ok alloc2 s'"
proof -
  have d: "\<forall>x \<in> set alloc2. fst x \<notin> fst ` set alloc \<and> snd x \<notin> snd ` set alloc"
    using assms(2) by (auto simp: alloc_ok_def)
  have "snd s' (fst x) = None \<and> fst s' (snd x) = None" if "x \<in> set alloc2" for x
  proof -
    have "fst x \<notin> dom (snd s)" "snd x \<notin> dom (fst s)" using assms(2) that by (auto simp: alloc_ok_def)
    with d that assms(1) have "fst x \<notin> dom (snd s')" "snd x \<notin> dom (fst s')" unfolding grown_def by blast+
    then show ?thesis by (simp add: domIff)
  qed
  then show ?thesis using assms(2) by (simp add: alloc_ok_def)
qed

definition ring_view :: "ring_heap \<Rightarrow> addr list \<Rightarrow> cluster_node list" where
  "ring_view s as = map (node_at s) as"

lemma add_ring_node_spec:
  assumes ok: "ring_ok cl s as" and alloc: "alloc_ok (new # alloc) s" and addr: "length addr \<le> 16" "length port \<le> 5"
    and fuel: "length as + 1 < fuel" "length as < 2 ^ 64 - 1" and sz: "0 \<le> cl_size cl" "cl_size cl < INT_MAX"
  shows "\<exists>cl' s' as'. add_ring_node fuel cl fd addr port self fulladdr v new s = Inr (cl', s') \<and>
    ring_ok cl' s' as' \<and> length as' = length as + 1 \<and> alloc_ok alloc s' \<and> grown [new] s s' \<and>
    mset (ring_view s' as') = add_mset (ring_node fd addr port self fulladdr v) (mset (ring_view s as)) \<and>
    cl_replicas cl' = cl_replicas cl \<and> cl_size cl' = cl_size cl + (if v then 0 else 1)"
proof -
  obtain nh dh d a where s: "s = (nh, dh)" "new = (d, a)" by (cases s; cases new)
  let ?c = "ring_node fd addr port self fulladdr False"
  let ?dh = "dh(d \<mapsto> ?c\<lparr> cn_vnode := v \<rparr>)"
  have fresh: "nh a = None" "dh d = None" using alloc s by (simp_all add: alloc_ok_def)
  obtain cl' nh' as' where i: "insert_node fuel cl d v a (nh, dh(d \<mapsto> ?c)) = Inr (cl', (nh', ?dh))"
    "ring_ok cl' (nh', ?dh) as'" "length as' = length as + 1" "dom nh' = insert a (dom nh)"
    "mset (map (node_at (nh', ?dh)) as') = add_mset (?c\<lparr> cn_vnode := v \<rparr>) (mset (map (node_at (nh, dh)) as))"
    "cl_replicas cl' = cl_replicas cl" "cl_size cl' = cl_size cl + (if v then 0 else 1)"
    using insert_node_spec [OF ok [unfolded s(1)] fresh fuel sz, of v ?c] by blast
  have "alloc_ok alloc (nh', ?dh)"
    unfolding alloc_ok_def
  proof (intro conjI ballI)
    fix x assume x: "x \<in> set alloc"
    then have "fst x \<noteq> d" "snd x \<noteq> a" "dh (fst x) = None" "nh (snd x) = None" using alloc s by (auto simp: alloc_ok_def)
    then have "snd x \<notin> dom nh'" using i(4) by (simp add: domIff)
    then show "fst (nh', ?dh) (snd x) = None" by (simp add: domIff)
    show "snd (nh', ?dh) (fst x) = None" using \<open>fst x \<noteq> d\<close> \<open>dh (fst x) = None\<close> by simp
  qed (use alloc in \<open>simp_all add: alloc_ok_def\<close>)
  moreover have "grown [new] s (nh', ?dh)" using i(4) s by (auto simp: grown_def)
  moreover have "add_ring_node fuel cl fd addr port self fulladdr v new s = Inr (cl', (nh', ?dh))"
    using i(1) addr by (simp add: add_ring_node_def s str_fits_def INET_ADDRSTRLEN_def Let_def)
  ultimately show ?thesis
    using i(2,3,5-7) unfolding ring_view_def s(1)
    by (intro exI [of _ cl'] exI [of _ "(nh', ?dh)"] exI [of _ as']) simp
qed

lemma digits_3: "n < 1000 \<Longrightarrow> length (sprintf_d (int n)) \<le> 3"
proof -
  assume "n < 1000"
  then have "length (dec_digits n) \<le> length (dec_digits 999)" by (intro length_dec_digits_mono) simp
  then show ?thesis by (simp add: dec_digits.simps sprintf_d_def)
qed

lemma add_vnodes_spec:
  assumes "ring_ok cl s as" and "alloc_ok alloc s" and "n \<le> length alloc" and "n \<le> 1000"
    and "length addr \<le> 16" "length port \<le> 5" and "length as + n + 1 < fuel" "length as + n < 2 ^ 64 - 1"
    and "0 \<le> cl_size cl" "cl_size cl < INT_MAX"
  shows "\<exists>cl' s' as'. add_vnodes fuel n cl fd addr port self alloc s = Inr (cl', s', 0) \<and>
    ring_ok cl' s' as' \<and> length as' = length as + n \<and> cl_size cl' = cl_size cl \<and> cl_replicas cl' = cl_replicas cl \<and>
    grown alloc s s' \<and>
    mset (ring_view s' as') = mset (ring_view s as) +
      mset (map (\<lambda>i. ring_node fd addr port self (sprintf_d (int i) @ addr @ port) True) [0..<n])"
  using assms
proof (induction n arbitrary: cl s as alloc)
  case (Suc n)
  then obtain new alloc' where al: "alloc = new # alloc'" by (cases alloc) auto
  let ?full = "sprintf_d (int n) @ addr @ port"
  obtain cl1 s1 as1 where a: "add_ring_node fuel cl fd addr port self ?full True new s = Inr (cl1, s1)" "ring_ok cl1 s1 as1"
    "length as1 = length as + 1" "alloc_ok alloc' s1" "mset (ring_view s1 as1) = add_mset (ring_node fd addr port self ?full True) (mset (ring_view s as))"
    "cl_size cl1 = cl_size cl" "cl_replicas cl1 = cl_replicas cl" "grown [new] s s1"
    using add_ring_node_spec [OF Suc.prems(1) Suc.prems(2) [unfolded al] Suc.prems(5,6), of fuel fd self ?full True] Suc.prems(7-10) by auto
  have "\<exists>cl' s' as'. add_vnodes fuel n cl1 fd addr port self alloc' s1 = Inr (cl', s', 0) \<and>
    ring_ok cl' s' as' \<and> length as' = length as1 + n \<and> cl_size cl' = cl_size cl1 \<and>
    cl_replicas cl' = cl_replicas cl1 \<and> grown alloc' s1 s' \<and>
    mset (ring_view s' as') = mset (ring_view s1 as1) +
      mset (map (\<lambda>i. ring_node fd addr port self (sprintf_d (int i) @ addr @ port) True) [0..<n])"
    using Suc.prems a(3,6) al by (intro Suc.IH [OF a(2,4)]) simp_all
  moreover have "str_fits 20 (sprintf_d (int n) @ addr) = Inr (sprintf_d (int n) @ addr)"
    "str_fits 30 ((sprintf_d (int n) @ addr) @ port) = Inr ?full"
    using digits_3 [of n] Suc.prems(4-6) by (simp_all add: str_fits_def)
  ultimately show ?case using a al grown_Cons [OF a(8)] by fastforce
qed (auto simp: grown_refl)

subsection \<open>Finding the owner of a hash value\<close>

lemma ring_walk_spec:
  assumes "chain (fst s) (Some a) (a # as)" and "\<forall>x \<in> set (a # as). live_node s x" and "length as < fuel"
  shows "\<exists>pre b post. ring_walk fuel s hv (Some a) = Inr (Some b) \<and> a # as = pre @ b # post \<and>
    (\<forall>x \<in> set (tl (pre @ [b])). bound_at s x < hv) \<and> (post \<noteq> [] \<longrightarrow> hv \<le> bound_at s (hd post)) \<and> chain (fst s) (Some b) (b # post)"
  using assms
proof (induction fuel arbitrary: a as)
  case (Suc fuel)
  obtain n where n: "fst s a = Some n" "chain (fst s) (ln_next n) as" using Suc.prems(1) by (auto split: option.splits)
  show ?case
  proof (cases as)
    case Nil
    then show ?thesis using n by (intro exI [of _ "[]"] exI [of _ a]) (simp add: deref_node_def obj_read_def)
  next
    case (Cons b as')
    obtain m d where m: "ln_next n = Some b" "fst s b = Some m" "ln_data m = Some d" "snd s d = Some (node_at s b)"
      using n(2) Suc.prems(2) Cons by (auto elim!: live_nodeE split: option.splits)
    have step: "ring_walk (Suc fuel) s hv (Some a) = (if bound_at s b < hv then ring_walk fuel s hv (Some b) else Inr (Some a))"
      using n m by (simp add: deref_node_def obj_read_def read_node_def bound_at_def)
    show ?thesis
    proof (cases "bound_at s b < hv")
      case True
      obtain pre c post where r: "ring_walk fuel s hv (Some b) = Inr (Some c)" "b # as' = pre @ c # post"
        "\<forall>x \<in> set (tl (pre @ [c])). bound_at s x < hv" "post \<noteq> [] \<longrightarrow> hv \<le> bound_at s (hd post)" "chain (fst s) (Some c) (c # post)"
        using Suc.IH [of b as'] Suc.prems(2,3) n(2) m(1) Cons by auto
      have "\<forall>x \<in> set (pre @ [c]). bound_at s x < hv" using r(2,3) True by (cases pre) auto
      moreover have "ring_walk (Suc fuel) s hv (Some a) = Inr (Some c)" using step True r(1) by simp
      ultimately show ?thesis using r Cons
        by (intro exI [of _ "a # pre"] exI [of _ c] exI [of _ post]) (simp del: ring_walk.simps)
    next
      case False
      then have "ring_walk (Suc fuel) s hv (Some a) = Inr (Some a)" using step by simp
      then show ?thesis using Cons Suc.prems(1) False
        by (intro exI [of _ "[]"] exI [of _ a] exI [of _ as]) (simp add: not_less del: ring_walk.simps)
    qed
  qed
qed simp

text \<open>The owner of a hash value: the first node of the ring with a bound at or above it, or the first node.\<close>

definition ring_owner :: "cluster_node list \<Rightarrow> u16 \<Rightarrow> cluster_node" where
  "ring_owner ring hv = (case find (\<lambda>c. hv \<le> cn_upper_bound c) ring of Some c \<Rightarrow> c | None \<Rightarrow> hd ring)"

lemma ring_owner_append:
  "\<forall>c \<in> set cs. cn_upper_bound c < hv \<Longrightarrow> hv \<le> cn_upper_bound c' \<Longrightarrow> ring_owner (cs @ c' # cs') hv = c'"
proof -
  assume "\<forall>c \<in> set cs. cn_upper_bound c < hv" and "hv \<le> cn_upper_bound c'"
  then have "find (\<lambda>c. hv \<le> cn_upper_bound c) (cs @ c' # cs') = Some c'" by (induction cs) auto
  then show ?thesis by (simp add: ring_owner_def)
qed

lemma ring_owner_none: "\<forall>c \<in> set cs. cn_upper_bound c < hv \<Longrightarrow> ring_owner cs hv = hd cs"
proof -
  assume "\<forall>c \<in> set cs. cn_upper_bound c < hv"
  then have "find (\<lambda>c. hv \<le> cn_upper_bound c) cs = None" by (auto simp: find_None_iff)
  then show ?thesis by (simp add: ring_owner_def)
qed

lemma cluster_get_node_spec:
  assumes ok: "ring_ok cl s as" and ne: "as \<noteq> []" and fuel: "length as < fuel"
  shows "\<exists>d. cluster_get_node fuel cl hv s = Inr (Some d) \<and> snd s d = Some (ring_owner (ring_view s as) hv)"
proof -
  obtain a as1 where as: "as = a # as1" using ne by (cases as) auto
  let ?l = "cl_nodes cl"
  have chain: "chain (fst s) (Some a) (a # as1)" and head: "l_head ?l = Some a" and live: "\<forall>x \<in> set (a # as1). live_node s x"
    and sorted: "\<forall>x \<in> set as1. bound_at s a \<le> bound_at s x"
    using ok as by (auto simp: ring_ok_def ring_le_def split: option.splits)
  have len: "l_len ?l = 1 \<longleftrightarrow> as1 = []"
  proof -
    have "unat (l_len ?l) = Suc (length as1)" using ok as by (simp add: ring_ok_def)
    moreover have "l_len ?l = 1 \<longleftrightarrow> unat (l_len ?l) = 1" by (simp add: word_unat_eq_iff)
    ultimately show ?thesis by simp
  qed
  have at: "\<exists>n d. deref_node (fst s) (Some x) = Inr n \<and> ln_data n = Some d \<and> read_node (snd s) (Some d) = Inr (node_at s x) \<and>
      snd s d = Some (node_at s x) \<and> fst s x = Some n" if "x \<in> set (a # as1)" for x
  proof -
    have "live_node s x" using live that by blast
    then show ?thesis by (auto elim!: live_nodeE simp: deref_node_def read_node_def obj_read_def)
  qed
  show ?thesis
  proof (cases "as1 = []")
    case True
    then show ?thesis using at [of a] head len as
      by (auto simp: cluster_get_node_def ring_view_def ring_owner_def)
  next
    case False
    obtain pre b post where w: "ring_walk fuel s hv (Some a) = Inr (Some b)" "a # as1 = pre @ b # post"
      "\<forall>x \<in> set (tl (pre @ [b])). bound_at s x < hv" "post \<noteq> [] \<longrightarrow> hv \<le> bound_at s (hd post)" "chain (fst s) (Some b) (b # post)"
      using ring_walk_spec [OF chain live, of fuel hv] fuel as by auto
    have b: "b \<in> set (a # as1)" using w(2) by (metis in_set_conv_decomp)
    obtain n d where n: "deref_node (fst s) (Some b) = Inr n" "ln_data n = Some d" "read_node (snd s) (Some d) = Inr (node_at s b)"
      "snd s d = Some (node_at s b)" "fst s b = Some n" using at [OF b] by blast
    have next_b: "chain (fst s) (ln_next n) post" using w(5) n(5) by simp
    have view: "ring_view s as = map (node_at s) (pre @ [b]) @ map (node_at s) post" using as w(2) by (simp add: ring_view_def)
    note get = cluster_get_node_def Let_def head len False w(1) n(1-3)
    show ?thesis
    proof (cases "bound_at s b < hv")
      case below: True
      have "bound_at s a < hv"
        using w(2) sorted below by (cases pre) (auto intro: le_less_trans)
      then have all: "\<forall>c \<in> set (map (node_at s) (pre @ [b])). cn_upper_bound c < hv"
        using w(2,3) below by (cases pre) (auto simp: bound_at_def)
      show ?thesis
      proof (cases post)
        case Nil
        have "ring_owner (ring_view s as) hv = node_at s a"
          using ring_owner_none [OF all] view Nil w(2) by (cases pre) auto
        then show ?thesis using at [of a] next_b Nil below by (auto simp: get bound_at_def)
      next
        case (Cons c post')
        have "ring_owner (ring_view s as) hv = node_at s c"
          using ring_owner_append [OF all, of "node_at s c"] view Cons w(4) by (simp add: bound_at_def)
        moreover have "c \<in> set (a # as1)" "ln_next n = Some c"
          using w(2) next_b Cons by (auto split: option.splits)
        ultimately show ?thesis using at [of c] below by (auto simp: get bound_at_def)
      qed
    next
      case False
      then have "pre = []" using w(3) by (cases pre) auto
      then have "ring_owner (ring_view s as) hv = node_at s b"
        using ring_owner_append [of "[]" hv "node_at s b"] view False by (simp add: bound_at_def not_less)
      then show ?thesis using n(4) False by (auto simp: get bound_at_def not_less)
    qed
  qed
qed

subsection \<open>Properties\<close>

lemma hash_bound: "unat (hash (Some s)) < RING_SIZE"
  by (simp add: hash_def Let_def RING_SIZE_def unat_of_nat take_bit_nat_eq_self)

lemma cluster_add_new_node_spec:
  assumes "ring_ok cl s as" and "alloc_ok alloc s" and "cl_replicas cl = int n" and "n < length alloc" and "n \<le> 1000"
    and "length addr \<le> 16" and "length port \<le> 5" and "length as + n + 2 < fuel" and "length as + n + 1 < 2 ^ 64 - 1"
    and "0 \<le> cl_size cl" and "cl_size cl + 1 < INT_MAX"
  shows "\<exists>cl' s' as'. cluster_add_new_node fuel cl fd addr port self alloc s = Inr (cl', s', 0) \<and>
    ring_ok cl' s' as' \<and> length as' = length as + n + 1 \<and> grown alloc s s' \<and>
    cl_replicas cl' = cl_replicas cl \<and> cl_size cl' = cl_size cl + 1 \<and>
    mset (ring_view s' as') = mset (ring_view s as) + {# ring_node fd addr port self (addr @ port) False #} +
      mset (map (\<lambda>i. ring_node fd addr port self (sprintf_d (int i) @ addr @ port) True) [0..<n])"
proof -
  obtain new alloc' where al: "alloc = new # alloc'" using assms(4) by (cases alloc) auto
  obtain cl1 s1 as1 where a: "add_ring_node fuel cl fd addr port self (addr @ port) False new s = Inr (cl1, s1)" "ring_ok cl1 s1 as1"
    "length as1 = length as + 1" "alloc_ok alloc' s1"
    "mset (ring_view s1 as1) = add_mset (ring_node fd addr port self (addr @ port) False) (mset (ring_view s as))"
    "cl_replicas cl1 = cl_replicas cl" "cl_size cl1 = cl_size cl + 1" "grown [new] s s1"
    using add_ring_node_spec [OF assms(1) assms(2) [unfolded al] assms(6,7), of fuel fd self "addr @ port" False] assms(8-11) by auto
  have "\<exists>cl' s' as'. add_vnodes fuel n cl1 fd addr port self alloc' s1 = Inr (cl', s', 0) \<and>
    ring_ok cl' s' as' \<and> length as' = length as1 + n \<and> cl_size cl' = cl_size cl1 \<and>
    cl_replicas cl' = cl_replicas cl1 \<and> grown alloc' s1 s' \<and>
    mset (ring_view s' as') = mset (ring_view s1 as1) +
      mset (map (\<lambda>i. ring_node fd addr port self (sprintf_d (int i) @ addr @ port) True) [0..<n])"
    using assms(4-11) a(3,7) al by (intro add_vnodes_spec [OF a(2,4)]) simp_all
  moreover have "str_fits 30 (addr @ port) = Inr (addr @ port)" using assms(6,7) by (simp add: str_fits_def)
  ultimately show ?thesis using a al assms(3) grown_Cons [OF a(8)] by (fastforce simp: cluster_add_new_node_def)
qed

text \<open>
  C38. \<^verbatim>\<open>cluster_add_new_node\<close> puts a node and its replicas on the ring: for an address of at most 16 and
  a port of at most 5 bytes it returns 0, the ring holds what it held before, the real node and one
  virtual node for each replica, each at the hash of its prefixed address, and it is sorted by upper
  bound again; the size counts the real node only.
\<close>

theorem cluster_add_new_node_correct:
  assumes "ring_ok cl s as" and "alloc_ok alloc s" and "cl_replicas cl = int n" and "n < length alloc" and "n \<le> 1000"
    and "length addr \<le> 16" and "length port \<le> 5" and "length as + n + 2 < fuel" and "length as + n + 1 < 2 ^ 64 - 1"
    and "0 \<le> cl_size cl" and "cl_size cl + 1 < INT_MAX"
  shows "\<exists>cl' s' as'. cluster_add_new_node fuel cl fd addr port self alloc s = Inr (cl', s', 0) \<and>
    ring_ok cl' s' as' \<and> cl_size cl' = cl_size cl + 1 \<and>
    mset (ring_view s' as') = mset (ring_view s as) + {# ring_node fd addr port self (addr @ port) False #} +
      mset (map (\<lambda>i. ring_node fd addr port self (sprintf_d (int i) @ addr @ port) True) [0..<n])"
  using cluster_add_new_node_spec [OF assms, of fd self] by blast

definition empty_cluster :: "nat \<Rightarrow> cluster" where
  "empty_cluster n = \<lparr> cl_size = 0, cl_replicas = int n, cl_nodes = list_new None \<rparr>"

lemma empty_cluster_ok: "ring_ok (empty_cluster n) (Map.empty, Map.empty) []"
  by (simp add: ring_ok_def empty_cluster_def list_new_def)

theorem cluster_add_new_node_correct_witness:
  "\<exists>cl' s' as'. cluster_add_new_node 5 (empty_cluster 1) 7 (lit ''127.0.0.1'') (lit ''9090'') True [(1, 2), (3, 4)] (Map.empty, Map.empty) = Inr (cl', s', 0) \<and>
     ring_ok cl' s' as' \<and> cl_size cl' = 1"
  using cluster_add_new_node_correct [OF empty_cluster_ok, of "[(1, 2), (3, 4)]" 1 1 "lit ''127.0.0.1''" "lit ''9090''" 5 7 True]
  by (auto simp: empty_cluster_def alloc_ok_def INT_MAX_def lit_def)

text \<open>
  C39. \<^verbatim>\<open>cluster_get_node\<close> implements consistent hashing: on a sorted ring it returns the first node
  whose upper bound is at or above the hash value, and the first node of the ring when the value is
  past every bound.
\<close>

theorem cluster_get_node_correct:
  assumes "ring_ok cl s as" and "as \<noteq> []" and "length as < fuel"
  shows "\<exists>d. cluster_get_node fuel cl hash_value s = Inr (Some d) \<and>
    snd s d = Some (ring_owner (ring_view s as) hash_value)"
  by (rule cluster_get_node_spec [OF assms])

definition sample_node :: "u16 \<Rightarrow> cluster_node" where
  "sample_node b = \<lparr> cn_self = False, cn_vnode = False, cn_fd = 0, cn_upper_bound = b, cn_host = [], cn_port = [] \<rparr>"

definition sample_ring :: ring_heap where
  "sample_ring = ([1 \<mapsto> \<lparr> ln_data = Some 10, ln_next = Some 2 \<rparr>, 2 \<mapsto> \<lparr> ln_data = Some 20, ln_next = None \<rparr>],
     [10 \<mapsto> sample_node 100, 20 \<mapsto> sample_node 3000])"

definition sample_cluster :: cluster where
  "sample_cluster = \<lparr> cl_size = 2, cl_replicas = 0,
     cl_nodes = \<lparr> l_head = Some 1, l_tail = Some 2, l_len = 2, l_destructor = None \<rparr> \<rparr>"

theorem cluster_get_node_correct_witness:
  "\<exists>d. cluster_get_node 3 sample_cluster 2000 sample_ring = Inr (Some d) \<and> snd sample_ring d = Some (sample_node 3000)"
proof -
  have "ring_ok sample_cluster sample_ring [1, 2]"
    by (simp add: ring_ok_def sample_cluster_def sample_ring_def live_node_def ring_le_def bound_at_def node_at_def data_of_def sample_node_def)
  moreover have "ring_owner (ring_view sample_ring [1, 2]) 2000 = sample_node 3000"
    by (simp add: ring_owner_def ring_view_def node_at_def sample_ring_def sample_node_def)
  ultimately show ?thesis using cluster_get_node_correct [of sample_cluster sample_ring "[1, 2]" 3 2000] by simp
qed

end
