(* ===== verification/Tdb_Network.thy ===== *)
theory Tdb_Network
  imports Tdb_Prelude
begin

text \<open>
  The two transfer loops of \<^verbatim>\<open>src/network.c\<close>. What the kernel answers to \<^verbatim>\<open>read\<close> and \<^verbatim>\<open>write\<close> is an
  argument: a list of outcomes, and \<^verbatim>\<open>EAGAIN\<close> when it is used up. A \<^verbatim>\<open>read\<close> never returns more than it
  was asked for; the rest of a chunk stays for the next one.
\<close>

datatype io_result = IoBytes bytes | IoAgain | IoError

fun sys_read :: "nat \<Rightarrow> io_result list \<Rightarrow> io_result \<times> io_result list" where
  "sys_read n [] = (IoAgain, [])"
| "sys_read n (IoBytes bs # sk) =
     (if length bs \<le> n then (IoBytes bs, sk) else (IoBytes (take n bs), IoBytes (drop n bs) # sk))"
| "sys_read n (r # sk) = (r, sk)"

text \<open>
  \<^verbatim>\<open>recv_bytes\<close>: the return value, the bytes stored from the start of the buffer and the socket. An end
  of file is a \<^verbatim>\<open>read\<close> of no bytes.
\<close>

function recv_loop :: "nat \<Rightarrow> bytes \<Rightarrow> io_result list \<Rightarrow> int \<times> bytes \<times> io_result list" where
  "recv_loop bufsize acc sk =
     (if length acc < bufsize then
        (case sys_read (bufsize - length acc) sk of
           (IoAgain, sk') \<Rightarrow> (int (length acc), acc, sk')
         | (IoError, sk') \<Rightarrow> (- 1, acc, sk')
         | (IoBytes bs, sk') \<Rightarrow> if bs = [] then (0, acc, sk') else recv_loop bufsize (acc @ bs) sk')
      else (int (length acc), acc, sk))"
  by pat_completeness auto
termination
  by (relation "measure (\<lambda>(bufsize, acc, sk). bufsize - length acc)") (auto intro!: diff_less_mono2)

declare recv_loop.simps [simp del]

definition recv_bytes :: "nat \<Rightarrow> io_result list \<Rightarrow> int \<times> bytes \<times> io_result list" where
  "recv_bytes bufsize sk = recv_loop bufsize [] sk"

datatype write_result = Wrote nat | WriteAgain | WriteError

text \<open>\<^verbatim>\<open>send_bytes\<close>: the return value and the bytes the kernel took; a \<^verbatim>\<open>write\<close> takes at most what is left.\<close>

fun send_loop :: "bytes \<Rightarrow> nat \<Rightarrow> write_result list \<Rightarrow> int \<times> bytes" where
  "send_loop buf sent [] = (int sent, take sent buf)"
| "send_loop buf sent (w # ws) =
     (if sent < length buf then
        (case w of
           WriteAgain \<Rightarrow> (int sent, take sent buf)
         | WriteError \<Rightarrow> (- 1, take sent buf)
         | Wrote n \<Rightarrow> send_loop buf (sent + min n (length buf - sent)) ws)
      else (int sent, take sent buf))"

definition send_bytes :: "bytes \<Rightarrow> write_result list \<Rightarrow> int \<times> bytes" where
  "send_bytes buf ws = send_loop buf 0 ws"

subsection \<open>What is transferred\<close>

text \<open>The bytes a socket will deliver before anything else happens.\<close>

fun pending :: "io_result list \<Rightarrow> bytes" where
  "pending (IoBytes bs # sk) = (if bs = [] then [] else bs @ pending sk)"
| "pending sk = []"

lemma recv_loop_pending:
  assumes "\<forall>r \<in> set sk. \<exists>bs. r = IoBytes bs \<and> bs \<noteq> []" and "length acc \<le> bufsize"
  shows "\<exists>sk'. recv_loop bufsize acc sk = (int (length (acc @ take (bufsize - length acc) (pending sk))),
      acc @ take (bufsize - length acc) (pending sk), sk') \<and>
    pending sk' = drop (bufsize - length acc) (pending sk) \<and> (\<forall>r \<in> set sk'. \<exists>bs. r = IoBytes bs \<and> bs \<noteq> [])"
  using assms
proof (induction sk arbitrary: acc)
  case Nil
  then show ?case by (subst recv_loop.simps) simp
next
  case (Cons r sk)
  then obtain bs where r: "r = IoBytes bs" "bs \<noteq> []" by auto
  let ?n = "bufsize - length acc"
  consider "?n = 0" | "0 < ?n" "length bs \<le> ?n" | "0 < ?n" "?n < length bs" by linarith
  then show ?case
  proof cases
    case 1
    then show ?thesis using r Cons.prems by (subst recv_loop.simps) (auto intro!: exI [of _ "r # sk"])
  next
    case 2
    then have "recv_loop bufsize acc (r # sk) = recv_loop bufsize (acc @ bs) sk"
      using r by (subst recv_loop.simps) simp
    then show ?thesis using Cons.IH [of "acc @ bs"] Cons.prems 2 r by (simp add: diff_diff_left)
  next
    case 3
    let ?sk = "IoBytes (drop ?n bs) # sk"
    have "recv_loop bufsize acc (r # sk) = recv_loop bufsize (acc @ take ?n bs) ?sk"
      using 3 r by (subst recv_loop.simps) simp
    also have "\<dots> = (int (length (acc @ take ?n bs)), acc @ take ?n bs, ?sk)"
      using 3 by (subst recv_loop.simps) simp
    finally show ?thesis using 3 r Cons.prems by (auto intro!: exI [of _ ?sk])
  qed
qed

lemma recv_bytes_pending:
  assumes "\<forall>r \<in> set sk. \<exists>bs. r = IoBytes bs \<and> bs \<noteq> []"
  shows "\<exists>sk'. recv_bytes n sk = (int (length (take n (pending sk))), take n (pending sk), sk') \<and>
    pending sk' = drop n (pending sk) \<and> (\<forall>r \<in> set sk'. \<exists>bs. r = IoBytes bs \<and> bs \<noteq> [])"
  using recv_loop_pending [OF assms, of "[]" n] by (simp add: recv_bytes_def)

lemma send_loop_prefix:
  "sent \<le> length buf \<Longrightarrow> send_loop buf sent ws = (n, out) \<Longrightarrow>
     (\<exists>m. sent \<le> m \<and> m \<le> length buf \<and> out = take m buf \<and> (n = int m \<or> n = - 1))"
proof (induction buf sent ws rule: send_loop.induct)
  case (1 buf sent)
  then show ?case by (intro exI [of _ sent]) simp
next
  case (2 buf sent w ws)
  show ?case
  proof (cases "sent < length buf \<and> (\<exists>k. w = Wrote k)")
    case True
    then obtain k where k: "sent < length buf" "w = Wrote k" by blast
    let ?t = "sent + min k (length buf - sent)"
    have "?t \<le> length buf" "send_loop buf ?t ws = (n, out)" using k "2.prems" by simp_all
    from "2.IH" [OF k this] obtain m where "?t \<le> m" "m \<le> length buf" "out = take m buf" "n = int m \<or> n = - 1"
      by blast
    then show ?thesis by (intro exI [of _ m]) simp
  next
    case False
    then show ?thesis using "2.prems"
      by (intro exI [of _ sent]) (auto split: if_splits write_result.splits)
  qed
qed

end
