(* ===== verification/Tdb_Server.thy ===== *)
theory Tdb_Server
  imports Tdb_Protocol Tdb_Cluster Tdb_Network
begin

text \<open>
  The command handlers of \<^verbatim>\<open>src/server.c\<close> and what surrounds them: the state of the server, reading a
  packet from a socket, the dispatch of a request to its handler, the reply, and the routine that
  removes expired keys. The objects other objects point to (clients, databases, items, expiring keys)
  are cells of heaps; a pointer to a released cell is a fault when it is followed. What the kernel and
  the C library provide (the time, the addresses of new objects, the memory available, the uuid and
  the descriptor of a connection) are fields of an environment.
\<close>

subsection \<open>State\<close>

record client =
  c_fd :: int
  c_last_action_time :: u64
  c_uuid :: cstring
  c_db :: "addr option"

text \<open>
  \<open>ek_data_ptr\<close> is the database that owns the trie the key is in: every database has one trie and never
  replaces it.
\<close>

record expiring_key =
  ek_data_ptr :: addr
  ek_item :: addr
  ek_key :: cstring

record triedb =
  tr_clients :: "(addr, client heap) HashTable"
  tr_dbs :: "(addr, database heap \<times> db_item heap) HashTable"
  tr_expiring_keys :: "addr Vector"
  tr_keyspace_size :: u64
  tr_client_heap :: "client heap"
  tr_db_heap :: "database heap"
  tr_items :: "db_item heap"
  tr_eks :: "expiring_key heap"
  tr_info :: informations
  tr_conf :: config
  tr_closed :: "int list"

text \<open>
  What a handler reads from outside: the times \<^verbatim>\<open>time(NULL)\<close> returns, to the database layer, to the
  handler and for each item written by a walk, the addresses of new objects, and bounds on the stack
  and on the memory.
\<close>

record env =
  en_time :: int
  en_now :: int
  en_clk :: "addr \<Rightarrow> int"
  en_item :: addr
  en_db :: addr
  en_ek :: addr
  en_depth :: nat
  en_calloc_max :: nat
  en_fuel :: nat

definition ERRCLIENTDC :: int where "ERRCLIENTDC = 1"
definition ERRPACKETERR :: int where "ERRPACKETERR = 2"
definition ERRMAXREQSIZE :: int where "ERRMAXREQSIZE = 3"

text \<open>The pre-packed replies \<^verbatim>\<open>ack_replies\<close>, filled by \<^verbatim>\<open>start_server\<close>.\<close>

definition ack_replies :: "byte \<Rightarrow> bstring cres" where
  "ack_replies rc = pack_ack 0 rc"

definition ack_reply :: "byte \<Rightarrow> triedb \<Rightarrow> (int \<times> bstring option \<times> triedb) cres" where
  "ack_reply rc s = bindE (ack_replies rc) (\<lambda>r. Inr (0, Some r, s))"

text \<open>The database of a client: \<^verbatim>\<open>event->client->db\<close>, followed.\<close>

definition client_db :: "triedb \<Rightarrow> addr \<Rightarrow> (addr \<times> database) cres" where
  "client_db s c =
     bindE (obj_read (tr_client_heap s) c) (\<lambda>cl.
       case c_db cl of
         None \<Rightarrow> Inl NullDeref
       | Some d \<Rightarrow> bindE (obj_read (tr_db_heap s) d) (\<lambda>db. Inr (d, db)))"

text \<open>
  The key of the variant \<^verbatim>\<open>get\<close> of a request (\<^verbatim>\<open>incr\<close> and \<^verbatim>\<open>usec\<close> are the same structure), read as a C
  string; another variant is memory of another type.
\<close>

definition get_key :: "triedb_request \<Rightarrow> cstring cres" where
  "get_key pkt = (case pkt of ReqGet hdr key \<Rightarrow> Inr (c_string key) | _ \<Rightarrow> Inl OutOfBounds)"

subsection \<open>Command handlers\<close>

text \<open>
  A handler yields its return code, the reply it stored in the event, \<open>None\<close> where it leaves the field
  as \<^verbatim>\<open>tmalloc\<close> provided it, and the state.
\<close>

type_synonym handler = "env \<Rightarrow> addr \<Rightarrow> triedb_request \<Rightarrow> triedb \<Rightarrow> (int \<times> bstring option \<times> triedb) cres"

definition db_handler :: handler where
  "db_handler en c pkt s =
     bindE (client_db s c) (\<lambda>(d, db). bindE (bstring_new (Some (db_name db))) (\<lambda>r. Inr (0, r, s)))"

definition put_handler :: handler where
  "put_handler en c pkt s =
     (case pkt of
        ReqPut hdr ttl keylen key val \<Rightarrow>
          bindE (client_db s c) (\<lambda>(d, db).
          bindE (if hdr_prefix hdr then
                   bindE (database_prefix_set db (c_string key) (c_string val) (c_short ttl) (en_clk en) (tr_items s))
                     (\<lambda>items. Inr (s\<lparr> tr_items := items \<rparr>))
                 else
                   bindE (database_insert db (c_string key) (Some (c_string val)) (c_short ttl) (en_time en)
                            (en_item en) (tr_items s))
                     (\<lambda>(db', items). Inr (s\<lparr> tr_db_heap := (tr_db_heap s)(d \<mapsto> db'), tr_items := items,
                                              tr_keyspace_size := tr_keyspace_size s + 1 \<rparr>)))
            (\<lambda>s'. ack_reply OK s'))
      | _ \<Rightarrow> Inl OutOfBounds)"

lemma vector_delete_size: "vector_delete v i = Inr v' \<Longrightarrow> v_size v' \<le> v_size v"
  by (auto simp: vector_delete_def vector_resize_def Let_def split: if_splits)

text \<open>
  The linear search for the expiring key of an item, which is then taken out of the vector and
  released, in \<^verbatim>\<open>get_handler\<close> twice.
\<close>

function drop_expiring :: "addr \<Rightarrow> nat \<Rightarrow> triedb \<Rightarrow> triedb cres" where
  "drop_expiring item i s =
     (if i < vector_size (tr_expiring_keys s) then
        bindE (vector_get (tr_expiring_keys s) (int i)) (\<lambda>p.
          case p of
            None \<Rightarrow> Inl NullDeref
          | Some e \<Rightarrow>
              bindE (obj_read (tr_eks s) e) (\<lambda>ek.
                if ek_item ek = item then
                  bindE (vector_delete (tr_expiring_keys s) (int i)) (\<lambda>v.
                  bindE (obj_free (tr_eks s) e) (\<lambda>eks.
                    Inr (s\<lparr> tr_expiring_keys := v, tr_eks := eks \<rparr>)))
                else drop_expiring item (i + 1) s))
      else Inr s)"
  by pat_completeness auto
termination
  by (relation "measure (\<lambda>(item, i, s). vector_size (tr_expiring_keys s) - i)") auto

declare drop_expiring.simps [simp del]

text \<open>What the expired state does: the removal of the key of the request and of the expiring key.\<close>

definition drop_expired :: "addr \<Rightarrow> cstring \<Rightarrow> addr \<Rightarrow> triedb \<Rightarrow> triedb cres" where
  "drop_expired d key item s =
     bindE (obj_read (tr_db_heap s) d) (\<lambda>db.
     bindE (database_remove db key (tr_items s)) (\<lambda>(found, db', items).
     bindE (drop_expiring item 0 (s\<lparr> tr_db_heap := (tr_db_heap s)(d \<mapsto> db'), tr_items := items \<rparr>)) (\<lambda>s'.
       Inr (s'\<lparr> tr_keyspace_size := tr_keyspace_size s' - 1 \<rparr>))))"

text \<open>The loop of \<^verbatim>\<open>get_handler\<close> over the keys found below a prefix.\<close>

function get_loop :: "int \<Rightarrow> addr \<Rightarrow> cstring \<Rightarrow> nat \<Rightarrow> kv_obj Vector \<Rightarrow> triedb \<Rightarrow> (kv_obj Vector \<times> triedb) cres" where
  "get_loop now d key i v s =
     (if i < vector_size v then
        bindE (vector_get v (int i)) (\<lambda>p.
          case p of
            None \<Rightarrow> Inl NullDeref
          | Some (k, a) \<Rightarrow>
              bindE (obj_read (tr_items s) a) (\<lambda>item.
                if di_ttl item \<noteq> -1 \<and> di_ctime item + di_ttl item - now \<le> 0 then
                  bindE (drop_expired d key a s) (\<lambda>s'.
                  bindE (vector_delete v (int i)) (\<lambda>v'. get_loop now d key (i + 1) v' s'))
                else get_loop now d key (i + 1) v s))
      else Inr (v, s))"
  by pat_completeness auto
termination
  by (relation "measure (\<lambda>(now, d, key, i, v, s). vector_size v - i)")
     (auto simp: vector_size_def dest: vector_delete_size)

declare get_loop.simps [simp del]

text \<open>The reply of \<^verbatim>\<open>get_handler\<close> for one key and for a prefix, and the handler that chooses between them.\<close>

definition get_single :: "env \<Rightarrow> addr \<Rightarrow> database \<Rightarrow> byte \<Rightarrow> cstring \<Rightarrow> triedb \<Rightarrow> (int \<times> bstring option \<times> triedb) cres" where
  "get_single en d db hdr key s =
     bindE (database_search db key (en_time en) (tr_items s)) (\<lambda>found.
       case found of
         None \<Rightarrow> ack_reply NOK s
       | Some a \<Rightarrow>
           bindE (obj_read (tr_items s) a) (\<lambda>item.
             if di_ttl item \<noteq> -1 \<and> di_ctime item + di_ttl item - en_now en \<le> 0 then
               bindE (drop_expired d key a s) (\<lambda>s'. ack_reply NOK s')
             else
               bindE (get_response hdr
                        (ArgTuple \<lparr> tp_ttl = di_ttl item, tp_keylen = of_nat (length key), tp_key = key,
                                    tp_val = di_data item \<rparr>) (tr_items s)) (\<lambda>res.
               bindE (pack_response res (hdr_opcode hdr)) (\<lambda>r. Inr (0, Some r, s)))))"

definition get_prefix :: "env \<Rightarrow> addr \<Rightarrow> database \<Rightarrow> byte \<Rightarrow> cstring \<Rightarrow> triedb \<Rightarrow> (int \<times> bstring option \<times> triedb) cres" where
  "get_prefix en d db hdr key s =
     bindE (database_prefix_search db key) (\<lambda>found.
       case found of
         None \<Rightarrow> Inl NullDeref
       | Some v \<Rightarrow>
           bindE (get_loop (en_now en) d key 0 v s) (\<lambda>(v', s').
           bindE (get_response hdr (ArgVector v') (tr_items s')) (\<lambda>res.
           bindE (pack_response res (hdr_opcode hdr)) (\<lambda>r. Inr (0, Some r, s')))))"

definition get_handler :: handler where
  "get_handler en c pkt s =
     bindE (get_key pkt) (\<lambda>key.
     bindE (client_db s c) (\<lambda>(d, db).
       if \<not> hdr_prefix (rq_header pkt) then get_single en d db (rq_header pkt) key s
       else get_prefix en d db (rq_header pkt) key s))"

lemmas get_defs = get_handler_def get_single_def get_prefix_def

definition del_handler :: handler where
  "del_handler en c pkt s =
     bindE (get_key pkt) (\<lambda>key.
     bindE (client_db s c) (\<lambda>(d, db).
       if hdr_prefix (rq_header pkt) then
         bindE (database_prefix_remove db key (tr_items s)) (\<lambda>(db', items).
           ack_reply OK (s\<lparr> tr_db_heap := (tr_db_heap s)(d \<mapsto> db'), tr_items := items,
             tr_keyspace_size := tr_keyspace_size s - (database_size db - database_size db') \<rparr>))
       else
         bindE (database_remove db key (tr_items s)) (\<lambda>(found, db', items).
           let s' = s\<lparr> tr_db_heap := (tr_db_heap s)(d \<mapsto> db'), tr_items := items \<rparr>
           in if \<not> found then ack_reply NOK s'
              else ack_reply OK (s'\<lparr> tr_keyspace_size := tr_keyspace_size s' - 1 \<rparr>))))"

text \<open>
  \<^verbatim>\<open>compare_ttl\<close>, on the contents of two expiring keys. The partition compares every expiring key, so a
  released item among two or more of them is a fault (\<open>ek_items_alive\<close>); the value given here to the
  deadline of a released item is never used.
\<close>

definition ek_deadline :: "db_item heap \<Rightarrow> expiring_key \<Rightarrow> int" where
  "ek_deadline items ek = (case items (ek_item ek) of None \<Rightarrow> 0 | Some item \<Rightarrow> di_ctime item + di_ttl item)"

definition compare_ttl :: "int \<Rightarrow> db_item heap \<Rightarrow> expiring_key \<Rightarrow> expiring_key \<Rightarrow> bool" where
  "compare_ttl now items ek1 ek2 =
     (let delta_l1 = ek_deadline items ek1 - now; delta_l2 = ek_deadline items ek2 - now
      in delta_l1 \<le> delta_l2)"

definition ek_items_alive :: "addr Vector \<Rightarrow> expiring_key heap \<Rightarrow> db_item heap \<Rightarrow> unit cres" where
  "ek_items_alive v eks items =
     (if v_size v < 2 then Inr ()
      else foldE (\<lambda>_ i. bindE (vector_slot v (int i)) (\<lambda>e. bindE (obj_read eks e) (\<lambda>ek.
             bindE (obj_read items (ek_item ek)) (\<lambda>_. Inr ())))) () [0..<v_size v])"

definition ttl_handler :: handler where
  "ttl_handler en c pkt s =
     (case pkt of
        ReqTtl hdr ttl key0 \<Rightarrow>
          let key = c_string key0 in
          bindE (client_db s c) (\<lambda>(d, db).
          bindE (trie_find (db_data db) key) (\<lambda>found.
            case found of
              None \<Rightarrow> ack_reply NOK s
            | Some a \<Rightarrow>
                bindE (obj_read (tr_items s) a) (\<lambda>item.
                  let has_ttl = \<not> di_ttl item < 0;
                      items = (tr_items s)(a \<mapsto> item\<lparr> di_ttl := c_short ttl, di_ctime := en_now en,
                                                       di_lstime := en_now en \<rparr>);
                      eks = (tr_eks s)(en_ek en \<mapsto> \<lparr> ek_data_ptr = d, ek_item = a, ek_key = key \<rparr>)
                  in bindE (if has_ttl then Inr (tr_expiring_keys s)
                            else vector_append (tr_expiring_keys s) (en_ek en)) (\<lambda>v.
                     bindE (ek_items_alive v eks items) (\<lambda>_.
                     bindE (vector_qsort (en_depth en) v (compare_ttl (en_now en) items) eks) (\<lambda>eks'.
                       ack_reply OK (s\<lparr> tr_items := items, tr_eks := eks', tr_expiring_keys := v \<rparr>)))))))
      | _ \<Rightarrow> Inl OutOfBounds)"

text \<open>
  \<^verbatim>\<open>inc_handler\<close> and \<^verbatim>\<open>dec_handler\<close> differ in the walk and in the number added. Both store a NOK when
  the key is missing or is no integer, and overwrite it with OK before they return.
\<close>

definition item_add :: "int \<Rightarrow> cstring \<Rightarrow> int \<Rightarrow> database \<Rightarrow> db_item heap \<Rightarrow> db_item heap cres" where
  "item_add n key time db items =
     bindE (database_search db key time items) (\<lambda>found.
       case found of
         None \<Rightarrow> Inr items
       | Some a \<Rightarrow>
           bindE (obj_read items a) (\<lambda>item.
             case di_data item of
               None \<Rightarrow> Inl NullDeref
             | Some data \<Rightarrow>
                 if is_integer data then
                   bindE (update_integer_string data n) (\<lambda>data'.
                     obj_write items a (item\<lparr> di_data := Some data' \<rparr>))
                 else Inr items))"

definition inc_handler :: handler where
  "inc_handler en c pkt s =
     bindE (get_key pkt) (\<lambda>key.
     bindE (client_db s c) (\<lambda>(d, db).
     bindE (if hdr_prefix (rq_header pkt) then database_prefix_inc db key (en_clk en) (tr_items s)
            else item_add 1 key (en_time en) db (tr_items s)) (\<lambda>items.
       ack_reply OK (s\<lparr> tr_items := items \<rparr>))))"

definition dec_handler :: handler where
  "dec_handler en c pkt s =
     bindE (get_key pkt) (\<lambda>key.
     bindE (client_db s c) (\<lambda>(d, db).
     bindE (if hdr_prefix (rq_header pkt) then database_prefix_dec db key (en_clk en) (tr_items s)
            else item_add (- 1) key (en_time en) db (tr_items s)) (\<lambda>items.
       ack_reply OK (s\<lparr> tr_items := items \<rparr>))))"

definition cnt_handler :: handler where
  "cnt_handler en c pkt s =
     (case pkt of
        ReqCnt hdr prefix \<Rightarrow>
          bindE (client_db s c) (\<lambda>(d, db).
          bindE (case prefix of
                   None \<Rightarrow> Inr (database_size db)
                 | Some key \<Rightarrow> bindE (database_prefix_count db (c_string key)) (\<lambda>n. Inr (scast n))) (\<lambda>count.
          bindE (pack_cnt 7 count) (\<lambda>r. Inr (0, Some r, s))))
      | _ \<Rightarrow> Inl OutOfBounds)"

definition use_handler :: handler where
  "use_handler en c pkt s =
     bindE (get_key pkt) (\<lambda>key.
     bindE (obj_read (tr_client_heap s) c) (\<lambda>cl.
     bindE (hashtable_get (tr_dbs s) key) (\<lambda>found.
       case found of
         None \<Rightarrow>
           bindE (hashtable_put (en_calloc_max en) (en_fuel en) (tr_dbs s) key (Some (en_db en))) (\<lambda>(dbs, status).
             ack_reply OK (s\<lparr> tr_dbs := dbs,
               tr_db_heap := (tr_db_heap s)(en_db en \<mapsto> database_init key (Some trie_node_destructor)),
               tr_client_heap := (tr_client_heap s)(c \<mapsto> cl\<lparr> c_db := Some (en_db en) \<rparr>) \<rparr>))
       | Some d \<Rightarrow>
           ack_reply OK (s\<lparr> tr_client_heap := (tr_client_heap s)(c \<mapsto> cl\<lparr> c_db := Some d \<rparr>) \<rparr>))))"

definition keys_handler :: handler where
  "keys_handler en c pkt s =
     bindE (get_key pkt) (\<lambda>key.
     bindE (client_db s c) (\<lambda>(d, db).
     bindE (database_prefix_search db key) (\<lambda>found.
       case found of
         None \<Rightarrow> ack_reply NOK s
       | Some v \<Rightarrow>
           bindE (get_response (rq_header pkt) (ArgVector v) (tr_items s)) (\<lambda>res.
           bindE (pack_response res (hdr_opcode (rq_header pkt))) (\<lambda>r. Inr (0, Some r, s))))))"

definition ping_handler :: handler where
  "ping_handler en c pkt s = ack_reply OK s"

definition quit_handler :: handler where
  "quit_handler en c pkt s =
     bindE (obj_read (tr_client_heap s) c) (\<lambda>cl.
     bindE (hashtable_del (tr_clients s) (c_uuid cl) (tr_client_heap s)) (\<lambda>(clients, status, heap).
       Inr (- 1, None, s\<lparr> tr_clients := clients, tr_client_heap := heap,
         tr_closed := tr_closed s @ [c_fd cl], tr_info := (tr_info s)\<lparr> nclients := nclients (tr_info s) - 1 \<rparr> \<rparr>)))"

definition info_handler :: handler where
  "info_handler en c pkt s = bindE (pack_info (tr_conf s) (tr_info s)) (\<lambda>r. Inr (0, Some r, s))"

definition flush_handler :: handler where
  "flush_handler en c pkt s =
     bindE (client_db s c) (\<lambda>(d, db).
     bindE (database_flush db (tr_items s)) (\<lambda>(db', items).
       Inr (0, None, s\<lparr> tr_db_heap := (tr_db_heap s)(d \<mapsto> db'), tr_items := items \<rparr>)))"

definition handlers :: "handler option list" where
  "handlers =
     [None, Some put_handler, Some get_handler, Some del_handler, Some ttl_handler, Some inc_handler,
      Some dec_handler, Some cnt_handler, Some use_handler, Some keys_handler, Some ping_handler,
      Some quit_handler, Some db_handler, Some info_handler, Some flush_handler]"

subsection \<open>Destructors\<close>

definition client_destructor :: "addr hashtable_entry \<Rightarrow> client heap \<Rightarrow> (int \<times> client heap) cres" where
  "client_destructor entry h =
     (case he_val entry of
        None \<Rightarrow> Inr (- HASHTABLE_ERR, h)
      | Some a \<Rightarrow> bindE (obj_free h a) (\<lambda>h'. Inr (HASHTABLE_OK, h')))"

definition database_destructor ::
    "addr hashtable_entry \<Rightarrow> database heap \<times> db_item heap \<Rightarrow> (int \<times> database heap \<times> db_item heap) cres" where
  "database_destructor entry h =
     (case he_val entry of
        None \<Rightarrow> Inl NullDeref
      | Some d \<Rightarrow>
          bindE (obj_read (fst h) d) (\<lambda>db.
          bindE (trie_destroy (db_data db) (snd h)) (\<lambda>items.
          bindE (obj_free (fst h) d) (\<lambda>dbs. Inr (HASHTABLE_OK, dbs, items)))))"

definition expiring_keys_destructor :: "addr option \<Rightarrow> expiring_key heap \<Rightarrow> expiring_key heap cres" where
  "expiring_keys_destructor item h = (case item of None \<Rightarrow> Inr h | Some e \<Rightarrow> obj_free h e)"

subsection \<open>Expiration\<close>

text \<open>\<^verbatim>\<open>expire_keys\<close>: its loop goes on to the next index also after a removal moved the keys down.\<close>

function expire_loop :: "int \<Rightarrow> nat \<Rightarrow> triedb \<Rightarrow> triedb cres" where
  "expire_loop now i s =
     (if i < vector_size (tr_expiring_keys s) then
        bindE (vector_slot (tr_expiring_keys s) (int i)) (\<lambda>e.
        bindE (obj_read (tr_eks s) e) (\<lambda>ek.
        bindE (obj_read (tr_items s) (ek_item ek)) (\<lambda>item.
          if di_ctime item + di_ttl item - now > 0 then Inr s
          else
            bindE (obj_read (tr_db_heap s) (ek_data_ptr ek)) (\<lambda>db.
            bindE (trie_delete (db_data db) (ek_key ek) (tr_items s)) (\<lambda>(found, trie, items).
            bindE (vector_delete (tr_expiring_keys s) (int i)) (\<lambda>v.
            bindE (obj_free (tr_eks s) e) (\<lambda>eks.
              expire_loop now (i + 1)
                (s\<lparr> tr_db_heap := (tr_db_heap s)(ek_data_ptr ek \<mapsto> db\<lparr> db_data := trie \<rparr>), tr_items := items,
                    tr_expiring_keys := v, tr_eks := eks, tr_keyspace_size := tr_keyspace_size s - 1 \<rparr>))))))))
      else Inr s)"
  by pat_completeness auto
termination
  by (relation "measure (\<lambda>(now, i, s). v_size (tr_expiring_keys s) - i)")
     (auto simp: vector_size_def dest: vector_delete_size)

declare expire_loop.simps [simp del]

definition expire_keys :: "int \<Rightarrow> triedb \<Rightarrow> triedb cres" where
  "expire_keys now s = (if vector_size (tr_expiring_keys s) = 0 then Inr s else expire_loop now 0 s)"

subsection \<open>Start and connections\<close>

text \<open>\<^verbatim>\<open>init_info\<close> leaves the fields \<^verbatim>\<open>nnodes\<close> and \<^verbatim>\<open>start_time\<close> of the static structure as they are.\<close>

definition init_info :: "informations \<Rightarrow> informations" where
  "init_info infos =
     infos\<lparr> nclients := 0, bytes_recv := 0, bytes_sent := 0, nconnections := 0, nkeys := 0,
            nrequests := 0, uptime := 0 \<rparr>"

text \<open>
  The state \<^verbatim>\<open>start_server\<close> sets up before it listens. The structure \<^verbatim>\<open>triedb\<close> is static, so its counter
  starts at 0.
\<close>

definition start_state :: "env \<Rightarrow> config \<Rightarrow> triedb cres" where
  "start_state en conf =
     bindE (hashtable_put (en_calloc_max en) (en_fuel en) (hashtable_new database_destructor) (lit ''db0'')
              (Some (en_db en))) (\<lambda>(dbs, status).
       Inr \<lparr> tr_clients = hashtable_new client_destructor, tr_dbs = dbs, tr_expiring_keys = vector_new,
             tr_keyspace_size = 0, tr_client_heap = Map.empty,
             tr_db_heap = [en_db en \<mapsto> database_init (lit ''db0'') (Some trie_node_destructor)],
             tr_items = Map.empty, tr_eks = Map.empty,
             tr_info = init_info \<lparr> nclients = 0, nconnections = 0, nnodes = 0, start_time = 0, uptime = 0,
                                  nrequests = 0, bytes_recv = 0, bytes_sent = 0, nkeys = 0 \<rparr>,
             tr_conf = conf, tr_closed = [] \<rparr>)"

text \<open>One turn of the inner loop of \<^verbatim>\<open>accept_loop\<close>: the new client lives at \<open>c\<close>.\<close>

definition accept_client :: "env \<Rightarrow> addr \<Rightarrow> int \<Rightarrow> cstring \<Rightarrow> triedb \<Rightarrow> triedb cres" where
  "accept_client en c fd uuid s =
     bindE (hashtable_get (tr_dbs s) (lit ''db0'')) (\<lambda>db.
     bindE (hashtable_put (en_calloc_max en) (en_fuel en) (tr_clients s) uuid (Some c)) (\<lambda>(clients, status).
       let infos = tr_info s in
       Inr (s\<lparr> tr_clients := clients,
               tr_client_heap := (tr_client_heap s)(c \<mapsto>
                 \<lparr> c_fd = fd, c_last_action_time = of_int (en_now en), c_uuid = uuid, c_db = db \<rparr>),
               tr_info := infos\<lparr> nclients := nclients infos + 1, nconnections := nconnections infos + 1 \<rparr> \<rparr>)))"

subsection \<open>Reading a packet\<close>

text \<open>
  What \<^verbatim>\<open>recv_packet\<close> leaves: its return value, the header, how far it moved the buffer pointer, the
  buffer, the socket, and whether it closed the descriptor.
\<close>

record received =
  rc_nbytes :: int
  rc_header :: byte
  rc_offset :: nat
  rc_buffer :: bytes
  rc_socket :: "io_result list"
  rc_close :: bool

definition recv_packet :: "u64 \<Rightarrow> bytes \<Rightarrow> io_result list \<Rightarrow> received cres" where
  "recv_packet max_request_size buf sk =
     (case recv_bytes 4 sk of (nbytes, bs, sk1) \<Rightarrow>
      bindE (buf_write buf 0 bs) (\<lambda>buf1.
        if nbytes \<le> 0 then
          Inr \<lparr> rc_nbytes = - ERRCLIENTDC, rc_header = 0, rc_offset = 0, rc_buffer = buf1, rc_socket = sk1,
                rc_close = False \<rparr>
        else
          let header = hd buf1 in
          if 13 < hdr_opcode header \<or> 1 > hdr_opcode header then
            Inr \<lparr> rc_nbytes = - ERRPACKETERR, rc_header = header, rc_offset = 0, rc_buffer = buf1,
                  rc_socket = sk1, rc_close = False \<rparr>
          else
            bindE (decode_length (tl buf1)) (\<lambda>(tlen, pos, rest).
              if tlen > max_request_size then
                Inr \<lparr> rc_nbytes = - ERRMAXREQSIZE, rc_header = header, rc_offset = pos + 1, rc_buffer = buf1,
                      rc_socket = sk1, rc_close = False \<rparr>
              else if tlen \<le> 4 then
                Inr \<lparr> rc_nbytes = nbytes, rc_header = header, rc_offset = pos + 1, rc_buffer = buf1,
                      rc_socket = sk1, rc_close = False \<rparr>
              else
                (case recv_bytes (unat (tlen - of_nat pos)) sk1 of (n, bs2, sk2) \<Rightarrow>
                 bindE (buf_write buf1 (1 + pos + pos + 1) bs2) (\<lambda>buf2.
                   if n < 0 then
                     Inr \<lparr> rc_nbytes = nbytes, rc_header = header, rc_offset = 0, rc_buffer = buf2,
                           rc_socket = sk2, rc_close = True \<rparr>
                   else
                     Inr \<lparr> rc_nbytes = nbytes + uint (of_int n - of_nat pos - 1 :: u32), rc_header = header,
                           rc_offset = pos + 1, rc_buffer = buf2, rc_socket = sk2, rc_close = False \<rparr>)))))"

definition read_data :: "int \<Rightarrow> bytes \<Rightarrow> io_result list \<Rightarrow> triedb \<Rightarrow>
    (int \<times> triedb_request option \<times> bytes \<times> io_result list \<times> triedb) cres" where
  "read_data fd buf sk s =
     bindE (recv_packet (cf_max_request_size (tr_conf s)) buf sk) (\<lambda>r.
       let s1 = s\<lparr> tr_closed := tr_closed s @ (if rc_close r then [fd] else []) \<rparr>; infos = tr_info s in
       if rc_nbytes r = - ERRCLIENTDC \<or> rc_nbytes r = - ERRMAXREQSIZE then
         Inr (- ERRCLIENTDC, None, rc_buffer r, rc_socket r,
              s1\<lparr> tr_closed := tr_closed s1 @ [fd],
                  tr_info := infos\<lparr> nclients := nclients infos - 1, nconnections := nconnections infos - 1 \<rparr> \<rparr>)
       else if rc_nbytes r = - ERRPACKETERR then
         Inr (- ERRPACKETERR, None, rc_buffer r, rc_socket r, s1)
       else
         bindE (unpack_triedb_request (drop (rc_offset r) (rc_buffer r)) (rc_header r) (of_int (rc_nbytes r))) (\<lambda>pkt.
           Inr (0, Some pkt, rc_buffer r, rc_socket r,
                s1\<lparr> tr_info := infos\<lparr> bytes_recv := bytes_recv infos + of_int (rc_nbytes r) \<rparr> \<rparr>)))"

subsection \<open>A request from the socket to the reply\<close>

text \<open>
  The branch of \<^verbatim>\<open>io_worker\<close> for readable clients. The two blocks it asks for, the event and the payload, are
  the only ones of their heaps: until the event is registered for a worker nothing else points to them. On a
  disconnection both are released. The time of the last action is written through the event in every case.
\<close>

record io_event =
  ev_client :: addr
  ev_payload :: addr

definition io_event_new :: "addr \<Rightarrow> io_event heap" where
  "io_event_new c = [0 \<mapsto> \<lparr> ev_client = c, ev_payload = 0 \<rparr>]"

definition io_disconnect :: "io_event heap \<Rightarrow> unit heap \<Rightarrow> triedb \<Rightarrow> (io_event heap \<times> unit heap \<times> triedb) cres" where
  "io_disconnect events payloads s =
     bindE (obj_read events 0) (\<lambda>event.
     bindE (obj_read (tr_client_heap s) (ev_client event)) (\<lambda>cl.
     bindE (hashtable_del (tr_clients s) (c_uuid cl) (tr_client_heap s)) (\<lambda>(clients, status, client_heap).
     bindE (obj_free payloads (ev_payload event)) (\<lambda>payloads'.
     bindE (obj_free events 0) (\<lambda>events'.
       Inr (events', payloads',
            s\<lparr> tr_closed := tr_closed s @ [c_fd cl], tr_clients := clients, tr_client_heap := client_heap \<rparr>))))))"

definition record_last_action :: "env \<Rightarrow> io_event heap \<Rightarrow> triedb \<Rightarrow> triedb cres" where
  "record_last_action en events s =
     bindE (obj_read events 0) (\<lambda>event.
     bindE (obj_read (tr_client_heap s) (ev_client event)) (\<lambda>cl.
       Inr (s\<lparr> tr_client_heap :=
         (tr_client_heap s)(ev_client event \<mapsto> cl\<lparr> c_last_action_time := of_int (en_now en) \<rparr>) \<rparr>)))"

definition io_read :: "env \<Rightarrow> addr \<Rightarrow> bytes \<Rightarrow> io_result list \<Rightarrow> triedb \<Rightarrow>
    (triedb_request option \<times> bytes \<times> io_result list \<times> triedb) cres" where
  "io_read en c buf sk s =
     (let events = io_event_new c; payloads = [0 \<mapsto> ()] in
      bindE (obj_read (tr_client_heap s) c) (\<lambda>cl.
      bindE (read_data (c_fd cl) buf sk s) (\<lambda>(rc, pkt, buf', sk', s1).
      bindE (if rc = - ERRCLIENTDC then io_disconnect events payloads s1 else Inr (events, payloads, s1))
        (\<lambda>(events', payloads', s2).
      bindE (record_last_action en events' s2) (\<lambda>s3. Inr (pkt, buf', sk', s3))))))"

text \<open>The branch of \<^verbatim>\<open>worker\<close> for an event: the handler, then \<^verbatim>\<open>epoll_mod\<close> on the descriptor of the client.\<close>

definition worker_event :: "env \<Rightarrow> addr \<Rightarrow> triedb_request \<Rightarrow> triedb \<Rightarrow> (bstring option \<times> triedb) cres" where
  "worker_event en c pkt s =
     (if hdr_opcode (rq_header pkt) < length handlers then
        (case handlers ! hdr_opcode (rq_header pkt) of
           None \<Rightarrow> Inl NullCall
         | Some handler \<Rightarrow>
             bindE (handler en c pkt s) (\<lambda>(rc, reply, s').
             bindE (obj_read (tr_client_heap s') c) (\<lambda>_. Inr (reply, s'))))
      else Inl OutOfBounds)"

text \<open>The branch for writable clients; a reply that was never set is read through a stray pointer.\<close>

definition io_write :: "addr \<Rightarrow> bstring option \<Rightarrow> write_result list \<Rightarrow> triedb \<Rightarrow> (bytes \<times> triedb) cres" where
  "io_write c reply ws s =
     bindE (obj_read (tr_client_heap s) c) (\<lambda>cl.
       case reply of
         None \<Rightarrow> Inl OutOfBounds
       | Some r \<Rightarrow>
           (case send_bytes r ws of (sent, out) \<Rightarrow>
              let infos = tr_info s in
              Inr (out, s\<lparr> tr_closed := tr_closed s @ (if sent < 0 then [c_fd cl] else []),
                tr_info := infos\<lparr> bytes_sent := bytes_sent infos + (if sent < 0 then 0 else of_int sent) \<rparr> \<rparr>)))"

text \<open>
  The branch of \<^verbatim>\<open>io_worker\<close> for the cluster bus: \<open>dgram\<close> is the datagram \<^verbatim>\<open>recvfrom\<close> delivers, cut to
  \<^verbatim>\<open>BUFSIZE\<close> bytes, or \<open>None\<close> if it fails and returns -1. A NUL is written behind it, the request is
  unpacked and dropped, and the sender is counted as a node.
\<close>

definition BUFSIZE :: nat where "BUFSIZE = 2048"

definition bus_event :: "bytes option \<Rightarrow> bytes \<Rightarrow> triedb \<Rightarrow> (bytes \<times> triedb) cres" where
  "bus_event dgram buf s =
     (case dgram of
        None \<Rightarrow> Inl OutOfBounds
      | Some bs \<Rightarrow>
          let got = take BUFSIZE bs in
          bindE (buf_write buf 0 got) (\<lambda>buf1.
          bindE (buf_write buf1 (length got) [0]) (\<lambda>buf2.
          bindE (decode_length (tl buf2)) (\<lambda>(len, pos, rest).
          bindE (unpack_triedb_request rest (hd buf2) len) (\<lambda>pkt.
            let infos = tr_info s in
            Inr (buf2, s\<lparr> tr_info := infos\<lparr> nnodes := nnodes infos + 1 \<rparr> \<rparr>))))))"

subsection \<open>Packets\<close>

lemma decode_length_short: "n < 128 \<Longrightarrow> decode_length (of_nat n # rest) = Inr (of_nat n, 1, rest)"
  using decode_encode_length [of "of_nat n" rest] encode_length_short [of n]
  by (simp add: word_less_nat_alt unat_of_nat_64)

lemma buf_write_fits:
  "pos + length bs \<le> length buf \<Longrightarrow> buf_write buf pos bs = Inr (take pos buf @ bs @ drop (pos + length bs) buf)"
  by (simp add: buf_write_def)

lemma u32_minus_2: "2 \<le> n \<Longrightarrow> n < 2 ^ 32 \<Longrightarrow> uint (of_nat n - 2 :: u32) = int n - 2"
proof -
  assume n: "2 \<le> n" "n < 2 ^ 32"
  then have u: "unat (of_nat n :: u32) = n" by (simp add: unat_of_nat take_bit_nat_eq_self)
  with n have "unat (of_nat n - 2 :: u32) = n - 2" by (subst unat_sub) (simp_all add: word_le_nat_alt)
  then show ?thesis using n by (simp add: uint_nat of_nat_diff)
qed

abbreviation quiet :: "io_result list \<Rightarrow> bool" where
  "quiet sk \<equiv> \<forall>r \<in> set sk. \<exists>bs. r = IoBytes bs \<and> bs \<noteq> []"

text \<open>The part of \<^verbatim>\<open>recv_packet\<close> after a one-byte size field.\<close>

lemma recv_packet_tail:
  assumes "quiet sk" and "pending sk = hdr # of_nat tlen # a # b # rest" and "5 \<le> tlen" and "tlen < 128"
    and "1 \<le> hdr_opcode hdr" and "hdr_opcode hdr \<le> 13" and "of_nat tlen \<le> maxsize"
    and "tlen + 3 \<le> length buf"
  shows "\<exists>sk'. recv_packet maxsize buf sk =
      Inr \<lparr> rc_nbytes = 4 + uint (of_nat (length (take (tlen - 1) rest)) - 2 :: u32), rc_header = hdr, rc_offset = 2,
            rc_buffer = hdr # of_nat tlen # a # b # take (tlen - 1) rest @ drop (4 + length (take (tlen - 1) rest)) buf,
            rc_socket = sk', rc_close = False \<rparr> \<and> quiet sk' \<and> pending sk' = drop (tlen - 1) rest"
proof -
  have unat: "unat (of_nat tlen :: u64) = tlen" using assms(4) by (intro unat_of_nat_64) simp
  from recv_bytes_pending [OF assms(1), of 4] obtain sk1 where r1:
    "recv_bytes 4 sk = (4, [hdr, of_nat tlen, a, b], sk1)" "pending sk1 = rest" "quiet sk1"
    by (auto simp: assms(2) eval_nat_numeral)
  let ?bs = "take (tlen - 1) rest"
  from recv_bytes_pending [OF r1(3), of "tlen - 1"] obtain sk2 where r2:
    "recv_bytes (tlen - 1) sk1 = (int (length ?bs), ?bs, sk2)" "pending sk2 = drop (tlen - 1) rest" "quiet sk2"
    unfolding r1(2) by blast
  have w1: "buf_write buf 0 [hdr, of_nat tlen, a, b] = Inr ([hdr, of_nat tlen, a, b] @ drop 4 buf)"
    using assms(3,8) by (subst buf_write_fits) (simp_all add: eval_nat_numeral)
  have "1 + 1 + 1 + 1 + length ?bs \<le> length ([hdr, of_nat tlen, a, b] @ drop 4 buf)" using assms(3,8) by auto
  from buf_write_fits [OF this]
  have w2: "buf_write (hdr # of_nat tlen # a # b # drop 4 buf) (Suc (Suc (Suc (Suc 0)))) ?bs =
      Inr (hdr # of_nat tlen # a # b # ?bs @ drop (4 + length ?bs) buf)"
    by (simp add: add.commute eval_nat_numeral)
  have cmp: "\<not> (of_nat tlen :: u64) > maxsize" "\<not> (of_nat tlen :: u64) \<le> 4"
    using assms(3,7) unat by (simp_all add: word_le_nat_alt not_less)
  have sub: "unat (of_nat tlen - 1 :: u64) = tlen - 1" using unat assms(3) by (subst unat_sub) (simp_all add: word_le_nat_alt)
  have minus: "(of_nat (length ?bs) :: u32) - 1 - 1 = of_nat (length ?bs) - 2" by simp
  show ?thesis
    using assms(5,6) r2(2,3) cmp
    by (auto simp: recv_packet_def r1(1) w1 Let_def decode_length_short [OF assms(4)] sub r2(1) [unfolded One_nat_def]
          w2 [unfolded One_nat_def] minus [unfolded One_nat_def]
          simp del: length_take)
qed

text \<open>A packet with a size of at most four is read no further than its first four bytes.\<close>

lemma recv_packet_tiny:
  assumes "quiet sk" and "pending sk = hdr # of_nat tlen # xs" and "tlen \<le> 4" and "1 \<le> hdr_opcode hdr" and "hdr_opcode hdr \<le> 13"
    and "of_nat tlen \<le> maxsize" and "4 \<le> length buf"
  shows "\<exists>sk'. recv_packet maxsize buf sk =
      Inr \<lparr> rc_nbytes = 2 + int (length (take 2 xs)), rc_header = hdr, rc_offset = 2,
            rc_buffer = hdr # of_nat tlen # take 2 xs @ drop (2 + length (take 2 xs)) buf, rc_socket = sk', rc_close = False \<rparr> \<and>
      pending sk' = drop 2 xs"
proof -
  let ?bs = "hdr # of_nat tlen # take 2 xs"
  have unat: "unat (of_nat tlen :: u64) = tlen" using assms(3) by (intro unat_of_nat_64) simp
  from recv_bytes_pending [OF assms(1), of 4] obtain sk1 where r1: "recv_bytes 4 sk = (2 + int (length (take 2 xs)), ?bs, sk1)"
    "pending sk1 = drop 2 xs" by (auto simp: assms(2) eval_nat_numeral)
  have "0 + length ?bs \<le> length buf" using assms(7) by simp
  from buf_write_fits [OF this] have w: "buf_write buf 0 ?bs = Inr (?bs @ drop (2 + length (take 2 xs)) buf)" by simp
  have cmp: "\<not> (of_nat tlen :: u64) > maxsize" "(of_nat tlen :: u64) \<le> 4"
    using assms(3,6) unat by (simp_all add: word_le_nat_alt not_less)
  have "tlen < 128" using assms(3) by simp
  then show ?thesis
    using assms(4,5) r1(2) cmp
    by (auto simp: recv_packet_def r1(1) w Let_def decode_length_short simp del: length_take)
qed

lemma recv_packet_short:
  assumes "quiet sk" and "pending sk = hdr # of_nat (length payload) # payload @ extra"
    and "5 \<le> length payload" and "length payload < 128" and "1 \<le> hdr_opcode hdr" and "hdr_opcode hdr \<le> 13"
    and "of_nat (length payload) \<le> maxsize" and "length payload + 3 \<le> length buf"
  shows "\<exists>r. recv_packet maxsize buf sk = Inr r \<and> rc_nbytes r = int (length (payload @ take 1 extra)) \<and>
    rc_header r = hdr \<and> rc_offset r = 2 \<and> rc_close r = False \<and> length (rc_buffer r) = length buf \<and>
    (\<exists>rest. drop 2 (rc_buffer r) = payload @ take 1 extra @ rest) \<and> pending (rc_socket r) = drop 1 extra"
proof -
  obtain a b rest where p: "payload = a # b # rest"
    using assms(3) by (cases payload; cases "tl payload") auto
  let ?n = "length payload"
  have tk: "take (?n - 1) (rest @ extra) = rest @ take 1 extra" "drop (?n - 1) (rest @ extra) = drop 1 extra"
    using p by simp_all
  have big: "2 \<le> length (rest @ take 1 extra)" "length (rest @ take 1 extra) < 2 ^ 32" using p assms(3,4) by auto
  then have u: "uint (of_nat (length (rest @ take 1 extra)) - 2 :: u32) = int (length (rest @ take 1 extra)) - 2"
    by (rule u32_minus_2)
  from recv_packet_tail [OF assms(1) _ assms(3-8), of a b "rest @ extra"] assms(2) p
  obtain sk' where "recv_packet maxsize buf sk =
      Inr \<lparr> rc_nbytes = 4 + uint (of_nat (length (rest @ take 1 extra)) - 2 :: u32), rc_header = hdr, rc_offset = 2,
            rc_buffer = hdr # of_nat ?n # a # b # (rest @ take 1 extra) @ drop (4 + length (rest @ take 1 extra)) buf,
            rc_socket = sk', rc_close = False \<rparr>" "pending sk' = drop 1 extra"
    unfolding tk by auto
  then show ?thesis
    unfolding u using p assms(8) by auto
qed

subsection \<open>Databases whose size is not exact\<close>

text \<open>
  A prefix removal leaves the size of a trie too large, so what the server maintains is the invariant
  of a database without its size.
\<close>

definition db_sound :: "database \<Rightarrow> db_item heap \<Rightarrow> bool" where
  "db_sound db h \<longleftrightarrow> trie_inv (db_data db) \<and> trie_owns (db_data db) h \<and>
     t_destructor (db_data db) = Some trie_node_destructor"

lemma db_ok_sound: "db_ok db h \<Longrightarrow> db_sound db h"
  by (simp add: db_sound_def db_ok_def trie_ok_def)

lemma db_soundD:
  assumes "db_sound db h"
  shows "trie_inv (db_data db)" "trie_owns (db_data db) h" "dtor_ok (t_destructor (db_data db))"
  using assms by (auto simp: db_sound_def)

lemma db_sound_alive:
  assumes "db_sound db h" and "trie_map (db_data db) key = Some a"
  shows "\<exists>item. h a = Some item"
proof -
  have "a \<in> ran (trie_map (db_data db))" using assms(2) by (auto simp: ran_def)
  then show ?thesis using assms(1) by (auto simp: db_sound_def trie_owns_def)
qed

lemma trie_owns_inj:
  assumes "trie_owns t h" and "trie_map t k = Some a" and "trie_map t k' = Some a"
  shows "k = k'"
proof -
  have "inj_on (trie_map t) (dom (trie_map t))" using assms(1) by (simp add: trie_owns_def)
  from inj_onD [OF this, of k k'] assms(2,3) show ?thesis by auto
qed

text \<open>A map that lost keys, on a heap that lost only what those keys led to.\<close>

lemma trie_owns_shrink:
  assumes "trie_owns t h" and "trie_map t' = trie_map t |` K"
    and "\<And>k a. k \<in> K \<Longrightarrow> trie_map t k = Some a \<Longrightarrow> h' a \<noteq> None"
  shows "trie_owns t' h'"
proof -
  have "inj_on (trie_map t') (dom (trie_map t'))"
    unfolding assms(2)
    by (auto simp: restrict_map_def intro!: inj_onI split: if_splits intro: trie_owns_inj [OF assms(1)])
  moreover have "ran (trie_map t') \<subseteq> dom h'"
    using assms(3) unfolding assms(2) by (auto simp: ran_def restrict_map_def split: if_splits)
  ultimately show ?thesis by (simp add: trie_owns_def)
qed

lemma trie_delete_sound:
  assumes t: "trie_inv t" "trie_owns t h" "dtor_ok (t_destructor t)"
  shows "\<exists>b t'. trie_delete t key h =
      Inr (b, t', if key = [] then h else h |` (- set_option (trie_map t key))) \<and> trie_inv t' \<and>
    trie_owns t' (if key = [] then h else h |` (- set_option (trie_map t key))) \<and>
    trie_map t' = (if key = [] then trie_map t else (trie_map t)(key := None)) \<and>
    t_destructor t' = t_destructor t \<and> (t_destructor t \<noteq> None \<longrightarrow> b = (key \<noteq> [] \<and> trie_map t key \<noteq> None))"
proof -
  obtain root where root: "t_root t = Some root" using t(1) by (blast elim: trie_invE)
  consider "key = []" | "key \<noteq> []" "trie_map t key = None" | a where "key \<noteq> []" "trie_map t key = Some a" by auto
  then show ?thesis
  proof cases
    case 1
    then show ?thesis using t root by (auto simp: trie_delete_def)
  next
    case 2
    have "(trie_map t)(key := None) = trie_map t" using 2(2) by auto
    moreover have "h |` (- {}) = h" by (auto simp: restrict_map_def)
    ultimately show ?thesis
      using trie_delete_missing [OF t(1,3) 2(2), of h] t(2) 2 by (auto simp: trie_owns_def)
  next
    case 3
    have alive: "h a \<noteq> None" using t(2) 3(2) by (auto simp: trie_owns_def ran_def dom_def)
    obtain t' where t': "trie_delete t key h = Inr (True, t', h(a := None))" "trie_inv t'"
      "trie_map t' = (trie_map t)(key := None)" "t_destructor t' = t_destructor t"
      using trie_delete_found [of t key a h] t(1,3) 3 alive by blast
    have "trie_owns t' (h(a := None))"
    proof (rule trie_owns_shrink [OF t(2)])
      show "trie_map t' = trie_map t |` (- {key})" using t'(3) by (auto simp: restrict_map_def)
      fix k b assume "k \<in> - {key}" "trie_map t k = Some b"
      moreover then have "b \<noteq> a"
        using trie_owns_inj [OF t(2), of k a key] 3(2) by auto
      ultimately show "(h(a := None)) b \<noteq> None" using t(2) by (auto simp: trie_owns_def ran_def dom_def)
    qed
    moreover have "h |` (- {a}) = h(a := None)" by (auto simp: restrict_map_def)
    ultimately show ?thesis using t' 3 by auto
  qed
qed

text \<open>With a destructor the size plays no part in the destruction of a subtree.\<close>

lemma trie_node_destroy_sound:
  "distinct (trie_released n) \<Longrightarrow> (\<forall>a \<in> set (trie_released n). h a \<noteq> None) \<Longrightarrow>
     trie_node_destroy n (Some trie_node_destructor) h sz = Inr (free_all h (trie_released n), sz)"
  "distinct (children_released cs) \<Longrightarrow> (\<forall>a \<in> set (children_released cs). h a \<noteq> None) \<Longrightarrow>
     children_destroy cs (Some trie_node_destructor) h sz = Inr (free_all h (children_released cs), sz)"
proof (induction n and cs arbitrary: h and h rule: trie_induct)
  case (TNode c cs d)
  have IH: "children_destroy cs (Some trie_node_destructor) h sz = Inr (free_all h (children_released cs), sz)"
    using TNode by simp
  show ?case
  proof (cases d)
    case None
    with IH show ?thesis by (simp add: item_destructor.dtor_empty)
  next
    case (Some a)
    with TNode.prems have "free_all h (children_released cs) a \<noteq> None" by (auto simp: free_all_alive)
    then have "trie_node_destructor (TNode c BNull (Some a)) False (free_all h (children_released cs)) =
        Inr (True, TNode c BNull None, (free_all h (children_released cs))(a := None))"
      by (rule item_destructor.dtor_data)
    with IH Some show ?thesis by (simp add: free_all_snoc fun_upd_def)
  qed
next
  case (BNode_trie_node k hh l r n)
  let ?n = "trie_released n" and ?l = "children_released l"
  have "\<forall>a \<in> set ?l. free_all h ?n a \<noteq> None"
    and "\<forall>a \<in> set (children_released r). free_all (free_all h ?n) ?l a \<noteq> None"
    using BNode_trie_node.prems by (auto simp: free_all_def restrict_map_def)
  then show ?case using BNode_trie_node by (simp add: free_all_append)
qed simp_all

text \<open>A database and its heap after the removal of the keys in a set.\<close>

definition db_without :: "cstring set \<Rightarrow> database \<Rightarrow> db_item heap \<Rightarrow> database \<Rightarrow> db_item heap \<Rightarrow> bool" where
  "db_without K db h db' h' \<longleftrightarrow> db_sound db' h' \<and> db_name db' = db_name db \<and>
     trie_map (db_data db') = trie_map (db_data db) |` (- K) \<and>
     (\<forall>k a. trie_map (db_data db') k = Some a \<longrightarrow> h' a = h a) \<and> dom h' \<subseteq> dom h"

lemma db_without_view: "db_without K db h db' h' \<Longrightarrow> db_view db' h' k = (if k \<in> K then None else db_view db h k)"
  by (cases "trie_map (db_data db) k") (auto simp: db_without_def db_view_def dest!: spec [of _ k])

lemma db_withoutI:
  assumes "db_sound db h" and "trie_inv t'" and "trie_owns t' h'" and "t_destructor t' = t_destructor (db_data db)"
    and "trie_map t' = trie_map (db_data db) |` (- K)" and "\<And>a. h' a = None \<or> h' a = h a"
  shows "db_without K db h (db\<lparr> db_data := t' \<rparr>) h'"
proof -
  have "dom h' \<subseteq> dom h" using assms(6) by (auto simp: dom_def) (metis option.distinct(1))
  moreover have "h' a = h a" if "trie_map t' k = Some a" for k a
    using that assms(3) assms(6) [of a] by (auto simp: trie_owns_def ran_def dom_def)
  ultimately show ?thesis using assms(1-5) by (simp add: db_without_def db_sound_def)
qed

text \<open>The keys below a node are released, the key of the node itself stays.\<close>

lemma subtree_freed_owns:
  assumes t: "trie_owns t h" and root: "t_root t = Some root" "trie_node_inv root"
    and cur: "trie_node_find root p = Some (TNode c cs d)"
    and t1: "\<And>k. trie_map t1 k = (if has_prefix p k \<and> k \<noteq> p then None else trie_map t k)"
  shows "trie_owns t1 (free_all h (children_released cs))"
proof (rule trie_owns_shrink [OF t])
  note rel = released_under_find [OF root cur t]
  show "trie_map t1 = trie_map t |` {k. \<not> (has_prefix p k \<and> k \<noteq> p)}"
    using t1 by (auto simp: restrict_map_def fun_eq_iff)
  fix k a assume k: "k \<in> {k. \<not> (has_prefix p k \<and> k \<noteq> p)}" "trie_map t k = Some a"
  have "a \<notin> set (children_released cs)"
  proof
    assume a: "a \<in> set (children_released cs)"
    then have "a \<in> released_under t p" using rel(4) by blast
    then obtain k' where "has_prefix p k'" "trie_map t k' = Some a" by (auto simp: released_under_def)
    with k trie_owns_inj [OF t] have "k = p" by blast
    then show False using rel(3) k(2) a by auto
  qed
  then show "free_all h (children_released cs) a \<noteq> None"
    using t k(2) by (auto simp: free_all_alive trie_owns_def ran_def dom_def)
qed

lemma prefix_remove_sound:
  assumes "db_sound db h"
  shows "\<exists>db' h'. database_prefix_remove db p h = Inr (db', h') \<and>
    db_without {k. has_prefix p k \<and> k \<noteq> []} db h db' h'"
proof -
  let ?t = "db_data db"
  note t = db_soundD [OF assms]
  from t(1) obtain root where root: "t_root ?t = Some root" "tn_chr root = 0" "trie_node_inv root"
    "trie_map ?t = trie_node_search root" by (rule trie_invE)
  show ?thesis
  proof (cases "trie_node_find root p")
    case None
    then have "has_prefix p k \<Longrightarrow> trie_map ?t k = None" for k
      by (auto simp: has_prefix_iff root(4) trie_node_search_append)
    then have "trie_map ?t |` (- {k. has_prefix p k \<and> k \<noteq> []}) = trie_map ?t" by (auto simp: restrict_map_def)
    then show ?thesis
      using None root(1) assms by (simp add: database_prefix_remove_def trie_prefix_delete_def db_without_def)
  next
    case (Some cursor)
    then obtain c cs d where cur: "trie_node_find root p = Some (TNode c cs d)" by (cases cursor) auto
    let ?h = "free_all h (children_released cs)"
    have "children_destroy cs (t_destructor ?t) h (t_size ?t) = Inr (?h, t_size ?t)"
      using trie_node_destroy_sound(2) [OF released_under_find(1,2) [OF root(1,3) cur t(2)]] assms
      by (simp add: db_sound_def)
    from trie_prefix_delete_step [OF root(1-3) cur this] obtain t1 where t1:
      "trie_prefix_delete ?t p h = bindE (trie_delete t1 p ?h) (\<lambda>(ret, t', h'). Inr (t', h'))" "trie_inv t1"
      "\<And>k. trie_map t1 k = (if has_prefix p k \<and> k \<noteq> p then None else trie_map ?t k)"
      "t_destructor t1 = t_destructor ?t" by blast
    let ?h' = "if p = [] then ?h else ?h |` (- set_option (trie_map t1 p))"
    have "dtor_ok (t_destructor t1)" using t(3) t1(4) by simp
    from trie_delete_sound [OF t1(2) subtree_freed_owns [OF t(2) root(1,3) cur t1(3)] this, of p]
    obtain b t' where t': "trie_delete t1 p ?h = Inr (b, t', ?h')" "trie_inv t'" "trie_owns t' ?h'"
      "trie_map t' = (if p = [] then trie_map t1 else (trie_map t1)(p := None))" "t_destructor t' = t_destructor t1"
      by blast
    have "?h' a = None \<or> ?h' a = h a" for a by (auto simp: free_all_def restrict_map_def)
    moreover have "trie_map t' = trie_map ?t |` (- {k. has_prefix p k \<and> k \<noteq> []})"
      using t'(4) t1(3) by (auto simp: has_prefix_def restrict_map_def fun_eq_iff)
    ultimately have "db_without {k. has_prefix p k \<and> k \<noteq> []} db h (db\<lparr> db_data := t' \<rparr>) ?h'"
      using db_withoutI [OF assms t'(2,3)] t'(5) t1(4) by simp
    then show ?thesis
      using t1(1) t'(1) by (intro exI conjI) (simp_all add: database_prefix_remove_def)
  qed
qed

lemma remove_sound:
  assumes "db_sound db h"
  shows "\<exists>b db' h'. database_remove db key h = Inr (b, db', h') \<and> db_without (if key = [] then {} else {key}) db h db' h' \<and>
    (b \<longleftrightarrow> key \<noteq> [] \<and> db_view db h key \<noteq> None)"
proof -
  let ?t = "db_data db"
  let ?h' = "if key = [] then h else h |` (- set_option (trie_map ?t key))"
  from trie_delete_sound [OF db_soundD [OF assms], of key] obtain b t' where t':
    "trie_delete ?t key h = Inr (b, t', ?h')" "trie_inv t'" "trie_owns t' ?h'"
    "trie_map t' = (if key = [] then trie_map ?t else (trie_map ?t)(key := None))" "t_destructor t' = t_destructor ?t"
    "t_destructor ?t \<noteq> None \<longrightarrow> b = (key \<noteq> [] \<and> trie_map ?t key \<noteq> None)"
    by blast
  have "?h' a = None \<or> ?h' a = h a" for a by (auto simp: restrict_map_def)
  moreover have "trie_map t' = trie_map ?t |` (- (if key = [] then {} else {key}))"
    using t'(4) by (auto simp: restrict_map_def)
  ultimately have "db_without (if key = [] then {} else {key}) db h (db\<lparr> db_data := t' \<rparr>) ?h'"
    using db_withoutI [OF assms t'(2,3,5)] by blast
  moreover have "trie_map ?t key \<noteq> None \<longleftrightarrow> db_view db h key \<noteq> None"
    using db_sound_alive [OF assms, of key] by (auto simp: db_view_def split: option.splits)
  moreover have "t_destructor ?t \<noteq> None" using assms by (simp add: db_sound_def)
  ultimately show ?thesis using t'(1,6) by (intro exI conjI) (simp_all add: database_remove_def)
qed

lemma insert_sound:
  assumes "db_sound db h" and "0 \<notin> set key" and "h a = None"
    and item: "item = \<lparr> di_ttl = ttl, di_data = data, di_ctime = now, di_lstime = now \<rparr>"
  shows "\<exists>db'. database_insert db key data ttl now a h = Inr (db', h(a \<mapsto> item)) \<and> db_sound db' (h(a \<mapsto> item)) \<and>
    db_name db' = db_name db \<and> trie_map (db_data db') = (trie_map (db_data db))(key \<mapsto> a) \<and>
    db_view db' (h(a \<mapsto> item)) = (db_view db h)(key \<mapsto> item)"
proof -
  from trie_insert_ok [OF db_soundD(1) [OF assms(1)] assms(2), of "Some a"] obtain t' where t':
    "trie_insert (db_data db) key (Some a) = Inr t'" "trie_inv t'" "trie_map t' = (trie_map (db_data db))(key \<mapsto> a)"
    "t_destructor t' = t_destructor (db_data db)" by blast
  have new: "trie_map (db_data db) k \<noteq> Some a" for k using db_sound_alive [OF assms(1), of k a] assms(3) by auto
  have own: "trie_owns t' (h(a \<mapsto> item))"
    using new db_soundD(2) [OF assms(1)]
    by (fastforce simp: trie_owns_def t'(3) inj_on_def ran_def dom_def split: if_splits)
  have "db_view (db\<lparr> db_data := t' \<rparr>) (h(a \<mapsto> item)) = (db_view db h)(key \<mapsto> item)"
    using new by (auto simp: db_view_def t'(3) fun_eq_iff split: option.splits)
  then show ?thesis
    using t' own assms(1) item
    by (intro exI [of _ "db\<lparr> db_data := t' \<rparr>"]) (simp add: database_insert_def db_sound_def)
qed

lemma prefix_set_sound:
  assumes "db_sound db h"
  shows "\<exists>h'. database_prefix_set db p val ttl clk h = Inr h' \<and> db_sound db h' \<and>
    (\<forall>k. db_view db h' k = (if has_prefix p k
       then map_option (\<lambda>i. i\<lparr> di_data := Some val, di_ttl := ttl, di_lstime := key_clk db clk k \<rparr>) (db_view db h k)
       else db_view db h k))"
proof -
  let ?db = "db\<lparr> db_data := (db_data db)\<lparr> t_size := of_nat (card (dom (trie_map (db_data db)))) \<rparr> \<rparr>"
  have map: "trie_map (db_data ?db) = trie_map (db_data db)" by (simp add: trie_map_def)
  have same: "trie_inv (db_data ?db) = trie_inv (db_data db)" "prefix_node ?db p = prefix_node db p"
    "trie_owns (db_data ?db) h = trie_owns (db_data db) h" for h :: "db_item heap"
    by (simp_all add: trie_inv_def prefix_node_def trie_owns_def trie_map_def)
  have ok: "db_ok ?db h \<longleftrightarrow> db_sound db h" for h
    using map same(1) same(3) [of h] by (auto simp: db_ok_def trie_ok_def db_sound_def)
  have view: "db_view ?db = db_view db" "key_clk ?db = key_clk db"
    using map by (auto simp: db_view_def key_clk_def fun_eq_iff)
  have walk: "database_prefix_set ?db p val ttl clk h = database_prefix_set db p val ttl clk h"
    using same(2) by (simp add: database_prefix_set_def)
  show ?thesis using database_prefix_set_ok [of ?db h p val ttl clk] assms unfolding walk view ok by blast
qed

lemma search_sound:
  assumes "db_sound db h"
  shows "database_search db key now h =
    Inr (case db_view db h key of None \<Rightarrow> None
         | Some item \<Rightarrow> if di_ttl item > -1 \<and> di_ttl item \<le> now - di_ctime item then None
             else trie_map (db_data db) key)"
  using db_soundD(1) [OF assms] db_sound_alive [OF assms, of key]
  by (auto simp: database_search_def trie_find_map db_view_def obj_read_def split: option.splits)

subsection \<open>What the handlers do\<close>

text \<open>Client \<open>c\<close> works on the database \<open>db\<close> at \<open>d\<close>.\<close>

definition serves :: "triedb \<Rightarrow> addr \<Rightarrow> addr \<Rightarrow> database \<Rightarrow> bool" where
  "serves s c d db \<longleftrightarrow> (\<exists>cl. tr_client_heap s c = Some cl \<and> c_db cl = Some d) \<and> tr_db_heap s d = Some db \<and>
     db_sound db (tr_items s)"

lemma servesD:
  assumes "serves s c d db"
  shows "client_db s c = Inr (d, db)" "db_sound db (tr_items s)" "tr_db_heap s d = Some db"
    "\<exists>cl. tr_client_heap s c = Some cl \<and> c_db cl = Some d"
  using assms by (auto simp: serves_def client_db_def obj_read_Some)

lemma ack_reply_eq:
  "ack_reply OK s = Inr (0, Some [0, 1, 0], s)" "ack_reply NOK s = Inr (0, Some [0, 1, 1], s)"
proof -
  have "ack_replies OK = Inr [0, 1, 0]" "ack_replies NOK = Inr [0, 1, 1]" by code_simp+
  then show "ack_reply OK s = Inr (0, Some [0, 1, 0], s)" "ack_reply NOK s = Inr (0, Some [0, 1, 1], s)"
    by (simp_all add: ack_reply_def)
qed

definition put_item :: "env \<Rightarrow> int \<Rightarrow> bytes \<Rightarrow> db_item" where
  "put_item en ttl val =
     \<lparr> di_ttl = c_short ttl, di_data = Some (c_string val), di_ctime = en_time en, di_lstime = en_time en \<rparr>"

lemma put_handler_single:
  assumes "serves s c d db" and "\<not> hdr_prefix hdr" and "tr_items s (en_item en) = None"
  shows "\<exists>db' s'. put_handler en c (ReqPut hdr ttl kl key val) s = Inr (0, Some [0, 1, 0], s') \<and> serves s' c d db' \<and>
    db_view db' (tr_items s') = (db_view db (tr_items s))(c_string key \<mapsto> put_item en ttl val) \<and>
    trie_map (db_data db') = (trie_map (db_data db))(c_string key \<mapsto> en_item en) \<and>
    s' = s\<lparr> tr_db_heap := (tr_db_heap s)(d \<mapsto> db'), tr_items := (tr_items s)(en_item en \<mapsto> put_item en ttl val),
            tr_keyspace_size := tr_keyspace_size s + 1 \<rparr>"
proof -
  note c = servesD [OF assms(1)]
  from insert_sound [OF c(2) _ assms(3) put_item_def [of en ttl val], of "c_string key"] obtain db' where db':
    "database_insert db (c_string key) (Some (c_string val)) (c_short ttl) (en_time en) (en_item en) (tr_items s) =
       Inr (db', (tr_items s)(en_item en \<mapsto> put_item en ttl val))"
    "db_sound db' ((tr_items s)(en_item en \<mapsto> put_item en ttl val))"
    "trie_map (db_data db') = (trie_map (db_data db))(c_string key \<mapsto> en_item en)"
    "db_view db' ((tr_items s)(en_item en \<mapsto> put_item en ttl val)) =
       (db_view db (tr_items s))(c_string key \<mapsto> put_item en ttl val)" by auto
  show ?thesis
    using db' c assms(2)
    by (intro exI [of _ db'] exI conjI) (simp_all add: put_handler_def ack_reply_eq serves_def)
qed

lemma put_handler_prefix:
  assumes "serves s c d db" and "hdr_prefix hdr"
  shows "\<exists>s'. put_handler en c (ReqPut hdr ttl kl key val) s = Inr (0, Some [0, 1, 0], s') \<and> serves s' c d db \<and>
    (\<forall>k. db_view db (tr_items s') k = (if has_prefix (c_string key) k
       then map_option (\<lambda>i. i\<lparr> di_data := Some (c_string val), di_ttl := c_short ttl,
              di_lstime := key_clk db (en_clk en) k \<rparr>) (db_view db (tr_items s) k)
       else db_view db (tr_items s) k)) \<and> s' = s\<lparr> tr_items := tr_items s' \<rparr>"
proof -
  note c = servesD [OF assms(1)]
  from prefix_set_sound [OF c(2), of "c_string key" "c_string val" "c_short ttl" "en_clk en"] obtain h' where h':
    "database_prefix_set db (c_string key) (c_string val) (c_short ttl) (en_clk en) (tr_items s) = Inr h'"
    "db_sound db h'" "\<And>k. db_view db h' k = (if has_prefix (c_string key) k
       then map_option (\<lambda>i. i\<lparr> di_data := Some (c_string val), di_ttl := c_short ttl,
              di_lstime := key_clk db (en_clk en) k \<rparr>) (db_view db (tr_items s) k)
       else db_view db (tr_items s) k)" by blast
  show ?thesis
    using h' c assms(2)
    by (intro exI [of _ "s\<lparr> tr_items := h' \<rparr>"]) (simp add: put_handler_def ack_reply_eq serves_def)
qed

text \<open>The server with another database in place.\<close>

abbreviation with_db :: "triedb \<Rightarrow> addr \<Rightarrow> database \<Rightarrow> db_item heap \<Rightarrow> u64 \<Rightarrow> triedb" where
  "with_db s d db h n \<equiv> s\<lparr> tr_db_heap := (tr_db_heap s)(d \<mapsto> db), tr_items := h, tr_keyspace_size := n \<rparr>"

lemma serves_with_db: "serves s c d db \<Longrightarrow> db_without K db (tr_items s) db' h' \<Longrightarrow> serves (with_db s d db' h' n) c d db'"
  by (simp add: serves_def db_without_def)

lemma del_handler_ok:
  assumes "serves s c d db" and "K = (if hdr_prefix hdr then {k. has_prefix (c_string key) k \<and> k \<noteq> []} else {c_string key} - {[]})"
  shows "\<exists>r db' s'. del_handler en c (ReqGet hdr key) s = Inr (0, Some [0, 1, r], s') \<and> serves s' c d db' \<and>
    r = (if hdr_prefix hdr \<or> c_string key \<noteq> [] \<and> db_view db (tr_items s) (c_string key) \<noteq> None then 0 else 1) \<and>
    db_without K db (tr_items s) db' (tr_items s') \<and>
    s' = with_db s d db' (tr_items s') (tr_keyspace_size s')"
proof (cases "hdr_prefix hdr")
  case True
  note c = servesD [OF assms(1)]
  from prefix_remove_sound [OF c(2), of "c_string key"] obtain db' h' where r:
    "database_prefix_remove db (c_string key) (tr_items s) = Inr (db', h')" "db_without K db (tr_items s) db' h'"
    using True assms(2) by auto
  let ?s = "with_db s d db' h' (tr_keyspace_size s - (database_size db - database_size db'))"
  have "del_handler en c (ReqGet hdr key) s = Inr (0, Some [0, 1, 0], ?s)"
    using True c(1) r(1) by (simp add: del_handler_def get_key_def ack_reply_eq)
  then show ?thesis
    using serves_with_db [OF assms(1) r(2)] r(2) True by (intro exI [of _ 0] exI [of _ db'] exI [of _ ?s]) simp
next
  case False
  note c = servesD [OF assms(1)]
  have "(if c_string key = [] then {} else {c_string key}) = K" using False assms(2) by auto
  with remove_sound [OF c(2), of "c_string key"] obtain b db' h' where r:
    "database_remove db (c_string key) (tr_items s) = Inr (b, db', h')" "db_without K db (tr_items s) db' h'"
    "b \<longleftrightarrow> c_string key \<noteq> [] \<and> db_view db (tr_items s) (c_string key) \<noteq> None"
    by auto
  let ?s = "with_db s d db' h' (tr_keyspace_size s - (if b then 1 else 0))"
  have "del_handler en c (ReqGet hdr key) s = Inr (0, Some [0, 1, if b then 0 else 1], ?s)"
    using False c(1) r(1) by (simp add: del_handler_def get_key_def ack_reply_eq Let_def)
  then show ?thesis
    using serves_with_db [OF assms(1) r(2)] r(2,3) False by (intro exI [of _ "if b then 0 else 1"] exI [of _ db'] exI [of _ ?s]) simp
qed

lemma drop_expiring_none: "v_size (tr_expiring_keys s) = 0 \<Longrightarrow> drop_expiring item i s = Inr s"
  by (subst drop_expiring.simps) (simp add: vector_size_def)

text \<open>An item is alive for a reader that looks at the clock twice.\<close>

definition alive :: "env \<Rightarrow> db_item \<Rightarrow> bool" where
  "alive en item \<longleftrightarrow> \<not> (di_ttl item > -1 \<and> di_ttl item \<le> en_time en - di_ctime item) \<and>
     (di_ttl item = -1 \<or> di_ctime item + di_ttl item > en_now en)"

lemma view_map:
  assumes "db_sound db h" and "db_view db h key = Some item"
  obtains a where "trie_map (db_data db) key = Some a" and "h a = Some item"
  using assms(2) by (auto simp: db_view_def split: option.splits)

lemma get_handler_alive:
  assumes "serves s c d db" and "\<not> hdr_prefix hdr" and "hdr_opcode hdr = 2"
    and "db_view db (tr_items s) (c_string key) = Some item" and "alive en item" and "di_data item = Some v"
    and "length (c_string key) + length v + 6 < 128"
  shows "get_handler en c (ReqGet hdr key) s =
    Inr (0, Some (hdr # of_nat (length (c_string key) + length v + 6) # packi32 (word_of_int (di_ttl item)) @
      packi16 (of_nat (length (c_string key))) @ c_string key @ v), s)"
proof -
  note c = servesD [OF assms(1)]
  obtain a where a: "trie_map (db_data db) (c_string key) = Some a" "tr_items s a = Some item"
    using c(2) assms(4) by (rule view_map)
  have "database_search db (c_string key) (en_time en) (tr_items s) = Inr (Some a)"
    using assms(4,5) a(1) by (auto simp: search_sound [OF c(2)] alive_def)
  moreover have "(di_ttl item \<noteq> -1 \<and> di_ctime item + di_ttl item \<le> en_now en) = False"
    using assms(5) by (auto simp: alive_def)
  moreover have "unat (of_nat (length (c_string key)) :: u16) = length (c_string key)"
    using assms(7) by (simp add: unat_of_nat take_bit_nat_eq_self)
  ultimately show ?thesis
    using c(1) a(2) assms(2,3,6,7)
    by (auto simp: get_defs get_key_def obj_read_Some get_response_def pack_response_def pack_handlers_def
        pack_response_get_def pack_single_short)
qed

lemma get_handler_gone:
  assumes "serves s c d db" and "\<not> hdr_prefix hdr"
    and "case db_view db (tr_items s) (c_string key) of None \<Rightarrow> True
         | Some item \<Rightarrow> di_ttl item > -1 \<and> di_ttl item \<le> en_time en - di_ctime item"
  shows "get_handler en c (ReqGet hdr key) s = Inr (0, Some [0, 1, 1], s)"
  using servesD [OF assms(1)] assms(2,3)
  by (auto simp: get_defs get_key_def search_sound ack_reply_eq split: option.splits)

lemma get_handler_lapsed:
  assumes "serves s c d db" and "\<not> hdr_prefix hdr" and "v_size (tr_expiring_keys s) = 0"
    and "db_view db (tr_items s) (c_string key) = Some item"
    and "\<not> (di_ttl item > -1 \<and> di_ttl item \<le> en_time en - di_ctime item)"
    and "di_ttl item \<noteq> -1" and "di_ctime item + di_ttl item - en_now en \<le> 0"
  shows "\<exists>db' s'. get_handler en c (ReqGet hdr key) s = Inr (0, Some [0, 1, 1], s') \<and> serves s' c d db' \<and>
    db_without ({c_string key} - {[]}) db (tr_items s) db' (tr_items s') \<and>
    s' = with_db s d db' (tr_items s') (tr_keyspace_size s - 1)"
proof -
  note c = servesD [OF assms(1)]
  obtain a where a: "trie_map (db_data db) (c_string key) = Some a" "tr_items s a = Some item"
    using c(2) assms(4) by (rule view_map)
  have search: "database_search db (c_string key) (en_time en) (tr_items s) = Inr (Some a)"
    using assms(4,5) a(1) by (auto simp: search_sound [OF c(2)])
  have K: "(if c_string key = [] then {} else {c_string key}) = {c_string key} - {[]}" by auto
  from remove_sound [OF c(2), of "c_string key"] obtain b db' h' where r:
    "database_remove db (c_string key) (tr_items s) = Inr (b, db', h')"
    "db_without ({c_string key} - {[]}) db (tr_items s) db' h'"
    unfolding K by blast
  let ?s = "with_db s d db' h' (tr_keyspace_size s - 1)"
  have "drop_expired d (c_string key) a s = Inr ?s"
    using c(3) assms(3) r(1) by (simp add: drop_expired_def obj_read_Some drop_expiring_none)
  then have "get_handler en c (ReqGet hdr key) s = Inr (0, Some [0, 1, 1], ?s)"
    using search c(1) a(2) assms(2,6,7) by (simp add: get_defs get_key_def obj_read_Some ack_reply_eq)
  then show ?thesis
    using serves_with_db [OF assms(1) r(2)] r(2) by (intro exI [of _ db'] exI [of _ ?s]) simp
qed

end
