(* ===== verification/Tdb_Service.thy ===== *)
theory Tdb_Service
  imports Tdb_Server
begin

text \<open>
  The server as a transition system. A configuration is the state of \<^verbatim>\<open>src/server.c\<close> together with the
  requests that wait for a worker and the replies that wait to be written; a step is one turn of
  \<^verbatim>\<open>accept_loop\<close>, of a branch of \<^verbatim>\<open>io_worker\<close> or of a branch of \<^verbatim>\<open>worker\<close>, in any order. Handlers run
  one at a time, as the spin lock around their changes intends. From here come the properties
  that span the components: what holds in every configuration the server can reach, and what a request
  does on its way from the socket to the reply.
\<close>

type_synonym conf = "triedb \<times> (addr \<times> triedb_request) list \<times> (addr \<times> bstring option) list"

text \<open>\<^verbatim>\<open>tmalloc\<close> returns memory that is not in use.\<close>

definition fresh :: "env \<Rightarrow> triedb \<Rightarrow> bool" where
  "fresh en s \<longleftrightarrow> tr_items s (en_item en) = None \<and> tr_db_heap s (en_db en) = None \<and> tr_eks s (en_ek en) = None"

inductive server_step :: "conf \<Rightarrow> conf \<Rightarrow> bool" where
  accept: "accept_client en c fd uuid s = Inr s' \<Longrightarrow> tr_client_heap s c = None \<Longrightarrow>
    server_step (s, evs, outs) (s', evs, outs)"
| request: "io_read en c buf sk s = Inr (Some pkt, buf', sk', s') \<Longrightarrow>
    server_step (s, evs, outs) (s', evs @ [(c, pkt)], outs)"
| malformed: "io_read en c buf sk s = Inr (None, buf', sk', s') \<Longrightarrow>
    server_step (s, evs, outs) (s', evs, outs)"
| work: "worker_event en c pkt s = Inr (reply, s') \<Longrightarrow> fresh en s \<Longrightarrow>
    server_step (s, evs @ (c, pkt) # evs', outs) (s', evs @ evs', outs @ [(c, reply)])"
| reply: "io_write c reply ws s = Inr (out, s') \<Longrightarrow>
    server_step (s, evs, outs @ (c, reply) # outs') (s', evs, outs @ outs')"
| timer: "expire_keys now s = Inr s' \<Longrightarrow> server_step (s, evs, outs) (s', evs, outs)"
| bus: "bus_event dgram buf s = Inr (buf', s') \<Longrightarrow> server_step (s, evs, outs) (s', evs, outs)"
| hangup: "server_step (s, evs, outs) (s\<lparr> tr_closed := tr_closed s @ [fd] \<rparr>, evs, outs)"

inductive_cases server_stepE: "server_step conf conf'"

text \<open>
  The threads start on the state \<^verbatim>\<open>start_server\<close> sets up; joining a cluster and recording the time change
  two fields of its statistics.
\<close>

inductive reachable :: "env \<Rightarrow> config \<Rightarrow> conf \<Rightarrow> bool" for en :: env and cf :: config where
  start: "start_state en cf = Inr s \<Longrightarrow> reachable en cf (s, [], [])"
| started: "start_state en cf = Inr s \<Longrightarrow>
    reachable en cf (s\<lparr> tr_info := (tr_info s)\<lparr> nnodes := n, start_time := t \<rparr> \<rparr>, [], [])"
| step: "reachable en cf conf \<Longrightarrow> server_step conf conf' \<Longrightarrow> reachable en cf conf'"

subsection \<open>The invariant\<close>

definition db_good :: "database \<Rightarrow> db_item heap \<Rightarrow> bool" where
  "db_good db h \<longleftrightarrow> db_sound db h \<and> (\<forall>k i. db_view db h k = Some i \<longrightarrow> di_data i \<noteq> None)"

definition srv_inv :: "addr \<Rightarrow> triedb \<Rightarrow> bool" where
  "srv_inv d s \<longleftrightarrow> (\<exists>db. tr_db_heap s = [d \<mapsto> db] \<and> db_good db (tr_items s)) \<and>
     (\<forall>c cl. tr_client_heap s c = Some cl \<longrightarrow> c_db cl = Some d) \<and> v_size (tr_expiring_keys s) = 0 \<and>
     hashtable_get (tr_dbs s) (lit ''db0'') = Inr (Some d)"

text \<open>The requests \<^verbatim>\<open>unpack_triedb_request\<close> can produce from a packet \<^verbatim>\<open>recv_packet\<close> accepts.\<close>

definition wire_request :: "triedb_request \<Rightarrow> bool" where
  "wire_request pkt \<longleftrightarrow>
     (case pkt of
        ReqPut hdr ttl kl key val \<Rightarrow> hdr_opcode hdr = 1
      | ReqGet hdr key \<Rightarrow> hdr_opcode hdr = 2 \<or> hdr_opcode hdr = 3
      | ReqAck hdr rc \<Rightarrow> hdr_opcode hdr = 13
      | _ \<Rightarrow> False)"

definition conf_inv :: "addr \<Rightarrow> conf \<Rightarrow> bool" where
  "conf_inv d conf =
     (case conf of (s, evs, outs) \<Rightarrow> srv_inv d s \<and>
        (\<forall>(c, pkt) \<in> set evs. tr_client_heap s c \<noteq> None \<and> wire_request pkt) \<and>
        (\<forall>(c, reply) \<in> set outs. tr_client_heap s c \<noteq> None \<and> reply \<noteq> None))"

lemma unpack_wire:
  assumes "unpack_triedb_request raw hdr len = Inr pkt" and "1 \<le> hdr_opcode hdr" and "hdr_opcode hdr \<le> 13"
  shows "wire_request pkt"
proof -
  have "hdr_opcode hdr \<in> {1, 2, 3, 4, 5, 6, 7, 8, 9, 10, 11, 12, 13}" using assms(2,3) by (simp, arith)
  then show ?thesis
    using assms(1)
    by (auto simp: unpack_triedb_request_def unpack_handlers_def unpack_triedb_put_def unpack_triedb_get_def
        unpack_triedb_ack_def wire_request_def Let_def split: list.splits c_val.splits)
qed

lemma srv_invD:
  assumes "srv_inv d s" and "tr_client_heap s c \<noteq> None"
  obtains db where "serves s c d db" and "db_good db (tr_items s)" and "tr_db_heap s = [d \<mapsto> db]"
  using assms by (fastforce simp: srv_inv_def serves_def db_good_def)

lemma srv_inv_with_db:
  assumes "srv_inv d s" and "db_good db' h'"
  shows "srv_inv d (with_db s d db' h' n)"
  using assms by (auto simp: srv_inv_def)

lemma with_db_same: "tr_db_heap s = [d \<mapsto> db] \<Longrightarrow> with_db s d db h (tr_keyspace_size s) = s\<lparr> tr_items := h \<rparr>"
  by (cases s) simp

lemma db_good_without: "db_good db h \<Longrightarrow> db_without K db h db' h' \<Longrightarrow> db_good db' h'"
  using db_without_view [of K db h db' h'] by (auto simp: db_good_def db_without_def split: if_splits)

text \<open>A handler that keeps the invariant and everything the other parts of the server look at.\<close>

definition keeps :: "addr \<Rightarrow> triedb \<Rightarrow> triedb \<Rightarrow> bool" where
  "keeps d s s' \<longleftrightarrow> srv_inv d s' \<and> tr_client_heap s' = tr_client_heap s \<and>
     tr_dbs s' = tr_dbs s \<and> tr_clients s' = tr_clients s"

lemma keeps_with_db: "srv_inv d s \<Longrightarrow> db_good db' h' \<Longrightarrow> s' = with_db s d db' h' n \<Longrightarrow> keeps d s s'"
  by (simp add: keeps_def srv_inv_with_db)

lemma keeps_trans: "keeps d s s1 \<Longrightarrow> keeps d s1 s2 \<Longrightarrow> keeps d s s2"
  by (simp add: keeps_def)

lemma put_handler_keeps:
  assumes inv: "srv_inv d s" "tr_client_heap s c \<noteq> None" and "fresh en s"
  shows "\<exists>s'. put_handler en c (ReqPut hdr ttl kl key val) s = Inr (0, Some [0, 1, 0], s') \<and> keeps d s s'"
proof -
  obtain db where db: "serves s c d db" "db_good db (tr_items s)" "tr_db_heap s = [d \<mapsto> db]"
    using inv by (rule srv_invD)
  show ?thesis
  proof (cases "hdr_prefix hdr")
    case True
    from put_handler_prefix [OF db(1) True, of en ttl kl key val] obtain s' where s':
      "put_handler en c (ReqPut hdr ttl kl key val) s = Inr (0, Some [0, 1, 0], s')" "serves s' c d db"
      "\<And>k. db_view db (tr_items s') k = (if has_prefix (c_string key) k
         then map_option (\<lambda>i. i\<lparr> di_data := Some (c_string val), di_ttl := c_short ttl,
                di_lstime := key_clk db (en_clk en) k \<rparr>) (db_view db (tr_items s) k)
         else db_view db (tr_items s) k)" "s' = s\<lparr> tr_items := tr_items s' \<rparr>" by blast
    have "db_good db (tr_items s')"
      using s'(2,3) db(2) by (auto simp: db_good_def servesD split: if_splits)
    moreover have "s' = with_db s d db (tr_items s') (tr_keyspace_size s)"
      using s'(4) with_db_same [OF db(3), of "tr_items s'"] by (rule trans [OF _ sym])
    ultimately show ?thesis using s'(1) keeps_with_db [OF inv(1)] by blast
  next
    case False
    have "tr_items s (en_item en) = None" using assms(3) by (simp add: fresh_def)
    from put_handler_single [OF db(1) False this, of ttl kl key val] obtain db' s' where s':
      "put_handler en c (ReqPut hdr ttl kl key val) s = Inr (0, Some [0, 1, 0], s')" "serves s' c d db'"
      "db_view db' (tr_items s') = (db_view db (tr_items s))(c_string key \<mapsto> put_item en ttl val)"
      "s' = with_db s d db' ((tr_items s)(en_item en \<mapsto> put_item en ttl val)) (tr_keyspace_size s + 1)" by blast
    have "db_good db' (tr_items s')"
      using s'(2,3) db(2) by (auto simp: db_good_def servesD put_item_def)
    moreover have "tr_items s' = (tr_items s)(en_item en \<mapsto> put_item en ttl val)" using s'(4) by simp
    ultimately show ?thesis using s'(1,4) keeps_with_db [OF inv(1)] by metis
  qed
qed

lemma del_handler_keeps:
  assumes inv: "srv_inv d s" "tr_client_heap s c \<noteq> None"
  shows "\<exists>r s'. del_handler en c (ReqGet hdr key) s = Inr (0, Some [0, 1, r], s') \<and> keeps d s s'"
proof -
  obtain db where db: "serves s c d db" "db_good db (tr_items s)" using inv by (rule srv_invD)
  from del_handler_ok [OF db(1) refl, of en hdr key] obtain K r db' s' where s':
    "del_handler en c (ReqGet hdr key) s = Inr (0, Some [0, 1, r], s')"
    "db_without K db (tr_items s) db' (tr_items s')" "s' = with_db s d db' (tr_items s') (tr_keyspace_size s')"
    by blast
  then show ?thesis using keeps_with_db [OF inv(1) db_good_without [OF db(2) s'(2)] s'(3)] by blast
qed

lemma drop_expired_keeps:
  assumes inv: "srv_inv d s" and "drop_expired d key a s = Inr s'"
  shows "keeps d s s'"
proof -
  obtain db where db: "tr_db_heap s = [d \<mapsto> db]" "db_good db (tr_items s)" "v_size (tr_expiring_keys s) = 0"
    using inv by (auto simp: srv_inv_def)
  then have "db_sound db (tr_items s)" by (simp add: db_good_def)
  from remove_sound [OF this, of key] obtain b db' h' where r:
    "database_remove db key (tr_items s) = Inr (b, db', h')"
    "db_without (if key = [] then {} else {key}) db (tr_items s) db' h'" by blast
  then have "s' = with_db s d db' h' (tr_keyspace_size s - 1)"
    using assms(2) db(1,3) by (simp add: drop_expired_def obj_read_Some drop_expiring_none)
  then show ?thesis using keeps_with_db [OF inv db_good_without [OF db(2) r(2)]] by blast
qed

lemma get_loop_keeps: "get_loop now d key i v s = Inr (v', s') \<Longrightarrow> srv_inv d s \<Longrightarrow> keeps d s s'"
proof (induction now d key i v s rule: get_loop.induct)
  case (1 now d key i v s)
  show ?case
  proof (cases "i < vector_size v")
    case False
    then show ?thesis using 1(3,4) by (subst (asm) get_loop.simps) (simp add: keeps_def)
  next
    case True
    from 1(3) True obtain k a item where p: "vector_get v (int i) = Inr (Some (k, a))" "obj_read (tr_items s) a = Inr item"
      by (subst (asm) get_loop.simps) (auto split: option.splits)
    show ?thesis
    proof (cases "di_ttl item \<noteq> -1 \<and> di_ctime item + di_ttl item - now \<le> 0")
      case lapsed: True
      with 1(3) True p obtain s1 v1 where s1: "drop_expired d key a s = Inr s1" "vector_delete v (int i) = Inr v1"
        "get_loop now d key (i + 1) v1 s1 = Inr (v', s')"
        by (subst (asm) get_loop.simps) auto
      have "keeps d s s1" using 1(4) s1(1) by (rule drop_expired_keeps)
      moreover from this have "srv_inv d s1" by (simp add: keeps_def)
      then have "keeps d s1 s'" using 1(1) [OF True p(1) refl refl p(2) lapsed s1] by blast
      ultimately show ?thesis by (rule keeps_trans)
    next
      case alive: False
      with 1(3) True p have "get_loop now d key (i + 1) v s = Inr (v', s')"
        by (subst (asm) get_loop.simps) auto
      then show ?thesis using 1(2) [OF True p(1) refl refl p(2) alive] 1(4) by blast
    qed
  qed
qed

lemma keeps_refl: "srv_inv d s \<Longrightarrow> keeps d s s"
  by (simp add: keeps_def)

lemma get_handler_keeps:
  assumes inv: "srv_inv d s" "tr_client_heap s c \<noteq> None"
    and r: "get_handler en c (ReqGet hdr key) s = Inr (rc, reply, s')"
  shows "keeps d s s' \<and> reply \<noteq> None"
proof -
  obtain db where "serves s c d db" using inv by (rule srv_invD)
  then have c: "client_db s c = Inr (d, db)" by (rule servesD)
  show ?thesis
  proof (cases "hdr_prefix hdr")
    case True
    with r c obtain v v' r' where "database_prefix_search db (c_string key) = Inr (Some v)"
      "get_loop (en_now en) d (c_string key) 0 v s = Inr (v', s')" "reply = Some r'"
      by (auto simp: get_defs get_key_def split: option.splits)
    then show ?thesis using get_loop_keeps inv(1) by auto
  next
    case False
    with r c inv(1) show ?thesis
      by (auto simp: get_defs get_key_def ack_reply_eq split: option.splits if_splits
          intro!: keeps_refl) (erule (1) drop_expired_keeps)
  qed
qed

lemma wire_cases:
  assumes "wire_request pkt"
  obtains (put) hdr ttl kl key val where "pkt = ReqPut hdr ttl kl key val" and "hdr_opcode hdr = 1"
    | (get) hdr key where "pkt = ReqGet hdr key" and "hdr_opcode hdr = 2"
    | (del) hdr key where "pkt = ReqGet hdr key" and "hdr_opcode hdr = 3"
    | (infos) hdr rc where "pkt = ReqAck hdr rc" and "hdr_opcode hdr = 13"
  using assms by (cases pkt) (auto simp: wire_request_def)

lemmas dispatch = worker_event_def handlers_def

lemma worker_keeps:
  assumes inv: "srv_inv d s" "tr_client_heap s c \<noteq> None" and "wire_request pkt" and "fresh en s"
    and r: "worker_event en c pkt s = Inr (reply, s')"
  shows "keeps d s s' \<and> reply \<noteq> None"
  using assms(3)
proof (cases rule: wire_cases)
  case (put hdr ttl kl key val)
  then show ?thesis
    using put_handler_keeps [OF inv assms(4), of hdr ttl kl key val] r by (auto simp: dispatch)
next
  case get
  then show ?thesis
    using get_handler_keeps [OF inv] r by (auto simp: dispatch)
next
  case (del hdr key)
  then show ?thesis
    using del_handler_keeps [OF inv, of en hdr key] r by (auto simp: dispatch)
next
  case infos
  then show ?thesis
    using inv(1) r by (auto simp: dispatch info_handler_def keeps_def)
qed

lemma put_del_answered:
  assumes inv: "srv_inv d s" "tr_client_heap s c \<noteq> None" and "wire_request pkt" and "fresh en s"
    and "hdr_opcode (rq_header pkt) \<in> {1, 3}"
  shows "\<exists>r s'. worker_event en c pkt s = Inr (Some [0, 1, r], s') \<and> keeps d s s'"
  using assms(3)
proof (cases rule: wire_cases)
  case (put hdr ttl kl key val)
  then show ?thesis
    using put_handler_keeps [OF inv assms(4), of hdr ttl kl key val] inv(2)
    by (auto simp: dispatch obj_read_def keeps_def split: option.split)
next
  case (del hdr key)
  then show ?thesis
    using del_handler_keeps [OF inv, of en hdr key] inv(2)
    by (auto simp: dispatch obj_read_def keeps_def split: option.split)
qed (use assms(5) in auto)

subsection \<open>Connections\<close>

lemma recv_packet_header:
  assumes "recv_packet m buf sk = Inr r" and "rc_nbytes r \<notin> {- ERRCLIENTDC, - ERRPACKETERR, - ERRMAXREQSIZE}"
  shows "1 \<le> hdr_opcode (rc_header r) \<and> hdr_opcode (rc_header r) \<le> 13"
  using assms by (auto simp: recv_packet_def Let_def not_less split: prod.splits if_splits)

lemma read_data_state:
  assumes "read_data fd buf sk s = Inr (rc, req, buf', sk', s')"
  shows "tr_db_heap s' = tr_db_heap s" "tr_items s' = tr_items s" "tr_client_heap s' = tr_client_heap s"
    "tr_expiring_keys s' = tr_expiring_keys s" "tr_dbs s' = tr_dbs s" "tr_clients s' = tr_clients s"
  using assms by (auto simp: read_data_def Let_def split: if_splits)

text \<open>
  The event that a disconnection has released is gone when the time of the last action is recorded; without a
  disconnection the event leads to the client it was made for.
\<close>

lemma io_disconnect_gone:
  assumes "io_disconnect events payloads s = Inr (events', payloads', s')"
  shows "events' 0 = None"
  using assms by (auto simp: io_disconnect_def obj_free_def split: if_splits option.splits)

lemma io_read_eq:
  assumes "tr_client_heap s c = Some cl"
  shows "io_read en c buf sk s =
    bindE (read_data (c_fd cl) buf sk s) (\<lambda>(rc, pkt, buf', sk', s1).
      if rc = - ERRCLIENTDC then bindE (io_disconnect (io_event_new c) [0 \<mapsto> ()] s1) (\<lambda>_. Inl UseAfterFree)
      else Inr (pkt, buf', sk', s1\<lparr> tr_client_heap :=
        (tr_client_heap s1)(c \<mapsto> cl\<lparr> c_last_action_time := of_int (en_now en) \<rparr>) \<rparr>))"
proof (cases "read_data (c_fd cl) buf sk s")
  case (Inr r)
  obtain rc pkt buf' sk' s1 where r: "r = (rc, pkt, buf', sk', s1)" by (cases r)
  have cl: "tr_client_heap s1 c = Some cl" using read_data_state(3) [OF Inr [unfolded r]] assms by simp
  show ?thesis
  proof (cases "rc = - ERRCLIENTDC")
    case True
    then show ?thesis using Inr r assms
      by (cases "io_disconnect (io_event_new c) [0 \<mapsto> ()] s1")
         (auto simp: io_read_def obj_read_Some record_last_action_def obj_read_def dest: io_disconnect_gone)
  next
    case False
    then show ?thesis using Inr r assms cl by (simp add: io_read_def obj_read_Some record_last_action_def io_event_new_def)
  qed
qed (use assms in \<open>simp add: io_read_def obj_read_Some\<close>)

lemma io_read_split:
  assumes "io_read en c buf sk s = Inr (req, buf', sk', s')"
  obtains cl rc s1 where "tr_client_heap s c = Some cl" and "read_data (c_fd cl) buf sk s = Inr (rc, req, buf', sk', s1)"
    and "s' = s1\<lparr> tr_client_heap := (tr_client_heap s1)(c \<mapsto> cl\<lparr> c_last_action_time := of_int (en_now en) \<rparr>) \<rparr>"
proof (cases "tr_client_heap s c")
  case None
  then show ?thesis using assms by (simp add: io_read_def obj_read_def)
next
  case (Some cl)
  then show ?thesis using assms that io_read_eq [OF Some, of en buf sk] by (auto split: if_splits)
qed

lemma io_read_wire:
  assumes "io_read en c buf sk s = Inr (Some pkt, buf', sk', s')"
  shows "wire_request pkt"
proof -
  from assms obtain cl :: client and rc s1 where "read_data (c_fd cl) buf sk s = Inr (rc, Some pkt, buf', sk', s1)"
    by (blast elim: io_read_split)
  then obtain r where r: "recv_packet (cf_max_request_size (tr_conf s)) buf sk = Inr r"
    "rc_nbytes r \<notin> {- ERRCLIENTDC, - ERRPACKETERR, - ERRMAXREQSIZE}"
    "unpack_triedb_request (drop (rc_offset r) (rc_buffer r)) (rc_header r) (of_int (rc_nbytes r)) = Inr pkt"
    by (auto simp: read_data_def Let_def split: if_splits)
  show ?thesis using unpack_wire [OF r(3)] recv_packet_header [OF r(1,2)] by blast
qed

text \<open>What reading from a client can change besides statistics.\<close>

lemma io_read_keeps:
  assumes inv: "srv_inv d s" and r: "io_read en c buf sk s = Inr (req, buf', sk', s')"
  shows "srv_inv d s' \<and> dom (tr_client_heap s') = dom (tr_client_heap s) \<and> tr_client_heap s c \<noteq> None \<and>
    (\<forall>pkt. req = Some pkt \<longrightarrow> wire_request pkt) \<and> tr_dbs s' = tr_dbs s \<and> tr_clients s' = tr_clients s"
proof -
  from r obtain cl rc s1 where cl: "tr_client_heap s c = Some cl"
    "read_data (c_fd cl) buf sk s = Inr (rc, req, buf', sk', s1)"
    "s' = s1\<lparr> tr_client_heap := (tr_client_heap s1)(c \<mapsto> cl\<lparr> c_last_action_time := of_int (en_now en) \<rparr>) \<rparr>"
    by (rule io_read_split)
  note s1 = read_data_state [OF cl(2)]
  have "srv_inv d s'" using inv cl(1) unfolding cl(3) by (auto simp: srv_inv_def s1)
  moreover have "dom (tr_client_heap s') = dom (tr_client_heap s)" using cl(1) unfolding cl(3) by (auto simp: s1)
  moreover have "tr_dbs s' = tr_dbs s" "tr_clients s' = tr_clients s" unfolding cl(3) by (simp_all add: s1)
  ultimately show ?thesis using cl(1) r io_read_wire by blast
qed

lemma srv_invI:
  assumes "tr_db_heap s = [d \<mapsto> db]" and "db_good db (tr_items s)"
    and "\<And>c cl. tr_client_heap s c = Some cl \<Longrightarrow> c_db cl = Some d" and "v_size (tr_expiring_keys s) = 0"
    and "hashtable_get (tr_dbs s) (lit ''db0'') = Inr (Some d)"
  shows "srv_inv d s"
  using assms by (auto simp: srv_inv_def)

lemma first_put_table:
  fixes dtor :: "'v hashtable_entry \<Rightarrow> 'h \<Rightarrow> (int \<times> 'h) cres"
  shows "hashtable_put m (Suc f) (hashtable_new dtor) k v =
    Inr (store_entry (hashtable_new dtor) (hashtable_hash_int 4 k) k v, HASHTABLE_OK)"
    and "hashtable_hash_int 4 k < 4"
proof -
  let ?n = "hashtable_new dtor" and ?i = "hashtable_hash_int 4 k"
  show i: "?i < 4" by (simp add: hashtable_hash_int_def Let_def)
  have new: "table_size ?n = 4" "ht_size ?n = 0" "ht_entries ?n = replicate 4 no_entry"
    by (simp_all add: hashtable_new_def INITIAL_SIZE_def)
  have ix: "u64_to_int (of_nat ?i) = int ?i" using i by (intro u64_to_int_of_nat) simp
  have mx: "MAX_CHAIN_LENGTH = Suc 7" by (simp add: MAX_CHAIN_LENGTH_def)
  have "hashtable_hash ?n k = Inr (int ?i)"
    using i ix by (simp add: hashtable_hash_def new mx entry_at_def no_entry_def del: Suc_numeral)
  then show "hashtable_put m (Suc f) ?n k v = Inr (store_entry ?n ?i k v, HASHTABLE_OK)"
    using i by (simp add: HASHTABLE_FULL_def entry_at_def new no_entry_def Let_def)
qed

lemma first_put_eq:
  fixes dtor :: "'v hashtable_entry \<Rightarrow> 'h \<Rightarrow> (int \<times> 'h) cres"
  shows "\<exists>t. hashtable_put m (Suc f) (hashtable_new dtor) k v = Inr (t, HASHTABLE_OK) \<and> hashtable_get t k = Inr v"
proof -
  let ?n = "hashtable_new dtor" and ?i = "hashtable_hash_int 4 k"
  have new: "table_size ?n = 4" "ht_entries ?n = replicate 4 no_entry" by (simp_all add: hashtable_new_def INITIAL_SIZE_def)
  have mx: "MAX_CHAIN_LENGTH = Suc 7" by (simp add: MAX_CHAIN_LENGTH_def)
  have "hashtable_get (store_entry ?n ?i k v) k = Inr v"
    using first_put_table(2) [of k] by (simp add: hashtable_get_def new mx entry_at_def STREQ_iff del: Suc_numeral)
  with first_put_table(1) show ?thesis by blast
qed

lemma first_put:
  fixes dtor :: "'v hashtable_entry \<Rightarrow> 'h \<Rightarrow> (int \<times> 'h) cres"
  assumes "hashtable_put m f (hashtable_new dtor) k v = Inr (t, st)"
  shows "hashtable_get t k = Inr v"
proof (cases f)
  case 0
  then show ?thesis using assms by simp
next
  case (Suc n)
  then show ?thesis using assms first_put_eq [of m n dtor k v] by auto
qed

lemma start_inv:
  assumes "start_state en cf = Inr s"
  shows "srv_inv (en_db en) s"
proof -
  from assms obtain dbs st where "hashtable_put (en_calloc_max en) (en_fuel en) (hashtable_new database_destructor)
      (lit ''db0'') (Some (en_db en)) = Inr (dbs, st)"
    and s: "tr_dbs s = dbs" "tr_expiring_keys s = vector_new" "tr_client_heap s = Map.empty" "tr_items s = Map.empty"
      "tr_db_heap s = [en_db en \<mapsto> database_init (lit ''db0'') (Some trie_node_destructor)]"
    by (auto simp: start_state_def)
  then have "hashtable_get dbs (lit ''db0'') = Inr (Some (en_db en))" by (blast intro: first_put)
  moreover have "db_good (database_init (lit ''db0'') (Some trie_node_destructor)) (tr_items s)"
    using db_ok_sound [OF database_init_ok] s(4) by (simp add: db_good_def db_view_def split: option.split)
  ultimately show ?thesis using s by (intro srv_invI) (auto simp: vector_new_def)
qed

lemma srv_inv_same:
  assumes "srv_inv d s" and "tr_db_heap s' = tr_db_heap s" and "tr_items s' = tr_items s"
    and "tr_expiring_keys s' = tr_expiring_keys s" and "tr_dbs s' = tr_dbs s"
    and "\<And>c cl. tr_client_heap s' c = Some cl \<Longrightarrow> tr_client_heap s c = Some cl \<or> c_db cl = Some d"
  shows "srv_inv d s'"
  using assms unfolding srv_inv_def by metis

lemma accept_keeps:
  assumes "srv_inv d s" and "accept_client en c fd uuid s = Inr s'"
  shows "srv_inv d s' \<and> dom (tr_client_heap s) \<subseteq> dom (tr_client_heap s')"
proof -
  have "hashtable_get (tr_dbs s) (lit ''db0'') = Inr (Some d)" using assms(1) by (simp add: srv_inv_def)
  then have s': "tr_db_heap s' = tr_db_heap s" "tr_items s' = tr_items s" "tr_expiring_keys s' = tr_expiring_keys s"
    "tr_dbs s' = tr_dbs s" "\<exists>cl. tr_client_heap s' = (tr_client_heap s)(c \<mapsto> cl) \<and> c_db cl = Some d"
    using assms(2) by (auto simp: accept_client_def Let_def)
  then show ?thesis
    by (intro conjI srv_inv_same [OF assms(1) s'(1-4)]) (auto split: if_splits)
qed

lemma io_write_keeps:
  assumes "srv_inv d s" and "io_write c reply ws s = Inr (out, s')"
  shows "keeps d s s'"
proof -
  have s': "tr_db_heap s' = tr_db_heap s" "tr_items s' = tr_items s" "tr_expiring_keys s' = tr_expiring_keys s"
    "tr_dbs s' = tr_dbs s" "tr_client_heap s' = tr_client_heap s" "tr_clients s' = tr_clients s"
    using assms(2) by (auto simp: io_write_def Let_def split: option.splits prod.splits)
  then show ?thesis
    unfolding keeps_def by (intro conjI srv_inv_same [OF assms(1) s'(1-4)]) auto
qed

lemma expire_idle: "v_size (tr_expiring_keys s) = 0 \<Longrightarrow> expire_keys now s = Inr s"
  by (simp add: expire_keys_def vector_size_def)

lemma conf_inv_change:
  assumes "conf_inv d (s, evs, outs)" and "srv_inv d s'" and "dom (tr_client_heap s) \<subseteq> dom (tr_client_heap s')"
  shows "conf_inv d (s', evs, outs)"
  using assms unfolding conf_inv_def by blast

lemma step_inv:
  assumes "server_step conf conf'" and "conf_inv d conf"
  shows "conf_inv d conf'"
  using assms
proof cases
  case (accept en c fd uuid s s' evs outs)
  then have inv: "conf_inv d (s, evs, outs)" "srv_inv d s" using assms(2) by (auto simp: conf_inv_def)
  show ?thesis using conf_inv_change [OF inv(1)] accept_keeps [OF inv(2) accept(3)] accept(2) by blast
next
  case (request en c buf sk s pkt buf' sk' s' evs outs)
  then have inv: "conf_inv d (s, evs, outs)" "srv_inv d s" using assms(2) by (auto simp: conf_inv_def)
  note r = io_read_keeps [OF inv(2) request(3)]
  then have "conf_inv d (s', evs, outs)" using conf_inv_change [OF inv(1)] by auto
  then show ?thesis using r request(2) by (auto simp: conf_inv_def)
next
  case (malformed en c buf sk s buf' sk' s' evs outs)
  then have inv: "conf_inv d (s, evs, outs)" "srv_inv d s" using assms(2) by (auto simp: conf_inv_def)
  show ?thesis using conf_inv_change [OF inv(1)] io_read_keeps [OF inv(2) malformed(3)] malformed(2) by auto
next
  case (work en c pkt s reply s' evs evs' outs)
  have inv: "srv_inv d s" "tr_client_heap s c \<noteq> None" "wire_request pkt"
    using assms(2) work(1) by (auto simp: conf_inv_def)
  note r = worker_keeps [OF inv work(4,3)]
  have "conf_inv d (s, evs @ (c, pkt) # evs', outs)" using assms(2) work(1) by simp
  with r have "conf_inv d (s', evs @ (c, pkt) # evs', outs)" by (auto simp: keeps_def elim: conf_inv_change)
  then show ?thesis using r work(2) by (auto simp: conf_inv_def)
next
  case (reply c r ws s out s' evs outs outs')
  then have inv: "conf_inv d (s, evs, outs @ (c, r) # outs')" "srv_inv d s" using assms(2) by (auto simp: conf_inv_def)
  have "conf_inv d (s', evs, outs @ (c, r) # outs')"
    using conf_inv_change [OF inv(1)] io_write_keeps [OF inv(2) reply(3)] by (simp add: keeps_def)
  then show ?thesis using reply(2) by (auto simp: conf_inv_def)
next
  case (timer now s s' evs outs)
  then have "v_size (tr_expiring_keys s) = 0" using assms(2) by (auto simp: conf_inv_def srv_inv_def)
  then show ?thesis using timer expire_idle [of s now] assms(2) by simp
next
  case (bus dgram buf s buf' s' evs outs)
  then have inv: "conf_inv d (s, evs, outs)" "srv_inv d s" using assms(2) by (auto simp: conf_inv_def)
  from bus(3) obtain i where "s' = s\<lparr> tr_info := i \<rparr>"
    by (auto simp: bus_event_def Let_def split: option.splits)
  then have "srv_inv d s'" "tr_client_heap s' = tr_client_heap s" using inv(2) by (simp_all add: srv_inv_def)
  then show ?thesis using bus(2) conf_inv_change [OF inv(1)] by simp
next
  case (hangup s evs outs fd)
  then show ?thesis using assms(2) by (simp add: conf_inv_def srv_inv_def)
qed

lemma reachable_inv: "reachable en cf conf \<Longrightarrow> conf_inv (en_db en) conf"
proof (induction rule: reachable.induct)
  case (start s)
  then show ?case using start_inv by (simp add: conf_inv_def)
next
  case (started s t n)
  then show ?case using start_inv by (fastforce simp: conf_inv_def srv_inv_def)
next
  case (step conf conf')
  then show ?case using step_inv by blast
qed

subsection \<open>A request from the socket\<close>

lemma io_read_short:
  assumes "tr_client_heap s c = Some cl" and "quiet sk" and "pending sk = hdr # of_nat (length payload) # payload @ extra"
    and "5 \<le> length payload" and "length payload < 128" and "1 \<le> hdr_opcode hdr" and "hdr_opcode hdr \<le> 13"
    and "of_nat (length payload) \<le> cf_max_request_size (tr_conf s)" and "length payload + 3 \<le> length buf"
  shows "\<exists>rest buf' sk' s'. pending sk' = drop 1 extra \<and>
    io_read en c buf sk s =
      bindE (unpack_triedb_request (payload @ take 1 extra @ rest) hdr (of_nat (length (payload @ take 1 extra))))
        (\<lambda>pkt. Inr (Some pkt, buf', sk', s')) \<and>
    s' = s\<lparr> tr_info := (tr_info s)\<lparr> bytes_recv := bytes_recv (tr_info s) + of_nat (length (payload @ take 1 extra)) \<rparr>,
            tr_client_heap := (tr_client_heap s)(c \<mapsto> cl\<lparr> c_last_action_time := of_int (en_now en) \<rparr>) \<rparr>"
proof -
  from recv_packet_short [OF assms(2-9)] obtain r rest where r:
    "recv_packet (cf_max_request_size (tr_conf s)) buf sk = Inr r" "rc_nbytes r = int (length (payload @ take 1 extra))"
    "rc_header r = hdr" "rc_offset r = 2" "rc_close r = False" "drop 2 (rc_buffer r) = payload @ take 1 extra @ rest"
    "pending (rc_socket r) = drop 1 extra" by blast
  have n: "rc_nbytes r \<noteq> - ERRCLIENTDC" "rc_nbytes r \<noteq> - ERRMAXREQSIZE" "rc_nbytes r \<noteq> - ERRPACKETERR"
    unfolding r(2) by (simp_all add: ERRCLIENTDC_def ERRMAXREQSIZE_def ERRPACKETERR_def)
  let ?i = "(tr_info s)\<lparr> bytes_recv := bytes_recv (tr_info s) + of_nat (length (payload @ take 1 extra)) \<rparr>"
  have rd: "read_data (c_fd cl) buf sk s =
      bindE (unpack_triedb_request (payload @ take 1 extra @ rest) hdr (of_nat (length (payload @ take 1 extra))))
        (\<lambda>pkt. Inr (0, Some pkt, rc_buffer r, rc_socket r, s\<lparr> tr_info := ?i \<rparr>))"
    using n r by (simp add: read_data_def r(1) Let_def)
  let ?s = "s\<lparr> tr_info := ?i, tr_client_heap := (tr_client_heap s)(c \<mapsto> cl\<lparr> c_last_action_time := of_int (en_now en) \<rparr>) \<rparr>"
  have "io_read en c buf sk s =
      bindE (unpack_triedb_request (payload @ take 1 extra @ rest) hdr (of_nat (length (payload @ take 1 extra))))
        (\<lambda>pkt. Inr (Some pkt, rc_buffer r, rc_socket r, ?s))"
    using rd by (simp add: io_read_eq [OF assms(1)] bindE_assoc ERRCLIENTDC_def)
  with r(7) show ?thesis by blast
qed

subsection \<open>The abstract server\<close>

type_synonym server_map = "cstring \<rightharpoonup> cstring option \<times> int \<times> int"

definition map_of_server :: "addr \<Rightarrow> triedb \<Rightarrow> server_map" where
  "map_of_server d s = (case tr_db_heap s d of None \<Rightarrow> Map.empty | Some db \<Rightarrow> db_entry (db, tr_items s))"

text \<open>What a request means for the map: a value, a TTL and a creation time for each key.\<close>

definition spec_put :: "env \<Rightarrow> byte \<Rightarrow> int \<Rightarrow> cstring \<Rightarrow> cstring \<Rightarrow> server_map \<Rightarrow> server_map" where
  "spec_put en hdr ttl key val m =
     (if hdr_prefix hdr
      then (\<lambda>k. if has_prefix key k then map_option (\<lambda>(v, t, ct). (Some val, c_short ttl, ct)) (m k) else m k)
      else m(key \<mapsto> (Some val, c_short ttl, en_time en)))"

definition spec_del :: "byte \<Rightarrow> cstring \<Rightarrow> server_map \<Rightarrow> server_map" where
  "spec_del hdr key m = m |` (- ((if hdr_prefix hdr then {k. has_prefix key k} else {key}) - {[]}))"

definition spec_get :: "env \<Rightarrow> cstring \<Rightarrow> server_map \<Rightarrow> server_map" where
  "spec_get en key m =
     (case m key of
        None \<Rightarrow> m
      | Some (v, t, ct) \<Rightarrow>
          if \<not> (t > -1 \<and> t \<le> en_time en - ct) \<and> t \<noteq> -1 \<and> ct + t \<le> en_now en then m |` (- ({key} - {[]})) else m)"

definition spec_request :: "env \<Rightarrow> triedb_request \<Rightarrow> server_map \<Rightarrow> server_map" where
  "spec_request en pkt m =
     (case pkt of
        ReqPut hdr ttl kl key val \<Rightarrow> spec_put en hdr ttl (c_string key) (c_string val) m
      | ReqGet hdr key \<Rightarrow> if hdr_opcode hdr = 3 then spec_del hdr (c_string key) m else spec_get en (c_string key) m
      | _ \<Rightarrow> m)"

lemma map_of_server_eq: "tr_db_heap s d = Some db \<Longrightarrow> map_of_server d s = db_entry (db, tr_items s)"
  by (simp add: map_of_server_def)

lemma db_entry_without:
  "db_without K db h db' h' \<Longrightarrow> db_entry (db', h') = db_entry (db, h) |` (- K)"
  using db_without_view [of K db h db' h'] by (auto simp: db_entry_def restrict_map_def fun_eq_iff)

lemma put_refines:
  assumes inv: "srv_inv d s" "tr_client_heap s c \<noteq> None" and "fresh en s"
    and r: "put_handler en c (ReqPut hdr ttl kl key val) s = Inr (rc, reply, s')"
  shows "map_of_server d s' = spec_put en hdr ttl (c_string key) (c_string val) (map_of_server d s)"
proof -
  obtain db where db: "serves s c d db" using inv by (rule srv_invD)
  note m = map_of_server_eq [OF servesD(3) [OF db]]
  show ?thesis
  proof (cases "hdr_prefix hdr")
    case True
    from put_handler_prefix [OF db True, of en ttl kl key val] r have s': "serves s' c d db"
      "\<And>k. db_view db (tr_items s') k = (if has_prefix (c_string key) k
         then map_option (\<lambda>i. i\<lparr> di_data := Some (c_string val), di_ttl := c_short ttl,
                di_lstime := key_clk db (en_clk en) k \<rparr>) (db_view db (tr_items s) k)
         else db_view db (tr_items s) k)" by auto
    then show ?thesis
      unfolding m map_of_server_eq [OF servesD(3) [OF s'(1)]]
      by (intro ext) (simp add: True spec_put_def db_entry_def option.map_comp o_def split_beta)
  next
    case False
    have "tr_items s (en_item en) = None" using assms(3) by (simp add: fresh_def)
    from put_handler_single [OF db False this, of ttl kl key val] r obtain db' where s': "serves s' c d db'"
      "db_view db' (tr_items s') = (db_view db (tr_items s))(c_string key \<mapsto> put_item en ttl val)" by auto
    then show ?thesis
      unfolding m map_of_server_eq [OF servesD(3) [OF s'(1)]]
      by (intro ext) (simp add: False spec_put_def db_entry_def put_item_def)
  qed
qed

lemma del_refines:
  assumes inv: "srv_inv d s" "tr_client_heap s c \<noteq> None"
    and r: "del_handler en c (ReqGet hdr key) s = Inr (rc, reply, s')"
  shows "map_of_server d s' = spec_del hdr (c_string key) (map_of_server d s)"
proof -
  obtain db where db: "serves s c d db" using inv by (rule srv_invD)
  let ?K = "if hdr_prefix hdr then {k. has_prefix (c_string key) k \<and> k \<noteq> []} else {c_string key} - {[]}"
  from del_handler_ok [OF db refl, of en hdr key] r obtain db' where s': "serves s' c d db'"
    "db_without ?K db (tr_items s) db' (tr_items s')" by auto
  have "?K = (if hdr_prefix hdr then {k. has_prefix (c_string key) k} else {c_string key}) - {[]}" by auto
  then show ?thesis
    using db_entry_without [OF s'(2)] map_of_server_eq [OF servesD(3) [OF db]]
      map_of_server_eq [OF servesD(3) [OF s'(1)]] by (simp add: spec_del_def)
qed

lemma get_refines:
  assumes inv: "srv_inv d s" "tr_client_heap s c \<noteq> None" and "\<not> hdr_prefix hdr"
    and r: "get_handler en c (ReqGet hdr key) s = Inr (rc, reply, s')"
  shows "map_of_server d s' = spec_get en (c_string key) (map_of_server d s)"
proof -
  obtain db where db: "serves s c d db" using inv by (rule srv_invD)
  have v: "v_size (tr_expiring_keys s) = 0" using inv(1) by (simp add: srv_inv_def)
  note m = map_of_server_eq [OF servesD(3) [OF db]]
  show ?thesis
  proof (cases "db_view db (tr_items s) (c_string key)")
    case None
    then show ?thesis using get_handler_gone [OF db assms(3), where key = key and en = en] r
      by (simp add: m spec_get_def db_entry_def map_of_server_eq [OF servesD(3) [OF db]])
  next
    case (Some item)
    let ?lapsed = "\<not> (di_ttl item > -1 \<and> di_ttl item \<le> en_time en - di_ctime item) \<and> di_ttl item \<noteq> -1 \<and>
      di_ctime item + di_ttl item \<le> en_now en"
    show ?thesis
    proof (cases ?lapsed)
      case True
      with get_handler_lapsed [OF db assms(3) v Some, of en] r obtain db' where s': "serves s' c d db'"
        "db_without ({c_string key} - {[]}) db (tr_items s) db' (tr_items s')" by auto
      show ?thesis
        using True Some db_entry_without [OF s'(2)] map_of_server_eq [OF servesD(3) [OF s'(1)]]
        by (simp add: m spec_get_def db_entry_def)
    next
      case False
      have "s' = s"
        using r False servesD [OF db] Some
        by (auto simp: get_defs get_key_def assms(3) search_sound ack_reply_eq db_view_def
            split: option.splits if_splits)
      then show ?thesis using False Some by (auto simp: m spec_get_def db_entry_def)
    qed
  qed
qed

subsection \<open>A server with one client\<close>

text \<open>Concrete circumstances in which the hypotheses below hold.\<close>

definition demo_env :: "int \<Rightarrow> addr \<Rightarrow> env" where
  "demo_env t a =
     \<lparr> en_time = t, en_now = t, en_clk = \<lambda>_. t, en_item = a, en_db = a, en_ek = a, en_depth = 4,
       en_calloc_max = 64, en_fuel = 1 \<rparr>"

definition demo_config :: config where
  "demo_config =
     \<lparr> cf_version = lit ''0'', cf_mode = 0, cf_run = 0, cf_loglevel = 0, cf_epoll_timeout = 0, cf_socket_family = 1,
       cf_logpath = lit ''l'', cf_hostname = lit ''h'', cf_port = lit ''1'', cf_max_memory = 1024,
       cf_mem_reclaim_time = 0, cf_max_request_size = 1024, cf_tcp_backlog = 1 \<rparr>"

lemma demo_accept:
  "\<exists>s0 s. start_state (demo_env 0 0) demo_config = Inr s0 \<and> tr_client_heap s0 = Map.empty \<and> tr_conf s0 = demo_config \<and>
     accept_client (demo_env 0 0) 7 9 (lit ''u'') s0 = Inr s \<and> (\<exists>cl. tr_client_heap s 7 = Some cl \<and> c_fd cl = 9) \<and>
     tr_items s = Map.empty \<and> tr_eks s = Map.empty \<and> tr_conf s = demo_config \<and> tr_closed s = tr_closed s0 \<and>
     tr_db_heap s = [0 \<mapsto> database_init (lit ''db0'') (Some trie_node_destructor)]"
proof -
  let ?d = "database_init (lit ''db0'') (Some trie_node_destructor)"
  let ?en = "demo_env 0 0"
  obtain s0 where s0: "start_state ?en demo_config = Inr s0" "tr_clients s0 = hashtable_new client_destructor"
    "tr_items s0 = Map.empty" "tr_eks s0 = Map.empty" "tr_conf s0 = demo_config" "tr_client_heap s0 = Map.empty"
    "tr_db_heap s0 = [0 \<mapsto> ?d]"
    using first_put_eq [of 64 0 database_destructor "lit ''db0''" "Some 0"]
    by (auto simp: start_state_def demo_env_def)
  have "hashtable_get (tr_dbs s0) (lit ''db0'') = Inr (Some 0)"
    using start_inv [OF s0(1)] by (simp add: srv_inv_def demo_env_def)
  then obtain s cl where "accept_client ?en 7 9 (lit ''u'') s0 = Inr s" "tr_client_heap s 7 = Some cl" "c_fd cl = 9"
    "tr_items s = Map.empty" "tr_eks s = Map.empty" "tr_conf s = demo_config" "tr_db_heap s = [0 \<mapsto> ?d]" "tr_closed s = tr_closed s0"
    using s0 first_put_eq [of 64 0 client_destructor "lit ''u''" "Some 7"]
    by (auto simp: accept_client_def demo_env_def Let_def)
  with s0 show ?thesis by blast
qed

lemma demo_server:
  "\<exists>s. reachable (demo_env 0 0) demo_config (s, [], []) \<and> (\<exists>cl. tr_client_heap s 7 = Some cl) \<and>
     tr_items s = Map.empty \<and> tr_eks s = Map.empty \<and> tr_conf s = demo_config \<and> map_of_server 0 s = Map.empty \<and>
     fresh (demo_env t 5) s \<and> tr_db_heap s = [0 \<mapsto> database_init (lit ''db0'') (Some trie_node_destructor)]"
proof -
  let ?d = "database_init (lit ''db0'') (Some trie_node_destructor)"
  let ?en = "demo_env 0 0"
  obtain s0 s where s0: "start_state ?en demo_config = Inr s0" "tr_client_heap s0 = Map.empty"
    and s: "accept_client ?en 7 9 (lit ''u'') s0 = Inr s" "\<exists>cl. tr_client_heap s 7 = Some cl"
    "tr_items s = Map.empty" "tr_eks s = Map.empty" "tr_conf s = demo_config" "tr_db_heap s = [0 \<mapsto> ?d]"
    using demo_accept by blast
  have "reachable ?en demo_config (s, [], [])"
    using reachable.step [OF reachable.start [OF s0(1)] server_step.accept [OF s(1)]] s0(2) by simp
  moreover have "map_of_server 0 s = Map.empty"
    using s(6) db_entry_empty by (simp add: map_of_server_def)
  ultimately show ?thesis using s by (auto simp: fresh_def demo_env_def)
qed

subsection \<open>Properties\<close>

text \<open>
  C4. In every configuration the server can reach, under any interleaving of connections, requests,
  replies and timer events, there is one database, the one created at the start; it is well formed and
  owns its items; every client works on it; no key waits for expiration, so the timer never removes
  anything; and every waiting request and every waiting reply belongs to a client that is still there,
  the reply being set.
\<close>

theorem server_invariant:
  assumes "reachable en cf (s, evs, outs)"
  shows "(\<exists>db. tr_db_heap s = [en_db en \<mapsto> db] \<and> db_sound db (tr_items s)) \<and>
    (\<forall>c cl. tr_client_heap s c = Some cl \<longrightarrow> c_db cl = Some (en_db en)) \<and> expire_keys now s = Inr s \<and>
    (\<forall>(c, pkt) \<in> set evs. tr_client_heap s c \<noteq> None) \<and>
    (\<forall>(c, reply) \<in> set outs. tr_client_heap s c \<noteq> None \<and> reply \<noteq> None)"
  using reachable_inv [OF assms] expire_idle [of s now]
  by (auto simp: conf_inv_def srv_inv_def db_good_def)

theorem server_invariant_witness:
  "\<exists>s cl. reachable (demo_env 0 0) demo_config (s, [], []) \<and> tr_client_heap s 7 = Some cl \<and> c_db cl = Some 0 \<and>
     expire_keys 99 s = Inr s"
proof -
  obtain s cl where s: "reachable (demo_env 0 0) demo_config (s, [], [])" "tr_client_heap s 7 = Some cl"
    using demo_server by blast
  from server_invariant [OF s(1), of 99] s show ?thesis by (auto simp: demo_env_def)
qed

text \<open>
  A waiting PUT or DEL is always answered: in every reachable configuration a worker can take the
  request without a fault, the reply it leaves is an acknowledgement, and writing it to a socket that
  takes three bytes removes it again and sends exactly these bytes.
\<close>

theorem server_answers_put_del:
  assumes "reachable en cf (s, evs @ (c, pkt) # evs', outs)" and "hdr_opcode (rq_header pkt) \<in> {1, 3}" and "fresh en' s"
  shows "\<exists>r s' s''. worker_event en' c pkt s = Inr (Some [0, 1, r], s') \<and>
    server_step (s, evs @ (c, pkt) # evs', outs) (s', evs @ evs', outs @ [(c, Some [0, 1, r])]) \<and>
    io_write c (Some [0, 1, r]) [Wrote 3] s' = Inr ([0, 1, r], s'') \<and>
    server_step (s', evs @ evs', outs @ [(c, Some [0, 1, r])]) (s'', evs @ evs', outs @ [])"
proof -
  have inv: "srv_inv (en_db en) s" "tr_client_heap s c \<noteq> None" "wire_request pkt"
    using reachable_inv [OF assms(1)] by (auto simp: conf_inv_def)
  from put_del_answered [OF inv assms(3,2)] obtain r s' where s': "worker_event en' c pkt s = Inr (Some [0, 1, r], s')" "tr_client_heap s' = tr_client_heap s"
    by (auto simp: keeps_def)
  from inv(2) s'(2) obtain s'' where "io_write c (Some [0, 1, r]) [Wrote 3] s' = Inr ([0, 1, r], s'')"
    by (auto simp: io_write_def obj_read_def send_bytes_def Let_def)
  with s'(1) assms(3) show ?thesis by (blast intro: server_step.work server_step.reply)
qed

lemma map_of_server_cong:
  "tr_db_heap s' = tr_db_heap s \<Longrightarrow> tr_items s' = tr_items s \<Longrightarrow> map_of_server d s' = map_of_server d s"
  by (simp only: map_of_server_def)

text \<open>The client sends a PUT of the key \<^verbatim>\<open>a\<close>.\<close>

lemma demo_put_read:
  assumes "tr_client_heap s 7 = Some cl" and "tr_conf s = demo_config"
  shows "\<exists>buf' sk' s'. io_read (demo_env 1 0) 7 (replicate 64 0) [IoBytes [0x10, 8, 255, 255, 255, 255, 0, 1, 97, 49]] s =
      Inr (Some (ReqPut 0x10 (- 1) 1 [97] [49]), buf', sk', s') \<and> tr_db_heap s' = tr_db_heap s \<and> tr_items s' = tr_items s \<and>
    tr_eks s' = tr_eks s \<and> tr_conf s' = tr_conf s \<and> tr_client_heap s' 7 \<noteq> None"
proof -
  let ?p = "[255, 255, 255, 255, 0, 1, 97, 49] :: bytes"
  let ?sk = "[IoBytes (0x10 # 8 # ?p)]"
  have "hdr_opcode 0x10 = 1" by code_simp
  then obtain rest buf' sk' s' where r: "io_read (demo_env 1 0) 7 (replicate 64 0) ?sk s =
      bindE (unpack_triedb_request (?p @ rest) 0x10 8) (\<lambda>pkt. Inr (Some pkt, buf', sk', s'))"
    "s' = s\<lparr> tr_info := (tr_info s)\<lparr> bytes_recv := bytes_recv (tr_info s) + 8 \<rparr>,
      tr_client_heap := (tr_client_heap s)(7 \<mapsto> cl\<lparr> c_last_action_time := of_int (en_now (demo_env 1 0)) \<rparr>) \<rparr>"
    using io_read_short [OF assms(1), of ?sk "0x10" ?p "[]" "replicate 64 0" "demo_env 1 0"] assms(2)
    by (auto simp: demo_config_def)
  have "packi32 (word_of_int (- 1)) = [255, 255, 255, 255]" "packi16 1 = [0, 1]" by code_simp+
  then have "unpack_triedb_request (?p @ rest) 0x10 8 = Inr (ReqPut 0x10 (- 1) 1 [97] [49])"
    using unpack_triedb_put_eq [of "- 1" "[97]" "[49]" rest "0x10"] \<open>hdr_opcode 0x10 = 1\<close>
    by (simp add: unpack_triedb_request_def unpack_handlers_def)
  with r(1) have "io_read (demo_env 1 0) 7 (replicate 64 0) ?sk s = Inr (Some (ReqPut 0x10 (- 1) 1 [97] [49]), buf', sk', s')"
    by simp
  moreover have "tr_db_heap s' = tr_db_heap s" "tr_items s' = tr_items s" "tr_eks s' = tr_eks s" "tr_conf s' = tr_conf s"
    "tr_client_heap s' 7 \<noteq> None" using r(2) by simp_all
  ultimately show ?thesis by blast
qed

lemma demo_request:
  "\<exists>s. reachable (demo_env 0 0) demo_config (s, [(7, ReqPut 0x10 (- 1) 1 [97] [49])], []) \<and> fresh (demo_env 3 5) s \<and>
     tr_client_heap s 7 \<noteq> None \<and> map_of_server 0 s = Map.empty \<and> tr_conf s = demo_config \<and> tr_items s = Map.empty \<and>
     tr_db_heap s = [0 \<mapsto> database_init (lit ''db0'') (Some trie_node_destructor)]"
proof -
  obtain s cl where s: "reachable (demo_env 0 0) demo_config (s, [], [])" "tr_client_heap s 7 = Some cl"
    "tr_conf s = demo_config" "fresh (demo_env 3 5) s" "map_of_server 0 s = Map.empty" "tr_items s = Map.empty"
    "tr_db_heap s = [0 \<mapsto> database_init (lit ''db0'') (Some trie_node_destructor)]" using demo_server by blast
  from demo_put_read [OF s(2,3)] obtain sk buf' sk' s' where
    r: "io_read (demo_env 1 0) 7 (replicate 64 0) sk s = Inr (Some (ReqPut 0x10 (- 1) 1 [97] [49]), buf', sk', s')"
    and same: "tr_db_heap s' = tr_db_heap s" "tr_items s' = tr_items s" "tr_eks s' = tr_eks s" "tr_conf s' = tr_conf s"
    "tr_client_heap s' 7 \<noteq> None" by blast
  from reachable.step [OF s(1) server_step.request [OF r]]
  have "reachable (demo_env 0 0) demo_config (s', [(7, ReqPut 0x10 (- 1) 1 [97] [49])], [])" by simp
  moreover have "fresh (demo_env 3 5) s'" "map_of_server 0 s' = Map.empty" "tr_conf s' = demo_config"
    using s(3,4,5) same map_of_server_cong [OF same(1,2), of 0] by (simp_all add: fresh_def)
  ultimately show ?thesis using same s(6,7) by metis
qed

theorem server_answers_put_del_witness:
  "\<exists>s r s'. reachable (demo_env 0 0) demo_config (s, [] @ (7, ReqPut 0x10 (- 1) 1 [97] [49]) # [], []) \<and>
     worker_event (demo_env 3 5) 7 (ReqPut 0x10 (- 1) 1 [97] [49]) s = Inr (Some [0, 1, r], s')"
proof -
  obtain s where s: "reachable (demo_env 0 0) demo_config (s, [] @ (7, ReqPut 0x10 (- 1) 1 [97] [49]) # [], [])"
    "fresh (demo_env 3 5) s" using demo_request by auto
  have "hdr_opcode 0x10 = 1" by code_simp
  then show ?thesis using server_answers_put_del [OF s(1) _ s(2)] s(1) by fastforce
qed

lemma worker_refines:
  assumes inv: "srv_inv d s" "tr_client_heap s c \<noteq> None" and "wire_request pkt" and "fresh en s"
    and "\<not> (hdr_opcode (rq_header pkt) = 2 \<and> hdr_prefix (rq_header pkt))"
    and r: "worker_event en c pkt s = Inr (reply, s')"
  shows "map_of_server d s' = spec_request en pkt (map_of_server d s)"
  using assms(3)
proof (cases rule: wire_cases)
  case (put hdr ttl kl key val)
  then show ?thesis
    using put_refines [OF inv assms(4), of hdr ttl kl key val] r by (auto simp: dispatch spec_request_def)
next
  case (get hdr key)
  then show ?thesis
    using get_refines [OF inv, of hdr en key] assms(5) r by (auto simp: dispatch spec_request_def)
next
  case (del hdr key)
  then show ?thesis
    using del_refines [OF inv, of en hdr key] r by (auto simp: dispatch spec_request_def)
next
  case infos
  then show ?thesis using r by (auto simp: dispatch info_handler_def spec_request_def)
qed

text \<open>
  The server implements a map. Whenever a worker completes a waiting request, in any reachable
  configuration, the entries of the database change exactly as the request means: PUT stores a
  value with its TTL and the time, or changes the values and TTLs of all keys under a prefix; DEL
  removes a key or all non-empty keys under a prefix; GET of a key removes it when its TTL has run out
  since the search. (A GET of a prefix is the one request left out.)
\<close>

theorem worker_refines_map:
  assumes "reachable en cf (s, evs, outs)" and "(c, pkt) \<in> set evs" and "fresh en' s"
    and "\<not> (hdr_opcode (rq_header pkt) = 2 \<and> hdr_prefix (rq_header pkt))"
    and "worker_event en' c pkt s = Inr (reply, s')"
  shows "map_of_server (en_db en) s' = spec_request en' pkt (map_of_server (en_db en) s)"
proof -
  have "srv_inv (en_db en) s" "tr_client_heap s c \<noteq> None" "wire_request pkt"
    using reachable_inv [OF assms(1)] assms(2) by (auto simp: conf_inv_def)
  then show ?thesis using assms(3-5) by (rule worker_refines)
qed

theorem worker_refines_map_witness:
  "\<exists>s r s'. reachable (demo_env 0 0) demo_config (s, [(7, ReqPut 0x10 (- 1) 1 [97] [49])], []) \<and>
     worker_event (demo_env 3 5) 7 (ReqPut 0x10 (- 1) 1 [97] [49]) s = Inr (r, s') \<and>
     map_of_server 0 s' = [[97] \<mapsto> (Some [49], - 1, 3)]"
proof -
  let ?pkt = "ReqPut 0x10 (- 1) 1 [97] [49]"
  obtain s where s: "reachable (demo_env 0 0) demo_config (s, [(7, ?pkt)], [])" "fresh (demo_env 3 5) s"
    "tr_client_heap s 7 \<noteq> None" "map_of_server 0 s = Map.empty" using demo_request by blast
  have h: "hdr_opcode 0x10 = 1" "\<not> hdr_prefix 0x10" by code_simp+
  have "srv_inv 0 s" using reachable_inv [OF s(1)] by (simp add: conf_inv_def demo_env_def)
  from put_handler_keeps [OF this s(3,2), of "0x10" "- 1" 1 "[97]" "[49]"] h s(3) obtain s' where
    s': "worker_event (demo_env 3 5) 7 ?pkt s = Inr (Some [0, 1, 0], s')"
    by (auto simp: dispatch keeps_def obj_read_def split: option.split)
  have "map_of_server 0 s' = spec_request (demo_env 3 5) ?pkt (map_of_server 0 s)"
    using worker_refines_map [OF s(1) _ s(2) _ s'] h by (simp add: demo_env_def)
  moreover have "c_short (- 1) = - 1" by (simp add: c_short_def)
  ultimately show ?thesis
    using s(1,4) s' h by (auto simp: spec_request_def spec_put_def c_string_def demo_env_def intro!: exI [of _ s])
qed

lemma put_path:
  assumes "reachable en cf (s, evs, outs)" and "tr_client_heap s c \<noteq> None" and "fresh en' s"
    and "quiet sk" and "pending sk = hdr # of_nat (length payload) # payload"
    and "payload = packi32 (word_of_int ttl) @ packi16 (of_nat (length key)) @ key @ val"
    and "length payload < 128" and "of_nat (length payload) \<le> cf_max_request_size (tr_conf s)"
    and "length payload + 3 \<le> length buf" and "hdr_opcode hdr = 1" and "\<not> hdr_prefix hdr"
    and "0 \<notin> set key" and "0 \<notin> set val" and "- (2 ^ 31) \<le> ttl" and "ttl < 2 ^ 31"
  shows "\<exists>buf' sk' s1 s2. io_read en' c buf sk s = Inr (Some (ReqPut hdr ttl (of_nat (length key)) key val), buf', sk', s1) \<and>
    pending sk' = [] \<and> worker_event en' c (ReqPut hdr ttl (of_nat (length key)) key val) s1 = Inr (Some [0, 1, 0], s2) \<and>
    map_of_server (en_db en) s2 = (map_of_server (en_db en) s)(key \<mapsto> (Some val, c_short ttl, en_time en')) \<and>
    fresh en' s1 \<and> tr_closed s1 = tr_closed s"
proof -
  let ?pkt = "ReqPut hdr ttl (of_nat (length key)) key val"
  obtain cl where cl: "tr_client_heap s c = Some cl" using assms(2) by blast
  have len: "length payload = 6 + length key + length val" using assms(6) by simp
  have un: "unpack_triedb_request (payload @ rest) hdr (of_nat (length payload)) = Inr ?pkt" for rest
    using unpack_triedb_put_eq [of ttl key val rest hdr] assms(6,7,10,14,15) len
    by (simp add: unpack_triedb_request_def unpack_handlers_def add.assoc)
  from io_read_short [OF cl assms(4), of hdr payload "[]" buf en'] assms(5,7-10) len un obtain buf' sk' s1 where
    s1: "io_read en' c buf sk s = Inr (Some ?pkt, buf', sk', s1)" "pending sk' = []"
    "tr_db_heap s1 = tr_db_heap s" "tr_items s1 = tr_items s" "tr_eks s1 = tr_eks s" "tr_closed s1 = tr_closed s" by force
  have inv: "srv_inv (en_db en) s" using reachable_inv [OF assms(1)] by (simp add: conf_inv_def)
  have inv1: "srv_inv (en_db en) s1" "tr_client_heap s1 c \<noteq> None" using io_read_keeps [OF inv s1(1)] by auto
  have fr: "fresh en' s1" using assms(3) s1 by (simp add: fresh_def)
  from put_handler_keeps [OF inv1 fr, of hdr ttl "of_nat (length key)" key val] inv1(2) assms(10) obtain s2 where
    s2: "worker_event en' c ?pkt s1 = Inr (Some [0, 1, 0], s2)"
    by (auto simp: dispatch keeps_def obj_read_def split: option.split)
  have "map_of_server (en_db en) s2 = spec_request en' ?pkt (map_of_server (en_db en) s1)"
    using worker_refines [OF inv1 _ fr _ s2] assms(10) by (simp add: wire_request_def)
  also have "map_of_server (en_db en) s1 = map_of_server (en_db en) s" using s1(3,4) by (rule map_of_server_cong)
  finally show ?thesis
    using s1(1,2,6) s2 fr assms(11-13) by (auto simp: spec_request_def spec_put_def c_string_id)
qed

text \<open>
  A PUT travels from the socket to the database. When the bytes of a PUT of less than 128 bytes
  are all a client has sent, in pieces of any sizes, \<^verbatim>\<open>io_worker\<close> reads them as this request, with key
  and value as sent, and the worker that takes it acknowledges it and stores exactly this entry.
\<close>

theorem put_from_socket:
  assumes "reachable en cf (s, evs, outs)" and "tr_client_heap s c \<noteq> None" and "fresh en' s"
    and "quiet sk" and "pending sk = hdr # of_nat (length payload) # payload"
    and "payload = packi32 (word_of_int ttl) @ packi16 (of_nat (length key)) @ key @ val"
    and "length payload < 128" and "of_nat (length payload) \<le> cf_max_request_size (tr_conf s)"
    and "length payload + 3 \<le> length buf" and "hdr_opcode hdr = 1" and "\<not> hdr_prefix hdr"
    and "0 \<notin> set key" and "0 \<notin> set val" and "- (2 ^ 31) \<le> ttl" and "ttl < 2 ^ 31"
  shows "\<exists>buf' sk' s1 s2. io_read en' c buf sk s = Inr (Some (ReqPut hdr ttl (of_nat (length key)) key val), buf', sk', s1) \<and>
    pending sk' = [] \<and> worker_event en' c (ReqPut hdr ttl (of_nat (length key)) key val) s1 = Inr (Some [0, 1, 0], s2) \<and>
    map_of_server (en_db en) s2 = (map_of_server (en_db en) s)(key \<mapsto> (Some val, c_short ttl, en_time en'))"
  using put_path [OF assms] by blast

theorem put_from_socket_witness:
  "\<exists>s buf' sk' s1 s2. reachable (demo_env 0 0) demo_config (s, [], []) \<and>
     io_read (demo_env 3 5) 7 (replicate 64 0) [IoBytes [0x10], IoBytes [8, 255, 255, 255, 255, 0, 1, 97, 49]] s =
       Inr (Some (ReqPut 0x10 (- 1) 1 [97] [49]), buf', sk', s1) \<and>
     worker_event (demo_env 3 5) 7 (ReqPut 0x10 (- 1) 1 [97] [49]) s1 = Inr (Some [0, 1, 0], s2) \<and>
     map_of_server 0 s2 = [[97] \<mapsto> (Some [49], - 1, 3)]"
proof -
  obtain s where s: "reachable (demo_env 0 0) demo_config (s, [], [])" "tr_client_heap s 7 \<noteq> None"
    "tr_conf s = demo_config" "fresh (demo_env 3 5) s" "map_of_server 0 s = Map.empty" using demo_server by blast
  let ?p = "[255, 255, 255, 255, 0, 1, 97, 49] :: bytes"
  let ?sk = "[IoBytes [0x10], IoBytes (8 # ?p)]"
  have h: "hdr_opcode 0x10 = 1" "\<not> hdr_prefix 0x10" "packi32 (word_of_int (- 1)) = [255, 255, 255, 255]" "packi16 1 = [0, 1]"
    "(8 :: u64) \<le> 1024" "c_short (- 1) = - 1" by code_simp+
  from put_from_socket [OF s(1,2,4), of ?sk "0x10" ?p "- 1" "[97]" "[49]" "replicate 64 0"] h s(3,5)
  show ?thesis using s(1) by (auto simp: demo_config_def demo_env_def intro!: exI [of _ s])
qed

text \<open>
  C7. A client reads what was written. After a PUT by any client, a GET of the same key by any client gets,
  as long as the TTL has not run out for either look at the clock and the reply is below 128 bytes,
  a reply that carries the key, the value and the TTL.
\<close>

theorem put_then_get:
  assumes "reachable en cf (s, evs, outs)" and "tr_client_heap s c \<noteq> None" and "tr_client_heap s c' \<noteq> None"
    and "fresh en' s" and "hdr_opcode hdr = 1" and "\<not> hdr_prefix hdr" and "hdr_opcode hdr' = 2" and "\<not> hdr_prefix hdr'"
    and "ttl = -1 \<or> 0 \<le> ttl \<and> ttl < 2 ^ 15 \<and> en_time en'' < en_time en' + ttl \<and> en_now en'' < en_time en' + ttl"
    and "length (c_string key) + length (c_string val) + 6 < 128"
  shows "\<exists>s'. worker_event en' c (ReqPut hdr ttl kl key val) s = Inr (Some [0, 1, 0], s') \<and>
    worker_event en'' c' (ReqGet hdr' key) s' =
      Inr (Some (hdr' # of_nat (length (c_string key) + length (c_string val) + 6) # packi32 (word_of_int ttl) @
        packi16 (of_nat (length (c_string key))) @ c_string key @ c_string val), s')"
proof -
  have inv: "srv_inv (en_db en) s" using reachable_inv [OF assms(1)] by (simp add: conf_inv_def)
  obtain db where db: "serves s c (en_db en) db" using inv assms(2) by (rule srv_invD)
  have "tr_items s (en_item en') = None" using assms(4) by (simp add: fresh_def)
  from put_handler_single [OF db assms(6) this, of ttl kl key val] obtain db' s' where s':
    "put_handler en' c (ReqPut hdr ttl kl key val) s = Inr (0, Some [0, 1, 0], s')" "serves s' c (en_db en) db'"
    "db_view db' (tr_items s') = (db_view db (tr_items s))(c_string key \<mapsto> put_item en' ttl val)"
    "tr_client_heap s' = tr_client_heap s" by auto
  have "c_db cl = Some (en_db en)" if "tr_client_heap s c' = Some cl" for cl
    using inv that by (simp add: srv_inv_def)
  then have ser: "serves s' c' (en_db en) db'" using s'(2,4) assms(3) by (auto simp: serves_def)
  have short: "c_short ttl = ttl" using assms(9) by (auto simp: c_short_def signed_take_bit_int_eq_self)
  have al: "alive en'' (put_item en' ttl val)" using assms(9) short by (auto simp: alive_def put_item_def)
  have "get_handler en'' c' (ReqGet hdr' key) s' =
    Inr (0, Some (hdr' # of_nat (length (c_string key) + length (c_string val) + 6) # packi32 (word_of_int ttl) @
      packi16 (of_nat (length (c_string key))) @ c_string key @ c_string val), s')"
    using get_handler_alive [OF ser assms(8,7) _ al, of key "c_string val"] assms(10) s'(3) short
    by (simp add: put_item_def)
  then show ?thesis
    using s'(1,4) assms(2,3,5,7)
    by (intro exI [of _ s']) (auto simp: dispatch obj_read_def split: option.split)
qed

theorem put_then_get_witness:
  "\<exists>s s'. reachable (demo_env 0 0) demo_config (s, [], []) \<and>
     worker_event (demo_env 3 5) 7 (ReqPut 0x10 60 1 [97] [49]) s = Inr (Some [0, 1, 0], s') \<and>
     worker_event (demo_env 10 6) 7 (ReqGet 0x20 [97]) s' = Inr (Some [0x20, 8, 0, 0, 0, 60, 0, 1, 97, 49], s')"
proof -
  obtain s where s: "reachable (demo_env 0 0) demo_config (s, [], [])" "tr_client_heap s 7 \<noteq> None"
    "fresh (demo_env 3 5) s" using demo_server by blast
  have h: "hdr_opcode 0x10 = 1" "\<not> hdr_prefix 0x10" "hdr_opcode 0x20 = 2" "\<not> hdr_prefix 0x20"
    "packi32 (word_of_int 60) = [0, 0, 0, 60]" "packi16 1 = [0, 1]" by code_simp+
  from put_then_get [OF s(1,2,2,3) h(1-4), of 60 "demo_env 10 6" "[97]" "[49]" 1] h obtain s' where
    "worker_event (demo_env 3 5) 7 (ReqPut 0x10 60 1 [97] [49]) s = Inr (Some [0, 1, 0], s')"
    "worker_event (demo_env 10 6) 7 (ReqGet 0x20 [97]) s' = Inr (Some [0x20, 8, 0, 0, 0, 60, 0, 1, 97, 49], s')"
    by (auto simp: demo_env_def c_string_def)
  with s(1) show ?thesis by blast
qed

subsection \<open>Packets that are not served\<close>

text \<open>
  C27. Nine of the commands the server accepts have no unpacking function. A packet with one of the opcodes
  4 to 12 (TTL, INC, DEC, CNT, USE, KEYS, PING, QUIT, DB), as soon as \<^verbatim>\<open>recv_packet\<close> has read it, makes
  the I/O thread call a null pointer.
\<close>

theorem unsupported_command_crashes:
  assumes "tr_client_heap s c = Some cl" and "recv_packet (cf_max_request_size (tr_conf s)) buf sk = Inr r"
    and "rc_nbytes r \<notin> {- ERRCLIENTDC, - ERRPACKETERR, - ERRMAXREQSIZE}"
    and "4 \<le> hdr_opcode (rc_header r)" and "hdr_opcode (rc_header r) \<le> 12"
  shows "io_read en c buf sk s = Inl NullCall"
proof -
  have "hdr_opcode (rc_header r) \<in> {4, 5, 6, 7, 8, 9, 10, 11, 12}" using assms(4,5) by (simp, arith)
  then have "unpack_triedb_request raw (rc_header r) len = Inl NullCall" for raw len
    by (auto simp: unpack_triedb_request_def unpack_handlers_def)
  then show ?thesis using assms(2,3) by (simp add: io_read_eq [OF assms(1)] read_data_def Let_def)
qed

lemma demo_recv:
  "recv_packet 1024 [0, 0, 0, 0] [IoBytes [0xa0, 0]] =
     Inr \<lparr> rc_nbytes = 2, rc_header = 0xa0, rc_offset = 2, rc_buffer = [0xa0, 0, 0, 0], rc_socket = [], rc_close = False \<rparr>"
  "recv_packet 1024 [0, 0, 0, 0] [IoBytes []] =
     Inr \<lparr> rc_nbytes = - 1, rc_header = 0, rc_offset = 0, rc_buffer = [0, 0, 0, 0], rc_socket = [], rc_close = False \<rparr>"
  by code_simp+

theorem unsupported_command_crashes_witness:
  "\<exists>s. reachable (demo_env 0 0) demo_config (s, [], []) \<and>
     io_read (demo_env 3 5) 7 [0, 0, 0, 0] [IoBytes [0xa0, 0]] s = Inl NullCall"
proof -
  obtain s cl where s: "reachable (demo_env 0 0) demo_config (s, [], [])" "tr_client_heap s 7 = Some cl"
    "tr_conf s = demo_config" using demo_server by blast
  have "hdr_opcode 0xa0 = 10" "cf_max_request_size demo_config = 1024" by code_simp+
  then show ?thesis
    using unsupported_command_crashes [OF s(2), of "[0, 0, 0, 0]" "[IoBytes [0xa0, 0]]"] s(1,3) demo_recv(1)
    by (auto simp: ERRCLIENTDC_def ERRPACKETERR_def ERRMAXREQSIZE_def)
qed

text \<open>
  A request is read through the right variant of its union: whatever bytes arrive, a request handed
  to the workers is a PUT with opcode 1, a key request with opcode 2 or 3 (GET, DEL) or an acknowledgement
  with opcode 13 (INFO).
\<close>

theorem request_variant:
  assumes "io_read en c buf sk s = Inr (Some pkt, buf', sk', s')"
  shows "case pkt of ReqPut hdr ttl kl key val \<Rightarrow> hdr_opcode hdr = 1
    | ReqGet hdr key \<Rightarrow> hdr_opcode hdr = 2 \<or> hdr_opcode hdr = 3
    | ReqAck hdr rc \<Rightarrow> hdr_opcode hdr = 13 | _ \<Rightarrow> False"
  using io_read_wire [OF assms] by (simp add: wire_request_def)

theorem request_variant_witness:
  "\<exists>s buf' sk' s'. io_read (demo_env 3 5) 7 [0, 0, 0, 0] [IoBytes [0xd0, 2, 0, 0]] s = Inr (Some (ReqAck 0xd0 0), buf', sk', s') \<and>
     hdr_opcode 0xd0 = 13"
proof -
  obtain s :: triedb and cl where s: "tr_client_heap s 7 = Some cl" "tr_conf s = demo_config"
    using demo_server by blast
  have r: "recv_packet 1024 [0, 0, 0, 0] [IoBytes [0xd0, 2, 0, 0]] =
      Inr \<lparr> rc_nbytes = 4, rc_header = 0xd0, rc_offset = 2, rc_buffer = [0xd0, 2, 0, 0], rc_socket = [], rc_close = False \<rparr>"
    "unpack_triedb_request [0, 0] 0xd0 4 = Inr (ReqAck 0xd0 0)" "cf_max_request_size demo_config = 1024" by code_simp+
  then obtain buf' sk' s' where
    i: "io_read (demo_env 3 5) 7 [0, 0, 0, 0] [IoBytes [0xd0, 2, 0, 0]] s = Inr (Some (ReqAck 0xd0 0), buf', sk', s')"
    using s(2) by (auto simp: io_read_eq [OF s(1)] read_data_def Let_def ERRCLIENTDC_def ERRPACKETERR_def ERRMAXREQSIZE_def)
  from request_variant [OF i] i show ?thesis by auto
qed

text \<open>
  C24. The framing of packets with a payload of 5 to 127 bytes. The header, the size and the payload having
  arrived, \<^verbatim>\<open>recv_packet\<close> leaves the whole payload at the returned offset and reports its length, but asks
  for one byte too many: when another packet follows, its first byte is taken as the end of this one.
\<close>

theorem recv_packet_framing:
  assumes "quiet sk" and "pending sk = hdr # of_nat (length payload) # payload @ extra"
    and "5 \<le> length payload" and "length payload < 128" and "1 \<le> hdr_opcode hdr" and "hdr_opcode hdr \<le> 13"
    and "of_nat (length payload) \<le> maxsize" and "length payload + 3 \<le> length buf"
  shows "\<exists>r rest. recv_packet maxsize buf sk = Inr r \<and> rc_header r = hdr \<and>
    rc_nbytes r = int (length payload) + (if extra = [] then 0 else 1) \<and>
    drop (rc_offset r) (rc_buffer r) = payload @ take 1 extra @ rest \<and> pending (rc_socket r) = drop 1 extra"
proof -
  have "int (length (payload @ take 1 extra)) = int (length payload) + (if extra = [] then 0 else 1)"
    by (cases extra) simp_all
  then show ?thesis using recv_packet_short [OF assms] by (auto simp del: length_append)
qed

theorem recv_packet_framing_witness:
  "\<exists>r rest. recv_packet 1024 (replicate 64 0) [IoBytes [0x30, 5, 97, 98, 99, 100, 101, 0x20, 5]] = Inr r \<and> rc_nbytes r = 6 \<and>
     drop (rc_offset r) (rc_buffer r) = [97, 98, 99, 100, 101] @ [0x20] @ rest \<and> pending (rc_socket r) = [5]"
proof -
  have "hdr_opcode 0x30 = 3" "(5 :: u64) \<le> 1024" by code_simp+
  then show ?thesis
    using recv_packet_framing [of "[IoBytes [0x30, 5, 97, 98, 99, 100, 101, 0x20, 5]]" "0x30" "[97, 98, 99, 100, 101]"
        "[0x20, 5]" 1024 "replicate 64 0"] by auto
qed

text \<open>
  C25. A packet that arrives in pieces. When of a packet with a size of 5 to 127 exactly the first four or five bytes are there,
  the length \<^verbatim>\<open>recv_packet\<close> computes without a sign wraps around: it reports more than four gigabytes.
\<close>

theorem recv_packet_fragmented:
  assumes "quiet sk" and "pending sk = hdr # of_nat tlen # a # b # rest" and "length rest \<le> 1"
    and "5 \<le> tlen" and "tlen < 128" and "1 \<le> hdr_opcode hdr" and "hdr_opcode hdr \<le> 13"
    and "of_nat tlen \<le> maxsize" and "tlen + 3 \<le> length buf"
  shows "\<exists>r. recv_packet maxsize buf sk = Inr r \<and> rc_nbytes r = 2 ^ 32 + 2 + int (length rest)"
proof -
  have t: "take (tlen - 1) rest = rest" using assms(3,4) by simp
  have "uint (of_nat (length rest) - 2 :: u32) = 2 ^ 32 - 2 + int (length rest)"
  proof (cases rest)
    case Nil
    moreover have "uint (- 2 :: u32) = 2 ^ 32 - 2" by code_simp
    ultimately show ?thesis by simp
  next
    case (Cons x xs)
    moreover have "uint (- 1 :: u32) = 2 ^ 32 - 1" by code_simp
    ultimately show ?thesis using assms(3) by simp
  qed
  then show ?thesis using recv_packet_tail [OF assms(1,2,4-9)] unfolding t by auto
qed

theorem recv_packet_fragmented_witness:
  "\<exists>r. recv_packet 1024 (replicate 64 0) [IoBytes [0x30, 5, 97, 98]] = Inr r \<and> rc_nbytes r = 4294967298"
proof -
  have "hdr_opcode 0x30 = 3" "(5 :: u64) \<le> 1024" by code_simp+
  then show ?thesis
    using recv_packet_fragmented [of "[IoBytes [0x30, 5, 97, 98]]" "0x30" 5 97 98 "[]" 1024 "replicate 64 0"] by simp
qed

lemma unpack_key_request:
  assumes "hdr_opcode hdr = 2 \<or> hdr_opcode hdr = 3" and "length key < 10 ^ 8"
  shows "unpack_triedb_request (key @ rest) hdr (of_nat (length key)) = Inr (ReqGet hdr key)"
  using assms unpack_triedb_get_eq [OF assms(2), of rest hdr] by (auto simp: unpack_triedb_request_def unpack_handlers_def)

text \<open>
  C26. A key of at most four bytes does not arrive. When a GET or DEL with such a key has reached the socket, \<^verbatim>\<open>recv_packet\<close>
  stops after four bytes, of which two are the header and the size, and reports their number as the length of the key:
  the request handed to the workers is for the first two bytes of what follows the size, with two bytes behind them
  that an earlier packet has left in the buffer. The other bytes stay in the socket and are taken for the next packet.
\<close>

theorem short_key_misread:
  assumes "tr_client_heap s c = Some cl" and "quiet sk" and "pending sk = hdr # of_nat (length key) # key @ extra"
    and "length key \<le> 4" and "hdr_opcode hdr = 2 \<or> hdr_opcode hdr = 3"
    and "of_nat (length key) \<le> cf_max_request_size (tr_conf s)" and "6 \<le> length buf"
  shows "\<exists>buf' sk' s'. io_read en c buf sk s =
      Inr (Some (ReqGet hdr (take 2 (key @ extra) @ take 2 (drop (2 + length (take 2 (key @ extra))) buf))), buf', sk', s') \<and>
    pending sk' = drop 2 (key @ extra)"
proof -
  let ?k = "take 2 (key @ extra)"
  let ?key = "?k @ take 2 (drop (2 + length ?k) buf)" and ?rest = "drop 2 (drop (2 + length ?k) buf)"
  have op: "1 \<le> hdr_opcode hdr" "hdr_opcode hdr \<le> 13" using assms(5) by auto
  have "4 \<le> length buf" using assms(7) by simp
  from recv_packet_tiny [OF assms(2-4) op assms(6) this] obtain sk' where
    r: "recv_packet (cf_max_request_size (tr_conf s)) buf sk =
      Inr \<lparr> rc_nbytes = 2 + int (length ?k), rc_header = hdr, rc_offset = 2,
            rc_buffer = hdr # of_nat (length key) # ?k @ drop (2 + length ?k) buf, rc_socket = sk', rc_close = False \<rparr>"
    "pending sk' = drop 2 (key @ extra)" by (elim exE conjE)
  have len: "length ?key = 2 + length ?k" using assms(7) by simp
  have raw: "?k @ drop (2 + length ?k) buf = ?key @ ?rest" by (simp only: append_assoc append_take_drop_id)
  have "of_int (2 + int (length ?k)) = (of_nat (length ?key) :: u64)" using len by simp
  moreover have "unpack_triedb_request (?key @ ?rest) hdr (of_nat (length ?key)) = Inr (ReqGet hdr ?key)"
    by (rule unpack_key_request [OF assms(5)]) (unfold len, simp)
  ultimately have u: "unpack_triedb_request (?k @ drop (2 + length ?k) buf) hdr (of_int (2 + int (length ?k))) = Inr (ReqGet hdr ?key)"
    unfolding raw by (simp only:)
  have n: "2 + int (length ?k) \<noteq> - ERRCLIENTDC" "2 + int (length ?k) \<noteq> - ERRMAXREQSIZE" "2 + int (length ?k) \<noteq> - ERRPACKETERR"
    by (simp_all add: ERRCLIENTDC_def ERRMAXREQSIZE_def ERRPACKETERR_def)
  have "\<exists>s'. read_data (c_fd cl) buf sk s = Inr (0, Some (ReqGet hdr ?key), hdr # of_nat (length key) # ?k @ drop (2 + length ?k) buf, sk', s')"
    unfolding read_data_def r(1) using n u by (simp add: Let_def del: length_take)
  then show ?thesis using r(2) by (auto simp: io_read_eq [OF assms(1)] ERRCLIENTDC_def)
qed

theorem short_key_misread_witness:
  "\<exists>s buf' sk' s'. reachable (demo_env 0 0) demo_config (s, [], []) \<and>
     io_read (demo_env 3 5) 7 [0x20, 6, 117, 118, 119, 120, 121, 122] [IoBytes [0x20, 3, 97, 98, 99]] s =
       Inr (Some (ReqGet 0x20 [97, 98, 119, 120]), buf', sk', s') \<and> pending sk' = [99]"
proof -
  obtain s cl where s: "reachable (demo_env 0 0) demo_config (s, [], [])" "tr_client_heap s 7 = Some cl"
    "tr_conf s = demo_config" using demo_server by blast
  have "hdr_opcode 0x20 = 2" "cf_max_request_size demo_config = 1024" "(3 :: u64) \<le> 1024" by code_simp+
  then show ?thesis
    using short_key_misread [OF s(2), of "[IoBytes [0x20, 3, 97, 98, 99]]" "0x20" "[97, 98, 99]" "[]"
        "[0x20, 6, 117, 118, 119, 120, 121, 122]" "demo_env 3 5"] s(1,3) by fastforce
qed

subsection \<open>Replies and lifetimes\<close>

lemma c_short_wrap: "2 ^ 15 \<le> n \<Longrightarrow> n < 2 ^ 16 \<Longrightarrow> c_short n = n - 2 ^ 16"
proof -
  assume n: "2 ^ 15 \<le> n" "n < 2 ^ 16"
  have "c_short n = (n + 2 ^ 15) mod 2 ^ 16 - 2 ^ 15"
    by (simp add: c_short_def signed_take_bit_eq_take_bit_shift take_bit_eq_mod)
  also have "(n + 2 ^ 15) mod 2 ^ 16 = (n + 2 ^ 15 - 2 ^ 16) mod 2 ^ 16"
    using mod_add_self2 [of "n + 2 ^ 15 - 2 ^ 16" "2 ^ 16 :: int"] by (simp add: add.commute)
  also have "\<dots> = n + 2 ^ 15 - 2 ^ 16" using n by (intro mod_pos_pos_trivial) simp_all
  finally show ?thesis by simp
qed

text \<open>
  A TTL is stored as a 16-bit number. A PUT with a TTL of 32768 to 65534 seconds, which the protocol has
  32 bits for, is acknowledged, but the stored TTL is negative: the next GET of the key, at once, finds
  it expired, answers NOK and removes it.
\<close>

theorem put_ttl_truncated:
  assumes "reachable en cf (s, evs, outs)" and "tr_client_heap s c \<noteq> None" and "fresh en' s"
    and "hdr_opcode hdr = 1" and "\<not> hdr_prefix hdr" and "hdr_opcode hdr' = 2" and "\<not> hdr_prefix hdr'"
    and "2 ^ 15 \<le> ttl" and "ttl < 2 ^ 16 - 1" and "en_time en' \<le> en_now en''" and "c_string key \<noteq> []"
  shows "\<exists>s' s''. worker_event en' c (ReqPut hdr ttl kl key val) s = Inr (Some [0, 1, 0], s') \<and>
    worker_event en'' c (ReqGet hdr' key) s' = Inr (Some [0, 1, 1], s'') \<and>
    map_of_server (en_db en) s'' (c_string key) = None"
proof -
  have inv: "srv_inv (en_db en) s" using reachable_inv [OF assms(1)] by (simp add: conf_inv_def)
  obtain db where db: "serves s c (en_db en) db" using inv assms(2) by (rule srv_invD)
  have "tr_items s (en_item en') = None" using assms(3) by (simp add: fresh_def)
  from put_handler_single [OF db assms(5) this, of ttl kl key val] obtain db' s' where s':
    "put_handler en' c (ReqPut hdr ttl kl key val) s = Inr (0, Some [0, 1, 0], s')" "serves s' c (en_db en) db'"
    "db_view db' (tr_items s') (c_string key) = Some (put_item en' ttl val)"
    "tr_client_heap s' = tr_client_heap s" "tr_expiring_keys s' = tr_expiring_keys s" by auto
  have v: "v_size (tr_expiring_keys s') = 0" using inv s'(5) by (simp add: srv_inv_def)
  have short: "c_short ttl = ttl - 2 ^ 16" using assms(8,9) by (intro c_short_wrap) simp_all
  from get_handler_lapsed [OF s'(2) assms(7) v s'(3), of en''] short assms(8-10) obtain db'' s'' where s'':
    "get_handler en'' c (ReqGet hdr' key) s' = Inr (0, Some [0, 1, 1], s'')" "serves s'' c (en_db en) db''"
    "db_without ({c_string key} - {[]}) db' (tr_items s') db'' (tr_items s'')"
    "s'' = with_db s' (en_db en) db'' (tr_items s'') (tr_keyspace_size s' - 1)" by (auto simp: put_item_def)
  have heap: "tr_client_heap s'' = tr_client_heap s'"
    using arg_cong [OF s''(4), of tr_client_heap] by simp
  have "map_of_server (en_db en) s'' (c_string key) = None"
    using db_without_view [OF s''(3)] assms(11) map_of_server_eq [OF servesD(3) [OF s''(2)]]
    by (simp add: db_entry_def)
  then show ?thesis
    using s'(1,4) s''(1) heap assms(2,4,6)
    by (intro exI [of _ s'] exI [of _ s'']) (auto simp: dispatch obj_read_def split: option.split)
qed

theorem put_ttl_truncated_witness:
  "\<exists>s s' s''. worker_event (demo_env 3 5) 7 (ReqPut 0x10 40000 1 [97] [49]) s = Inr (Some [0, 1, 0], s') \<and>
     worker_event (demo_env 3 6) 7 (ReqGet 0x20 [97]) s' = Inr (Some [0, 1, 1], s'') \<and> map_of_server 0 s'' [97] = None"
proof -
  obtain s where s: "reachable (demo_env 0 0) demo_config (s, [], [])" "tr_client_heap s 7 \<noteq> None"
    "fresh (demo_env 3 5) s" using demo_server by blast
  have h: "hdr_opcode 0x10 = 1" "\<not> hdr_prefix 0x10" "hdr_opcode 0x20 = 2" "\<not> hdr_prefix 0x20" by code_simp+
  have k: "c_string [97] = [97]" by (simp add: c_string_def)
  have "\<exists>s' s''. worker_event (demo_env 3 5) 7 (ReqPut 0x10 40000 1 [97] [49]) s = Inr (Some [0, 1, 0], s') \<and>
     worker_event (demo_env 3 6) 7 (ReqGet 0x20 [97]) s' = Inr (Some [0, 1, 1], s'') \<and>
     map_of_server (en_db (demo_env 0 0)) s'' (c_string [97]) = None"
    using k by (intro put_ttl_truncated [OF s h]) (simp_all add: demo_env_def)
  then show ?thesis using k by (auto simp: demo_env_def)
qed

text \<open>
  INC and DEC answer OK whatever happens. A key that is missing, has expired or does not hold an
  integer is left alone, yet the NOK stored for it is overwritten before the handler returns.
\<close>

theorem inc_dec_always_ok:
  assumes "h = inc_handler \<or> h = dec_handler" and "h en c (ReqGet hdr key) s = Inr (rc, reply, s')"
  shows "reply = Some [0, 1, 0] \<and> (serves s c d db \<and> \<not> hdr_prefix hdr \<and> db_view db (tr_items s) (c_string key) = None \<longrightarrow> s' = s)"
proof -
  have "item_add n (c_string key) (en_time en) db (tr_items s) = Inr (tr_items s)"
    if "serves s c d db" "db_view db (tr_items s) (c_string key) = None" for n
    using that by (simp add: item_add_def search_sound [OF servesD(2)])
  then show ?thesis
    using assms by (auto simp: inc_handler_def dec_handler_def get_key_def ack_reply_eq servesD)
qed

theorem inc_dec_always_ok_witness:
  "\<exists>s. inc_handler (demo_env 3 5) 7 (ReqGet 0x50 [97]) s = Inr (0, Some [0, 1, 0], s)"
proof -
  obtain s where s: "reachable (demo_env 0 0) demo_config (s, [], [])" "tr_client_heap s 7 \<noteq> None"
    "map_of_server 0 s = Map.empty" using demo_server by blast
  have inv: "srv_inv 0 s" using reachable_inv [OF s(1)] by (simp add: conf_inv_def demo_env_def)
  obtain db where db: "serves s 7 0 db" using inv s(2) by (rule srv_invD)
  have k: "c_string [97] = [97]" "\<not> hdr_prefix 0x50" by code_simp+
  have none: "db_view db (tr_items s) [97] = None"
    using s(3) map_of_server_eq [OF servesD(3) [OF db]] by (auto simp: db_entry_def fun_eq_iff)
  then have "item_add 1 [97] (en_time (demo_env 3 5)) db (tr_items s) = Inr (tr_items s)"
    by (simp add: item_add_def search_sound [OF servesD(2) [OF db]])
  then obtain s' where r: "inc_handler (demo_env 3 5) 7 (ReqGet 0x50 [97]) s = Inr (0, Some [0, 1, 0], s')"
    using k servesD(1) [OF db] by (auto simp: inc_handler_def get_key_def ack_reply_eq)
  then show ?thesis
    using inc_dec_always_ok [of inc_handler "demo_env 3 5" 7 "0x50" "[97]" s 0 "Some [0, 1, 0]" s' 0 db] db none k by auto
qed

end
