(* ===== verification/Tdb_Replies.thy ===== *)
theory Tdb_Replies
  imports Tdb_Service
begin

text \<open>
  What clients see: the reply to each request, as a function of the map the server holds. Together with
  the change of the map this describes PUT, DEL and GET of a key completely.
\<close>

text \<open>An acknowledgement, and the reply to a GET that finds its key.\<close>

definition ack_bytes :: "bool \<Rightarrow> bytes" where
  "ack_bytes ok = [0, 1, if ok then 0 else 1]"

definition get_bytes :: "byte \<Rightarrow> int \<Rightarrow> cstring \<Rightarrow> cstring \<Rightarrow> bytes" where
  "get_bytes hdr ttl key val =
     hdr # of_nat (length key + length val + 6) # packi32 (word_of_int ttl) @ packi16 (of_nat (length key)) @ key @ val"

definition entry_alive :: "env \<Rightarrow> int \<Rightarrow> int \<Rightarrow> bool" where
  "entry_alive en ttl ct \<longleftrightarrow> \<not> (ttl > -1 \<and> ttl \<le> en_time en - ct) \<and> (ttl = -1 \<or> ct + ttl > en_now en)"

text \<open>
  PUT is always acknowledged, and so is DEL of a prefix; DEL of a key tells whether there was such a
  key, the empty key never being deleted; GET answers with the entry while it is alive.
\<close>

definition spec_reply :: "env \<Rightarrow> triedb_request \<Rightarrow> server_map \<Rightarrow> bytes" where
  "spec_reply en pkt m =
     (case pkt of
        ReqGet hdr key \<Rightarrow>
          if hdr_opcode hdr = 3 then ack_bytes (hdr_prefix hdr \<or> c_string key \<noteq> [] \<and> m (c_string key) \<noteq> None)
          else (case m (c_string key) of
                  Some (Some v, ttl, ct) \<Rightarrow>
                    if entry_alive en ttl ct then get_bytes hdr ttl (c_string key) v else ack_bytes False
                | _ \<Rightarrow> ack_bytes False)
      | _ \<Rightarrow> ack_bytes True)"

text \<open>
  The reply to a GET fits its buffer, which is sized for less than 128 bytes: the stored entry is short. The
  acknowledgements, which answer PUT and DEL, always fit.
\<close>

definition reply_fits :: "triedb_request \<Rightarrow> server_map \<Rightarrow> bool" where
  "reply_fits pkt m =
     (case pkt of
        ReqGet hdr key \<Rightarrow> hdr_opcode hdr = 2 \<longrightarrow>
          (case m (c_string key) of Some (Some v, _) \<Rightarrow> length (c_string key) + length v + 6 < 128 | _ \<Rightarrow> True)
      | _ \<Rightarrow> True)"

lemma del_reply:
  assumes inv: "srv_inv d s" "tr_client_heap s c \<noteq> None"
  shows "\<exists>s'. del_handler en c (ReqGet hdr key) s =
    Inr (0, Some (ack_bytes (hdr_prefix hdr \<or> c_string key \<noteq> [] \<and> map_of_server d s (c_string key) \<noteq> None)), s') \<and>
    tr_client_heap s' = tr_client_heap s"
proof -
  obtain db where db: "serves s c d db" using inv by (rule srv_invD)
  have v: "map_of_server d s (c_string key) \<noteq> None \<longleftrightarrow> db_view db (tr_items s) (c_string key) \<noteq> None"
    by (simp add: map_of_server_eq [OF servesD(3) [OF db]] db_entry_def)
  from del_handler_ok [OF db refl, of en hdr key] obtain r db' s' where
    del: "del_handler en c (ReqGet hdr key) s = Inr (0, Some [0, 1, r], s')"
    "r = (if hdr_prefix hdr \<or> c_string key \<noteq> [] \<and> db_view db (tr_items s) (c_string key) \<noteq> None then 0 else 1)"
    "s' = with_db s d db' (tr_items s') (tr_keyspace_size s')" by blast
  from del(3) have "tr_client_heap s' = tr_client_heap (with_db s d db' (tr_items s') (tr_keyspace_size s'))"
    by (rule arg_cong)
  then have "tr_client_heap s' = tr_client_heap s" by simp
  with del(1) show ?thesis unfolding ack_bytes_def v del(2) by blast
qed

lemma get_reply:
  assumes inv: "srv_inv d s" "tr_client_heap s c \<noteq> None" and hdr: "\<not> hdr_prefix hdr" "hdr_opcode hdr = 2"
    and fits: "reply_fits (ReqGet hdr key) (map_of_server d s)"
  shows "\<exists>s'. get_handler en c (ReqGet hdr key) s = Inr (0, Some (spec_reply en (ReqGet hdr key) (map_of_server d s)), s') \<and>
    tr_client_heap s' = tr_client_heap s"
proof -
  obtain db where db: "serves s c d db" "db_good db (tr_items s)" using inv by (rule srv_invD)
  have v0: "v_size (tr_expiring_keys s) = 0" using inv(1) by (simp add: srv_inv_def)
  have m: "map_of_server d s (c_string key) = map_option (\<lambda>i. (di_data i, di_ttl i, di_ctime i)) (db_view db (tr_items s) (c_string key))"
    by (simp add: map_of_server_eq [OF servesD(3) [OF db(1)]] db_entry_def)
  show ?thesis
  proof (cases "db_view db (tr_items s) (c_string key)")
    case None
    then show ?thesis
      using get_handler_gone [OF db(1) hdr(1), where key = key and en = en] m hdr(2) by (simp add: spec_reply_def ack_bytes_def)
  next
    case (Some item)
    with db(2) obtain v where v: "di_data item = Some v" by (auto simp: db_good_def)
    note ent = m [unfolded Some option.map v]
    consider "alive en item" | "di_ttl item > -1" "di_ttl item \<le> en_time en - di_ctime item"
      | "\<not> (di_ttl item > -1 \<and> di_ttl item \<le> en_time en - di_ctime item)" "di_ttl item \<noteq> -1" "di_ctime item + di_ttl item - en_now en \<le> 0"
      by (cases "di_ttl item > -1 \<and> di_ttl item \<le> en_time en - di_ctime item";
          cases "di_ttl item = -1 \<or> di_ctime item + di_ttl item > en_now en") (auto simp: alive_def not_less)
    then show ?thesis
    proof cases
      case 1
      then show ?thesis
        using get_handler_alive [OF db(1) hdr Some 1 v] fits ent hdr(2)
        by (simp add: spec_reply_def reply_fits_def get_bytes_def entry_alive_def alive_def)
    next
      case 2
      then show ?thesis
        using get_handler_gone [OF db(1) hdr(1), where key = key and en = en] Some ent hdr(2)
        by (simp add: spec_reply_def ack_bytes_def entry_alive_def)
    next
      case 3
      from get_handler_lapsed [OF db(1) hdr(1) v0 Some 3] obtain db' s' where
        g: "get_handler en c (ReqGet hdr key) s = Inr (0, Some [0, 1, 1], s')"
        "s' = with_db s d db' (tr_items s') (tr_keyspace_size s - 1)" by blast
      from g(2) have "tr_client_heap s' = tr_client_heap (with_db s d db' (tr_items s') (tr_keyspace_size s - 1))" by (rule arg_cong)
      then show ?thesis using g(1) ent 3 hdr(2) by (simp add: spec_reply_def ack_bytes_def entry_alive_def)
    qed
  qed
qed

lemma worker_served:
  assumes "reachable en cf (s, evs, outs)" and "(c, pkt) \<in> set evs" and "fresh en' s"
    and "hdr_opcode (rq_header pkt) \<in> {1, 2, 3}" and "\<not> (hdr_opcode (rq_header pkt) = 2 \<and> hdr_prefix (rq_header pkt))"
    and "reply_fits pkt (map_of_server (en_db en) s)"
  shows "\<exists>s'. worker_event en' c pkt s = Inr (Some (spec_reply en' pkt (map_of_server (en_db en) s)), s') \<and>
    map_of_server (en_db en) s' = spec_request en' pkt (map_of_server (en_db en) s)"
proof -
  let ?d = "en_db en"
  have inv: "srv_inv ?d s" "tr_client_heap s c \<noteq> None" "wire_request pkt"
    using reachable_inv [OF assms(1)] assms(2) by (auto simp: conf_inv_def)
  have "\<exists>s'. worker_event en' c pkt s = Inr (Some (spec_reply en' pkt (map_of_server ?d s)), s')"
    using inv(3)
  proof (cases rule: wire_cases)
    case (put hdr ttl kl key val)
    then show ?thesis
      using put_handler_keeps [OF inv(1,2) assms(3), of hdr ttl kl key val] inv(2)
      by (auto simp: dispatch obj_read_def keeps_def spec_reply_def ack_bytes_def split: option.split)
  next
    case (get hdr key)
    have "\<not> hdr_prefix hdr" "reply_fits (ReqGet hdr key) (map_of_server ?d s)" using assms(5,6) get by simp_all
    from get_reply [OF inv(1,2) this(1) get(2) this(2), of en'] show ?thesis
      using get inv(2) by (auto simp: dispatch obj_read_def split: option.split)
  next
    case (del hdr key)
    from del_reply [OF inv(1,2), of en' hdr key] show ?thesis
      using del inv(2) by (auto simp: dispatch obj_read_def spec_reply_def split: option.split)
  qed (use assms(4) in auto)
  then obtain s' where s': "worker_event en' c pkt s = Inr (Some (spec_reply en' pkt (map_of_server ?d s)), s')" by blast
  from worker_refines [OF inv assms(3,5) s'] s' show ?thesis by blast
qed

text \<open>
  C3. The server answers as its map says. In every reachable configuration a worker completes a waiting
  PUT, DEL or GET of a single key without a fault, given memory that is not in use and, for a GET, a stored entry whose
  key and value together have less than 122 bytes; the reply is the one the map determines, and the map changes as the
  request means.
\<close>

theorem worker_serves_request:
  assumes "reachable en cf (s, evs, outs)" and "(c, pkt) \<in> set evs" and "fresh en' s"
    and "hdr_opcode (rq_header pkt) \<in> {1, 2, 3}" and "\<not> (hdr_opcode (rq_header pkt) = 2 \<and> hdr_prefix (rq_header pkt))"
    and "reply_fits pkt (map_of_server (en_db en) s)"
  shows "\<exists>s'. worker_event en' c pkt s = Inr (Some (spec_reply en' pkt (map_of_server (en_db en) s)), s') \<and>
    map_of_server (en_db en) s' = spec_request en' pkt (map_of_server (en_db en) s)"
  by (rule worker_served [OF assms])

theorem worker_serves_request_witness:
  "\<exists>s s'. reachable (demo_env 0 0) demo_config (s, [(7, ReqPut 0x10 (- 1) 1 [97] [49])], []) \<and>
     worker_event (demo_env 3 5) 7 (ReqPut 0x10 (- 1) 1 [97] [49]) s = Inr (Some [0, 1, 0], s') \<and>
     map_of_server 0 s' = [[97] \<mapsto> (Some [49], - 1, 3)]"
proof -
  obtain s where s: "reachable (demo_env 0 0) demo_config (s, [(7, ReqPut 0x10 (- 1) 1 [97] [49])], [])"
    "fresh (demo_env 3 5) s" "map_of_server 0 s = Map.empty" using demo_request by blast
  have op: "hdr_opcode 0x10 = 1" "\<not> hdr_prefix 0x10" "c_short (- 1) = - 1" by code_simp+
  from worker_serves_request [OF s(1) _ s(2), of 7 "ReqPut 0x10 (- 1) 1 [97] [49]"] op s(3) obtain s' where
    "worker_event (demo_env 3 5) 7 (ReqPut 0x10 (- 1) 1 [97] [49]) s =
       Inr (Some (spec_reply (demo_env 3 5) (ReqPut 0x10 (- 1) 1 [97] [49]) Map.empty), s')"
    "map_of_server 0 s' = spec_request (demo_env 3 5) (ReqPut 0x10 (- 1) 1 [97] [49]) Map.empty"
    by (auto simp: reply_fits_def demo_env_def)
  with s(1) op show ?thesis
    by (intro exI [of _ s] exI [of _ s'])
      (simp add: spec_reply_def ack_bytes_def spec_request_def spec_put_def c_string_def demo_env_def)
qed

subsection \<open>Histories\<close>

text \<open>
  What the workers have done since the start, in the order of their steps: the circumstances, the client,
  the request and the reply of each. All other steps leave the history as it is.
\<close>

type_synonym served_request = "env \<times> addr \<times> triedb_request \<times> bstring option"

inductive history :: "env \<Rightarrow> config \<Rightarrow> served_request list \<Rightarrow> conf \<Rightarrow> bool" for en :: env and cf :: config where
  start: "start_state en cf = Inr s \<Longrightarrow> history en cf [] (s, [], [])"
| started: "start_state en cf = Inr s \<Longrightarrow>
    history en cf [] (s\<lparr> tr_info := (tr_info s)\<lparr> nnodes := n, start_time := t \<rparr> \<rparr>, [], [])"
| work: "history en cf hist (s, evs @ (c, pkt) # evs', outs) \<Longrightarrow> worker_event en' c pkt s = Inr (reply, s') \<Longrightarrow> fresh en' s \<Longrightarrow>
    history en cf (hist @ [(en', c, pkt, reply)]) (s', evs @ evs', outs @ [(c, reply)])"
| quiet: "history en cf hist conf \<Longrightarrow> server_step conf conf' \<Longrightarrow> length (snd (snd conf')) \<le> length (snd (snd conf)) \<Longrightarrow>
    history en cf hist conf'"

text \<open>A sequential map that executes the same requests one after the other.\<close>

fun spec_replies :: "served_request list \<Rightarrow> server_map \<Rightarrow> bytes list" where
  "spec_replies [] m = []"
| "spec_replies ((en, c, pkt, r) # hist) m = spec_reply en pkt m # spec_replies hist (spec_request en pkt m)"

fun spec_map :: "served_request list \<Rightarrow> server_map \<Rightarrow> server_map" where
  "spec_map [] m = m"
| "spec_map ((en, c, pkt, r) # hist) m = spec_map hist (spec_request en pkt m)"

text \<open>PUT, DEL and GET of a single key, the entries a GET finds being short.\<close>

fun plain_history :: "served_request list \<Rightarrow> server_map \<Rightarrow> bool" where
  "plain_history [] m \<longleftrightarrow> True"
| "plain_history ((en, c, pkt, r) # hist) m \<longleftrightarrow>
     hdr_opcode (rq_header pkt) \<in> {1, 2, 3} \<and> \<not> (hdr_opcode (rq_header pkt) = 2 \<and> hdr_prefix (rq_header pkt)) \<and>
     reply_fits pkt m \<and> plain_history hist (spec_request en pkt m)"

lemma spec_snoc:
  "spec_map (hist @ [(en, c, pkt, r)]) m = spec_request en pkt (spec_map hist m)"
  "spec_replies (hist @ [(en, c, pkt, r)]) m = spec_replies hist m @ [spec_reply en pkt (spec_map hist m)]"
  "plain_history (hist @ [(en, c, pkt, r)]) m \<longleftrightarrow> plain_history hist m \<and> plain_history [(en, c, pkt, r)] (spec_map hist m)"
  by (induction hist m rule: spec_map.induct) auto

lemma history_reachable: "history en cf hist conf \<Longrightarrow> reachable en cf conf"
  by (induction rule: history.induct) (auto intro: reachable.intros server_step.work)

text \<open>Steps of the server that serve no request leave the map alone.\<close>

lemma io_read_data:
  assumes "io_read en c buf sk s = Inr (req, buf', sk', s')"
  shows "tr_db_heap s' = tr_db_heap s \<and> tr_items s' = tr_items s"
proof -
  from assms obtain cl rc s1 where "read_data (c_fd cl) buf sk s = Inr (rc, req, buf', sk', s1)"
    "s' = s1\<lparr> tr_client_heap := (tr_client_heap s1)(c \<mapsto> cl\<lparr> c_last_action_time := of_int (en_now en) \<rparr>) \<rparr>"
    by (rule io_read_split)
  then show ?thesis using read_data_state(1,2) by simp
qed

lemma quiet_step_map:
  assumes "server_step conf conf'" and "conf_inv d conf" and "length (snd (snd conf')) \<le> length (snd (snd conf))"
  shows "map_of_server d (fst conf') = map_of_server d (fst conf)"
  using assms(1)
proof cases
  case (accept en c fd uuid s s' evs outs)
  then have "tr_db_heap s' = tr_db_heap s" "tr_items s' = tr_items s" by (auto simp: accept_client_def Let_def)
  then have "map_of_server d s' = map_of_server d s" by (rule map_of_server_cong)
  then show ?thesis using accept by simp
next
  case (request en c buf sk s pkt buf' sk' s' evs outs)
  have "tr_db_heap s' = tr_db_heap s" "tr_items s' = tr_items s" using io_read_data [OF request(3)] by simp_all
  then have "map_of_server d s' = map_of_server d s" by (rule map_of_server_cong)
  then show ?thesis using request by simp
next
  case (malformed en c buf sk s buf' sk' s' evs outs)
  have "tr_db_heap s' = tr_db_heap s" "tr_items s' = tr_items s" using io_read_data [OF malformed(3)] by simp_all
  then have "map_of_server d s' = map_of_server d s" by (rule map_of_server_cong)
  then show ?thesis using malformed by simp
next
  case (reply c r ws s out s' evs outs outs')
  then have "tr_db_heap s' = tr_db_heap s" "tr_items s' = tr_items s" by (auto simp: io_write_def Let_def split: option.splits prod.splits)
  then have "map_of_server d s' = map_of_server d s" by (rule map_of_server_cong)
  then show ?thesis using reply by simp
next
  case (timer now s s' evs outs)
  then have "v_size (tr_expiring_keys s) = 0" using assms(2) by (auto simp: conf_inv_def srv_inv_def)
  then show ?thesis using timer expire_idle [of s now] by simp
next
  case (bus dgram buf s buf' s' evs outs)
  then have "tr_db_heap s' = tr_db_heap s" "tr_items s' = tr_items s" by (auto simp: bus_event_def Let_def split: option.splits)
  then have "map_of_server d s' = map_of_server d s" by (rule map_of_server_cong)
  then show ?thesis using bus by simp
next
  case (hangup s evs outs fd)
  have "map_of_server d (s\<lparr> tr_closed := tr_closed s @ [fd] \<rparr>) = map_of_server d s" by (rule map_of_server_cong) simp_all
  then show ?thesis using hangup by simp
qed (use assms(3) in auto)

lemma start_map: "start_state en cf = Inr s \<Longrightarrow> map_of_server (en_db en) s = Map.empty"
  using db_entry_empty by (auto simp: start_state_def map_of_server_def)

lemma history_sequential:
  assumes "history en cf hist conf" and "plain_history hist Map.empty"
  shows "map (\<lambda>(en', c, pkt, reply). reply) hist = map Some (spec_replies hist Map.empty) \<and>
    map_of_server (en_db en) (fst conf) = spec_map hist Map.empty"
  using assms
proof (induction rule: history.induct)
  case (start s)
  then show ?case using start_map by simp
next
  case (started s n t)
  have "map_of_server (en_db en) (s\<lparr> tr_info := (tr_info s)\<lparr> nnodes := t, start_time := n \<rparr> \<rparr>) = map_of_server (en_db en) s"
    by (rule map_of_server_cong) simp_all
  then show ?case using start_map [OF started(1)] by simp
next
  case (work hist s evs c pkt evs' outs en' reply s')
  note pl = work.prems [unfolded spec_snoc(3)]
  then have IH: "map (\<lambda>(en', c, pkt, reply). reply) hist = map Some (spec_replies hist Map.empty)"
    "map_of_server (en_db en) s = spec_map hist Map.empty" using work.IH by simp_all
  have "\<exists>s1. worker_event en' c pkt s = Inr (Some (spec_reply en' pkt (map_of_server (en_db en) s)), s1) \<and>
      map_of_server (en_db en) s1 = spec_request en' pkt (map_of_server (en_db en) s)"
    by (rule worker_served [OF history_reachable [OF work.hyps(1)] _ work.hyps(3)]) (use pl IH(2) in simp_all)
  with work.hyps(2) IH show ?case by (simp add: spec_snoc)
next
  case (quiet hist conf conf')
  then show ?case using quiet_step_map [OF quiet.hyps(2) reachable_inv [OF history_reachable [OF quiet.hyps(1)]]] by simp
qed

text \<open>
  C1. The server is a sequential map to its clients: in every run, however the threads interleave, in which the
  workers have served only PUTs, DELs and GETs of a single key, each GET finding no entry or one whose key and value together
  have less than 122 bytes, the replies they gave are those of a map that executes the same requests one after the other, in
  the order of the steps of the workers and starting empty, and the database holds the entries of this map.
\<close>

theorem replies_are_sequential:
  assumes "history en cf hist (s, evs, outs)" and "plain_history hist Map.empty"
  shows "map (\<lambda>(en', c, pkt, reply). reply) hist = map Some (spec_replies hist Map.empty) \<and>
    map_of_server (en_db en) s = spec_map hist Map.empty"
  using history_sequential [OF assms] by simp

lemma reachable_history: "reachable en cf conf \<Longrightarrow> \<exists>hist. history en cf hist conf"
proof (induction rule: reachable.induct)
  case (step conf conf')
  from step.IH obtain hist where h: "history en cf hist conf" by blast
  show ?case
    using step.hyps(2)
  proof cases
    case work
    then show ?thesis using h history.work by blast
  qed (use h history.quiet [OF h step.hyps(2)] in auto)
qed (blast intro: history.intros)+

theorem replies_are_sequential_witness:
  "\<exists>s. history (demo_env 0 0) demo_config [(demo_env 3 5, 7, ReqPut 0x10 (- 1) 1 [97] [49], Some [0, 1, 0])]
     (s, [], [(7, Some [0, 1, 0])]) \<and> map_of_server 0 s = [[97] \<mapsto> (Some [49], - 1, 3)]"
proof -
  let ?pkt = "ReqPut 0x10 (- 1) 1 [97] [49]"
  obtain s0 s1 cl where s0: "start_state (demo_env 0 0) demo_config = Inr s0" "tr_client_heap s0 = Map.empty"
    and s1: "accept_client (demo_env 0 0) 7 9 (lit ''u'') s0 = Inr s1" "tr_client_heap s1 7 = Some cl" "tr_conf s1 = demo_config"
    "tr_items s1 = Map.empty" "tr_eks s1 = Map.empty"
    "tr_db_heap s1 = [0 \<mapsto> database_init (lit ''db0'') (Some trie_node_destructor)]"
    using demo_accept by blast
  from demo_put_read [OF s1(2,3)] obtain sk buf' sk' s2 where
    r: "io_read (demo_env 1 0) 7 (replicate 64 0) sk s1 = Inr (Some ?pkt, buf', sk', s2)"
    "tr_db_heap s2 = tr_db_heap s1" "tr_items s2 = tr_items s1" "tr_eks s2 = tr_eks s1" by blast
  have h1: "history (demo_env 0 0) demo_config [] (s1, [], [])"
    by (rule history.quiet [OF history.start [OF s0(1)] server_step.accept [OF s1(1)]]) (use s0(2) in simp_all)
  have h2: "history (demo_env 0 0) demo_config [] (s2, [] @ (7, ?pkt) # [], [])"
    using history.quiet [OF h1 server_step.request [OF r(1), of "[]" "[]"]] by simp
  have fr: "fresh (demo_env 3 5) s2" using r s1 by (simp add: fresh_def demo_env_def)
  have op: "hdr_opcode 0x10 = 1" "\<not> hdr_prefix 0x10" "c_short (- 1) = - 1" by code_simp+
  have "\<exists>s3. worker_event (demo_env 3 5) 7 ?pkt s2 = Inr (Some (spec_reply (demo_env 3 5) ?pkt (map_of_server (en_db (demo_env 0 0)) s2)), s3) \<and>
      map_of_server (en_db (demo_env 0 0)) s3 = spec_request (demo_env 3 5) ?pkt (map_of_server (en_db (demo_env 0 0)) s2)"
    by (rule worker_served [OF history_reachable [OF h2] _ fr]) (use op in \<open>simp_all add: reply_fits_def\<close>)
  then obtain s3 where s3: "worker_event (demo_env 3 5) 7 ?pkt s2 = Inr (Some [0, 1, 0], s3)"
    by (auto simp: spec_reply_def ack_bytes_def)
  from history.work [OF h2 s3 fr]
  have h3: "history (demo_env 0 0) demo_config [(demo_env 3 5, 7, ?pkt, Some [0, 1, 0])] (s3, [], [(7, Some [0, 1, 0])])" by simp
  from replies_are_sequential [OF h3] op have "map_of_server 0 s3 = [[97] \<mapsto> (Some [49], - 1, 3)]"
    by (simp add: reply_fits_def spec_request_def spec_put_def demo_env_def c_string_def)
  with h3 show ?thesis by blast
qed

end
