(* ===== verification/Tdb_Range.thy ===== *)
theory Tdb_Range
  imports Tdb_Replies
begin

text \<open>
  GET of a prefix: the range query of \<^verbatim>\<open>get_handler\<close>, from the walk of the trie to the bytes of the reply. While
  all matching entries are alive it lists them; a query that matches nothing brings the server down, and so does one
  for a key with a lapsed entry below it.
\<close>

subsection \<open>The matches\<close>

definition tuple_of :: "db_item heap \<Rightarrow> kv_obj \<Rightarrow> tuple" where
  "tuple_of h kv =
     (case kv of (key, a) \<Rightarrow>
        \<lparr> tp_ttl = di_ttl (the (h a)), tp_keylen = of_nat (length key), tp_key = key, tp_val = di_data (the (h a)) \<rparr>)"

lemma kv_tuple_ok:
  assumes "vector_inv v" and "i < v_size v" and "\<forall>(k, a) \<in> set (vlist v). h a \<noteq> None"
  shows "kv_tuple h v i = Inr (tuple_of h (vlist v ! i))"
proof -
  obtain k a where ka: "vlist v ! i = (k, a)" by fastforce
  then have "(k, a) \<in> set (vlist v)" using assms(1,2) by (metis length_vlist nth_mem)
  with assms(3) obtain item where "h a = Some item" by blast
  then show ?thesis using vector_get_ok [OF assms(1,2)] ka by (simp add: kv_tuple_def tuple_of_def obj_read_Some)
qed

lemma kv_tuples_ok:
  assumes "vector_inv v" and "\<forall>(k, a) \<in> set (vlist v). h a \<noteq> None"
  shows "kv_tuples h v = (if vlist v = [] then Inl AssertFailed else Inr (map (tuple_of h) (vlist v)))"
proof -
  have "foldE (\<lambda>ts i. bindE (kv_tuple h v i) (\<lambda>t. Inr (ts @ [t]))) [] [0..<n] = Inr (map (tuple_of h) (take n (vlist v)))"
    if "n \<le> v_size v" for n
    using that
  proof (induction n)
    case (Suc n)
    then show ?case using kv_tuple_ok [OF assms(1) _ assms(2), of n] assms(1)
      by (simp add: foldE_append take_Suc_conv_app_nth)
  qed simp
  moreover have "v_size v = length (vlist v)" using assms(1) by simp
  ultimately show ?thesis by (simp add: kv_tuples_def vector_size_def)
qed

text \<open>The loop that looks for lapsed entries passes over those that are alive and changes nothing.\<close>

definition entry_lapsed :: "int \<Rightarrow> db_item \<Rightarrow> bool" where
  "entry_lapsed now item \<longleftrightarrow> di_ttl item \<noteq> -1 \<and> di_ctime item + di_ttl item - now \<le> 0"

lemma get_loop_skip:
  assumes "vector_inv v" and "n \<le> v_size v" and "i \<le> n"
    and "\<And>j. j < n \<Longrightarrow> \<exists>item. tr_items s (snd (vlist v ! j)) = Some item \<and> \<not> entry_lapsed now item"
  shows "get_loop now d key i v s = get_loop now d key n v s"
  using assms(3)
proof (induction "n - i" arbitrary: i)
  case (Suc m)
  then have i: "i < n" "i < v_size v" using assms(2) by simp_all
  obtain k a where ka: "vlist v ! i = (k, a)" by fastforce
  from assms(4) [OF i(1)] ka obtain item where item: "tr_items s a = Some item" "\<not> entry_lapsed now item" by auto
  have "get_loop now d key i v s = get_loop now d key (i + 1) v s"
    using i ka item vector_get_ok [OF assms(1) i(2)]
    by (subst get_loop.simps) (auto simp: vector_size_def obj_read_Some entry_lapsed_def)
  also have "\<dots> = get_loop now d key n v s" using Suc i by (intro Suc.hyps(1)) simp_all
  finally show ?case .
qed simp

lemma get_loop_alive:
  assumes "vector_inv v"
    and "\<forall>(k, a) \<in> set (vlist v). \<exists>item. tr_items s a = Some item \<and> (di_ttl item = -1 \<or> di_ctime item + di_ttl item > now)"
  shows "get_loop now d key 0 v s = Inr (v, s)"
proof -
  have "\<exists>item. tr_items s (snd (vlist v ! j)) = Some item \<and> \<not> entry_lapsed now item" if "j < v_size v" for j
  proof -
    have "vlist v ! j \<in> set (vlist v)" using that assms(1) by simp
    with assms(2) show ?thesis by (fastforce simp: entry_lapsed_def)
  qed
  then have "get_loop now d key 0 v s = get_loop now d key (v_size v) v s" by (intro get_loop_skip [OF assms(1)]) simp_all
  also have "\<dots> = Inr (v, s)" by (subst get_loop.simps) (simp add: vector_size_def)
  finally show ?thesis .
qed

subsection \<open>The reply\<close>

type_synonym entry = "cstring option \<times> int \<times> int"

text \<open>One entry of the reply: TTL, length of the key, key, length of the value, value.\<close>

definition range_bytes :: "cstring \<times> entry \<Rightarrow> bytes" where
  "range_bytes ke =
     (case ke of (k, v, ttl, ct) \<Rightarrow>
        packi32 (word_of_int ttl) @ packi16 (of_nat (length k)) @ k @ packi16 (of_nat (length (the v))) @ the v)"

definition range_reply :: "byte \<Rightarrow> (cstring \<times> entry) list \<Rightarrow> bytes" where
  "range_reply hdr kvs =
     (let body = concat (map range_bytes kvs) in hdr # of_nat (2 + length body) # packi16 (of_nat (length kvs)) @ body)"

definition range_size :: "(cstring \<times> entry) set \<Rightarrow> nat" where
  "range_size M = (\<Sum>(k, v, ttl, ct) \<in> M. length k + length (the v) + 8)"

text \<open>The entries of the map below a prefix.\<close>

definition matches :: "cstring \<Rightarrow> server_map \<Rightarrow> (cstring \<times> entry) set" where
  "matches p m = {(k, e). has_prefix p k \<and> m k = Some e}"

lemma range_bytes_length: "length (range_bytes (k, v, ttl, ct)) = length k + length (the v) + 8"
  by (simp add: range_bytes_def)

lemma range_size_list:
  assumes "distinct (map fst kvs)"
  shows "range_size (set kvs) = length (concat (map range_bytes kvs))"
proof -
  have "distinct kvs" using assms by (simp add: distinct_map)
  then have "range_size (set kvs) = (\<Sum>(k, v, ttl, ct) \<leftarrow> kvs. length k + length (the v) + 8)"
    by (simp add: range_size_def sum_list_distinct_conv_sum_set)
  also have "\<dots> = length (concat (map range_bytes kvs))"
    by (simp add: length_concat comp_def case_prod_unfold range_bytes_def) (rule arg_cong [where f = sum_list], simp)
  finally show ?thesis .
qed

lemma range_bounds:
  assumes "2 + length (concat (map range_bytes kvs)) < 128"
  shows "length kvs < 128" and "(k, e) \<in> set kvs \<Longrightarrow> length k < 128"
proof -
  have "length kvs \<le> length (concat (map range_bytes kvs))"
  proof (induction kvs)
    case (Cons ke kvs)
    then show ?case by (cases ke) (simp add: range_bytes_def)
  qed simp
  with assms show "length kvs < 128" by simp
  show "length k < 128" if mem: "(k, e) \<in> set kvs"
  proof -
    obtain ys zs where "kvs = ys @ (k, e) # zs" using split_list [OF mem] by blast
    then show ?thesis using assms by (cases e) (simp add: range_bytes_def)
  qed
qed

text \<open>How the vector of the trie and the entries of the map correspond.\<close>

definition entry_of :: "db_item heap \<Rightarrow> kv_obj \<Rightarrow> cstring \<times> entry" where
  "entry_of h kv = (case kv of (k, a) \<Rightarrow> (k, di_data (the (h a)), di_ttl (the (h a)), di_ctime (the (h a))))"

lemma tuple_of_bytes: "tuple_bytes (tuple_of h kv) = range_bytes (entry_of h kv)"
  by (simp add: tuple_bytes_def tuple_of_def range_bytes_def entry_of_def split: prod.split)

lemma vector_entries:
  assumes "db_sound db h" and "distinct (map fst kv)"
    and "set kv = {(k, a). has_prefix p k \<and> trie_find (db_data db) k = Inr (Some a)}"
  shows "set (map (entry_of h) kv) = matches p (db_entry (db, h)) \<and> distinct (map fst (map (entry_of h) kv)) \<and>
    (\<forall>(k, a) \<in> set kv. h a \<noteq> None)"
proof -
  note db = db_soundD [OF assms(1)]
  have kv: "(k, a) \<in> set kv \<longleftrightarrow> has_prefix p k \<and> trie_map (db_data db) k = Some a" for k a
    using assms(3) db(1) by (auto simp: trie_find_map)
  have alive: "h a \<noteq> None" if "trie_map (db_data db) k = Some a" for k a
    using db(2) that unfolding trie_owns_def by (auto intro: ranI)
  have "(k, e) \<in> entry_of h ` set kv \<longleftrightarrow> (k, e) \<in> matches p (db_entry (db, h))" for k e
  proof -
    have "(k, e) \<in> entry_of h ` set kv \<longleftrightarrow>
        (\<exists>a. has_prefix p k \<and> trie_map (db_data db) k = Some a \<and> e = (di_data (the (h a)), di_ttl (the (h a)), di_ctime (the (h a))))"
      unfolding image_iff by (auto simp: kv entry_of_def intro: bexI [of _ "(k, _)"])
    also have "\<dots> \<longleftrightarrow> (k, e) \<in> matches p (db_entry (db, h))"
      using alive [of k] by (auto simp: matches_def db_entry_def db_view_def split: option.splits)
    finally show ?thesis .
  qed
  then have "entry_of h ` set kv = matches p (db_entry (db, h))" by (intro equalityI subrelI) blast+
  then have "set (map (entry_of h) kv) = matches p (db_entry (db, h))" by simp
  moreover have "map fst (map (entry_of h) kv) = map fst kv" by (simp add: entry_of_def split: prod.split)
  then have "distinct (map fst (map (entry_of h) kv))" using assms(2) by (simp only:)
  moreover have "\<forall>(k, a) \<in> set kv. h a \<noteq> None" using alive kv by auto
  ultimately show ?thesis by blast
qed

lemma get_prefix_search:
  assumes "db_sound db h" and "trie_span (db_data db) p \<le> 31" and "0 \<notin> set p"
  obtains "database_prefix_search db p = Inr None" and "matches p (db_entry (db, h)) = {}"
    | v kvs where "database_prefix_search db p = Inr (Some v)" and "vector_inv v" and "kvs = map (entry_of h) (vlist v)"
      and "set kvs = matches p (db_entry (db, h))" and "distinct (map fst kvs)" and "\<forall>(k, a) \<in> set (vlist v). h a \<noteq> None"
proof -
  note db = db_soundD [OF assms(1)]
  from trie_prefix_find_ok [OF db(1) assms(3,2)] obtain r where r: "trie_prefix_find (db_data db) p = Inr r"
    "case r of None \<Rightarrow> \<forall>k. has_prefix p k \<longrightarrow> trie_find (db_data db) k = Inr None
     | Some v \<Rightarrow> vector_inv v \<and> distinct (map fst (vlist v)) \<and>
         set (vlist v) = {(k, a). has_prefix p k \<and> trie_find (db_data db) k = Inr (Some a)}" by blast
  show ?thesis
  proof (cases r)
    case None
    then have "\<forall>k. has_prefix p k \<longrightarrow> trie_map (db_data db) k = None" using r(2) db(1) by (simp add: trie_find_map)
    then have "matches p (db_entry (db, h)) = {}" by (auto simp: matches_def db_entry_def db_view_def)
    with None r(1) show ?thesis by (intro that(1)) (simp_all add: database_prefix_search_def)
  next
    case (Some v)
    then show ?thesis using r vector_entries [OF assms(1), of "vlist v" p] by (intro that(2) [OF _ _ refl]) (auto simp: database_prefix_search_def)
  qed
qed

text \<open>What \<^verbatim>\<open>get_handler\<close> makes of a vector of matches that are alive.\<close>

lemma get_prefix_reply:
  assumes "database_prefix_search db p = Inr (Some v)" and "vector_inv v" and "kvs = map (entry_of (tr_items s)) (vlist v)"
    and "\<forall>(k, a) \<in> set (vlist v). tr_items s a \<noteq> None" and "\<forall>(k, w, ttl, ct) \<in> set kvs. w \<noteq> None \<and> (ttl = -1 \<or> ct + ttl > en_now en)"
    and "hdr_prefix hdr" and "hdr_opcode hdr = 2" and "2 + length (concat (map range_bytes kvs)) < 128"
  shows "get_prefix en d db hdr p s = (if kvs = [] then Inl AssertFailed else Inr (0, Some (range_reply hdr kvs), s))"
proof -
  have alive: "\<forall>(k, a) \<in> set (vlist v). \<exists>item. tr_items s a = Some item \<and> (di_ttl item = -1 \<or> di_ctime item + di_ttl item > en_now en)"
    using assms(3-5) by (fastforce simp: entry_of_def)
  let ?ts = "map (tuple_of (tr_items s)) (vlist v)"
  have len: "length kvs = v_size v" using assms(2,3) by simp
  have "map tuple_bytes ?ts = map range_bytes kvs" using assms(3) by (simp add: tuple_of_bytes)
  moreover have "tuple_ok (tuple_of (tr_items s) (k, a))" if "(k, a) \<in> set (vlist v)" for k a
  proof -
    have e: "entry_of (tr_items s) (k, a) \<in> set kvs" using that assms(3) by simp
    then have "length k < 128" using range_bounds(2) [OF assms(8)] by (simp add: entry_of_def)
    then have "unat (of_nat (length k) :: u16) = length k" by (simp add: unat_of_nat take_bit_nat_eq_self)
    then show ?thesis using e assms(5) by (fastforce simp: tuple_ok_def tuple_of_def entry_of_def)
  qed
  then have "\<forall>t \<in> set ?ts. tuple_ok t" by auto
  moreover have "unat (of_nat (v_size v) :: u16) = length ?ts"
    using range_bounds(1) [OF assms(8)] len assms(2) by (simp add: unat_of_nat take_bit_nat_eq_self)
  ultimately have "pack_tuples hdr (of_nat (v_size v)) ?ts = Inr (range_reply hdr kvs)"
    using pack_tuples_short [of ?ts "of_nat (v_size v)" _ hdr] assms(8) len by (simp add: range_reply_def Let_def)
  moreover have "vlist v = [] \<longleftrightarrow> kvs = []" using assms(3) by simp
  ultimately show ?thesis
    using assms(1,6,7) get_loop_alive [OF assms(2) alive, of d p] kv_tuples_ok [OF assms(2,4)]
    by (simp add: get_prefix_def get_response_def pack_response_def pack_handlers_def pack_response_get_def)
qed

lemma worker_prefix_get:
  assumes "hdr_opcode hdr = 2" and "hdr_prefix hdr" and "serves s c d db"
  shows "worker_event en c (ReqGet hdr key) s =
    bindE (get_prefix en d db hdr (c_string key) s) (\<lambda>(rc, reply, s'). bindE (obj_read (tr_client_heap s') c) (\<lambda>_. Inr (reply, s')))"
  using assms servesD [OF assms(3)] by (simp add: dispatch get_handler_def get_key_def)

subsection \<open>A lapsed match\<close>

text \<open>
  On a lapsed match the loop removes the key of the request, not the key of the match. If the prefix is itself a
  key its item is released while its entry stays in the vector, and the reply reads the released item.
\<close>

lemma drop_expired_frees:
  assumes "srv_inv d s" and "tr_db_heap s d = Some db" and "key \<noteq> []" and "trie_map (db_data db) key = Some a0"
    and "drop_expired d key a s = Inr s'"
  shows "tr_items s' a0 = None"
proof -
  have db: "db_sound db (tr_items s)" "v_size (tr_expiring_keys s) = 0"
    using assms(1,2) by (auto simp: srv_inv_def db_good_def split: if_splits)
  from trie_delete_sound [OF db_soundD [OF db(1)], of key] assms(3,4) obtain b t' where
    "trie_delete (db_data db) key (tr_items s) = Inr (b, t', tr_items s |` (- {a0}))" by auto
  then show ?thesis using assms(2,5) db(2)
    by (auto simp: drop_expired_def database_remove_def obj_read_Some drop_expiring_none)
qed

lemma drop_expired_dead:
  assumes "srv_inv d s" and "drop_expired d key a s = Inr s'" and "tr_items s a0 = None"
  shows "tr_items s' a0 = None"
proof -
  obtain db where db: "tr_db_heap s = [d \<mapsto> db]" "db_good db (tr_items s)" "v_size (tr_expiring_keys s) = 0"
    using assms(1) by (auto simp: srv_inv_def)
  then have "db_sound db (tr_items s)" by (simp add: db_good_def)
  from remove_sound [OF this, of key] obtain b db' h' where r: "database_remove db key (tr_items s) = Inr (b, db', h')" "dom h' \<subseteq> dom (tr_items s)"
    by (auto simp: db_without_def)
  have "h' a0 = None" using r(2) assms(3) by blast
  then show ?thesis using r(1) assms(2) db(1,3) by (auto simp: drop_expired_def obj_read_Some drop_expiring_none)
qed

lemma vector_delete_before:
  assumes "vector_inv v" and "j < i" and "i < v_size v" and "vector_delete v (int i) = Inr v'"
  shows "vector_inv v'" and "j < v_size v'" and "vlist v' ! j = vlist v ! j"
proof -
  from vector_delete_ok [OF assms(1,3)] assms(4) have v': "vector_inv v'" "vlist v' = take i (vlist v) @ drop (Suc i) (vlist v)" by auto
  then show "vector_inv v'" by simp
  have "length (vlist v) = v_size v" "length (vlist v') = v_size v'" using assms(1) v'(1) by simp_all
  with v'(2) assms(2,3) show "j < v_size v'" and "vlist v' ! j = vlist v ! j" by (simp_all add: nth_append)
qed

lemma get_loop_dead:
  "get_loop now d key i v s = Inr (v', s') \<Longrightarrow> srv_inv d s \<Longrightarrow> vector_inv v \<Longrightarrow> j < i \<Longrightarrow> j < v_size v \<Longrightarrow>
   vlist v ! j = (k0, a0) \<Longrightarrow> tr_items s a0 = None \<Longrightarrow>
   vector_inv v' \<and> j < v_size v' \<and> vlist v' ! j = (k0, a0) \<and> tr_items s' a0 = None"
proof (induction now d key i v s rule: get_loop.induct)
  case (1 now d key i v s)
  show ?case
  proof (cases "i < vector_size v")
    case False
    then show ?thesis using 1(3-) by (subst (asm) get_loop.simps) simp
  next
    case True
    from 1(3) True obtain k a item where p: "vector_get v (int i) = Inr (Some (k, a))" "obj_read (tr_items s) a = Inr item"
      by (subst (asm) get_loop.simps) (auto split: option.splits)
    show ?thesis
    proof (cases "di_ttl item \<noteq> -1 \<and> di_ctime item + di_ttl item - now \<le> 0")
      case lapsed: True
      with 1(3) True p obtain s1 v1 where s1: "drop_expired d key a s = Inr s1" "vector_delete v (int i) = Inr v1"
        "get_loop now d key (i + 1) v1 s1 = Inr (v', s')"
        by (subst (asm) get_loop.simps) auto
      have "srv_inv d s1" using drop_expired_keeps [OF 1(4) s1(1)] by (simp add: keeps_def)
      moreover have "tr_items s1 a0 = None" using drop_expired_dead [OF 1(4) s1(1) 1(9)] .
      moreover note del = vector_delete_before [OF 1(5,6) _ s1(2)]
      ultimately show ?thesis using 1(1) [OF True p(1) refl refl p(2) lapsed s1] 1(6,8) True by (simp add: vector_size_def)
    next
      case alive: False
      with 1(3) True p have "get_loop now d key (i + 1) v s = Inr (v', s')"
        by (subst (asm) get_loop.simps) auto
      then show ?thesis using 1(2) [OF True p(1) refl refl p(2) alive] 1(4-) by simp
    qed
  qed
qed

lemma foldE_stuck:
  assumes "x \<in> set xs" and "\<And>acc. \<exists>e. f acc x = Inl e"
  shows "\<exists>e. foldE f acc xs = Inl e"
proof -
  obtain ys zs where xs: "xs = ys @ x # zs" using split_list [OF assms(1)] by blast
  show ?thesis
  proof (cases "foldE f acc ys")
    case (Inr b)
    then show ?thesis using assms(2) [of b] xs by (auto simp: foldE_append)
  qed (simp add: xs foldE_append)
qed

lemma kv_tuples_dead:
  assumes "vector_inv v" and "j < v_size v" and "vlist v ! j = (k, a)" and "h a = None"
  shows "\<exists>e. kv_tuples h v = Inl e"
proof -
  have "\<exists>e. kv_tuple h v j = Inl e" using vector_get_ok [OF assms(1,2)] assms(3,4) by (simp add: kv_tuple_def obj_read_def)
  then have "\<exists>e. foldE (\<lambda>ts i. bindE (kv_tuple h v i) (\<lambda>t. Inr (ts @ [t]))) [] [0..<vector_size v] = Inl e"
    using assms(2) by (intro foldE_stuck [where x = j]) (auto simp: vector_size_def)
  then show ?thesis by (simp add: kv_tuples_def)
qed

lemma prefix_find_own_first:
  assumes "trie_inv t" and "0 \<notin> set p" and "trie_span t p \<le> 31" and "trie_map t p = Some a" and "trie_prefix_find t p = Inr (Some v)"
  shows "0 < v_size v \<and> vlist v ! 0 = (p, a)"
proof -
  from assms(1) obtain root where root: "t_root t = Some root" "tn_chr root = 0" "trie_node_inv root"
    "trie_map t = trie_node_search root" by (rule trie_invE)
  then obtain m where m: "trie_node_find root p = Some m" "trie_node_search m [] = Some a"
    using assms(4) trie_node_search_append [of root p "[]"] by (auto split: option.splits)
  then have "length p + trie_depth m \<le> 31" using assms(3) root(1) by (simp add: trie_span_def)
  from trie_prefix_find_entries [OF root(1-3) m(1) this assms(2)] assms(5) have
    v: "vector_inv v" "vlist v = map (apfst ((@) p)) (trie_entries m)" by auto
  then have "vlist v = (p, a) # tl (vlist v)" using m(2) by (cases m) (auto split: option.splits)
  moreover have "length (vlist v) = v_size v" using v(1) by simp
  ultimately show ?thesis by (metis length_greater_0_conv list.distinct(1) nth_Cons_0)
qed

lemma get_prefix_lapsed:
  assumes "srv_inv d s" and "tr_db_heap s d = Some db" and "key \<noteq> []" and "trie_map (db_data db) key = Some a0"
    and "database_prefix_search db key = Inr (Some v)" and "vector_inv v" and "0 < v_size v" and "vlist v ! 0 = (key, a0)"
    and "\<And>k a. (k, a) \<in> set (vlist v) \<Longrightarrow> tr_items s a \<noteq> None"
    and "\<not> entry_lapsed (en_now en) (the (tr_items s a0))"
    and "(k1, a1) \<in> set (vlist v)" and "entry_lapsed (en_now en) (the (tr_items s a1))" and "hdr_prefix hdr"
  shows "\<exists>e. get_prefix en d db hdr key s = Inl e"
proof -
  let ?lap = "\<lambda>j. j < v_size v \<and> entry_lapsed (en_now en) (the (tr_items s (snd (vlist v ! j))))"
  have len: "length (vlist v) = v_size v" using assms(6) by simp
  have "\<exists>j. ?lap j" using assms(11,12) len by (metis in_set_conv_nth snd_conv)
  then obtain n where n: "?lap n" "\<And>j. j < n \<Longrightarrow> \<not> ?lap j" using exists_least_iff [of ?lap] by blast
  have item: "tr_items s (snd (vlist v ! j)) \<noteq> None" if "j < v_size v" for j
    using assms(9) [of "fst (vlist v ! j)" "snd (vlist v ! j)"] that len by simp
  have pos: "0 < n" using n(1) assms(8,10) by (cases n) simp_all
  have "\<exists>it. tr_items s (snd (vlist v ! j)) = Some it \<and> \<not> entry_lapsed (en_now en) it" if "j < n" for j
    using n(1) n(2) [OF that] item [of j] that by auto
  then have skip: "get_loop (en_now en) d key 0 v s = get_loop (en_now en) d key n v s"
    using n(1) by (intro get_loop_skip [OF assms(6)]) simp_all
  obtain k a where ka: "vlist v ! n = (k, a)" by fastforce
  show ?thesis
  proof (cases "get_loop (en_now en) d key n v s")
    case (Inl e)
    then show ?thesis using assms(5) skip by (simp add: get_prefix_def)
  next
    case (Inr r)
    obtain v' s' where r: "r = (v', s')" by fastforce
    from Inr r n(1) ka item [of n] vector_get_ok [OF assms(6), of n] obtain s1 v1 where
      s1: "drop_expired d key a s = Inr s1" "vector_delete v (int n) = Inr v1" "get_loop (en_now en) d key (n + 1) v1 s1 = Inr (v', s')"
      by (subst (asm) get_loop.simps) (auto simp: vector_size_def obj_read_Some entry_lapsed_def)
    have "srv_inv d s1" using drop_expired_keeps [OF assms(1) s1(1)] by (simp add: keeps_def)
    moreover have "tr_items s1 a0 = None" using drop_expired_frees [OF assms(1-4) s1(1)] .
    moreover note vector_delete_before [OF assms(6) pos _ s1(2)]
    ultimately have "vector_inv v' \<and> 0 < v_size v' \<and> vlist v' ! 0 = (key, a0) \<and> tr_items s' a0 = None"
      using n(1) assms(8) by (intro get_loop_dead [OF s1(3)]) simp_all
    then obtain e where "kv_tuples (tr_items s') v' = Inl e" using kv_tuples_dead by blast
    then show ?thesis using assms(5,13) skip Inr r by (simp add: get_prefix_def get_response_def)
  qed
qed

subsection \<open>Properties\<close>

text \<open>
  C8. GET of a prefix lists the range: in every reachable configuration, if the paths of the trie below the prefix fit
  the buffer of 32 bytes, some entry matches, all that match are alive and the reply stays below 128
  bytes, the worker answers with the number of matching entries and each of them exactly once, with its
  TTL, key and value, and changes nothing.
\<close>

theorem get_prefix_correct:
  assumes "reachable en cf (s, evs, outs)" and "tr_client_heap s c \<noteq> None" and "hdr_opcode hdr = 2" and "hdr_prefix hdr"
    and "tr_db_heap s (en_db en) = Some db" and "trie_span (db_data db) (c_string key) \<le> 31"
    and "M = matches (c_string key) (map_of_server (en_db en) s)" and "M \<noteq> {}" and "range_size M + 2 < 128"
    and "\<forall>(k, v, ttl, ct) \<in> M. ttl = -1 \<or> ct + ttl > en_now en'"
  shows "\<exists>kvs. set kvs = M \<and> distinct (map fst kvs) \<and>
    worker_event en' c (ReqGet hdr key) s = Inr (Some (range_reply hdr kvs), s)"
proof -
  have inv: "srv_inv (en_db en) s" using reachable_inv [OF assms(1)] by (simp add: conf_inv_def)
  obtain db' where db': "serves s c (en_db en) db'" "db_good db' (tr_items s)" using inv assms(2) by (rule srv_invD)
  then have db: "serves s c (en_db en) db" "db_good db (tr_items s)" using servesD(3) [OF db'(1)] assms(5) by simp_all
  note sound = servesD(2) [OF db(1)]
  have M: "M = matches (c_string key) (db_entry (db, tr_items s))" using assms(7) map_of_server_eq [OF assms(5)] by simp
  have val: "\<forall>(k, v, ttl, ct) \<in> M. v \<noteq> None"
    using db(2) unfolding M by (auto simp: matches_def db_entry_def db_good_def)
  show ?thesis
    using sound assms(6) c_string_no_nul
  proof (rule get_prefix_search)
    assume "matches (c_string key) (db_entry (db, tr_items s)) = {}"
    then show ?thesis using assms(8) M by simp
  next
    fix v kvs
    assume v: "database_prefix_search db (c_string key) = Inr (Some v)" "vector_inv v" "kvs = map (entry_of (tr_items s)) (vlist v)"
      and kvs: "set kvs = matches (c_string key) (db_entry (db, tr_items s))" "distinct (map fst kvs)"
      and heap: "\<forall>(k, a) \<in> set (vlist v). tr_items s a \<noteq> None"
    have len: "2 + length (concat (map range_bytes kvs)) < 128" using range_size_list [OF kvs(2)] kvs(1) M assms(9) by simp
    have al: "\<forall>(k, w, ttl, ct) \<in> set kvs. w \<noteq> None \<and> (ttl = -1 \<or> ct + ttl > en_now en')"
      unfolding kvs(1) M [symmetric] using val assms(10) by (simp add: case_prod_unfold)
    have "kvs \<noteq> []" using kvs(1) M assms(8) by force
    then have "get_prefix en' (en_db en) db hdr (c_string key) s = Inr (0, Some (range_reply hdr kvs), s)"
      using get_prefix_reply [OF v heap al assms(4,3) len, of "en_db en"] by simp
    then have "worker_event en' c (ReqGet hdr key) s = Inr (Some (range_reply hdr kvs), s)"
      using worker_prefix_get [OF assms(3,4) db(1)] assms(2) by (auto simp: obj_read_def split: option.split)
    then show ?thesis using kvs M by blast
  qed
qed

text \<open>
  C23. GET of a prefix that no key starts with stops the server: the walk finds no node and the handler takes the size of
  a NULL vector, or it finds a node without keys and the reply asks for a block of no bytes, which fails an
  assertion. The comment in the handler promises a NOK.
\<close>

theorem get_prefix_no_match_faults:
  assumes "reachable en cf (s, evs, outs)" and "tr_client_heap s c \<noteq> None" and "hdr_opcode hdr = 2" and "hdr_prefix hdr"
    and "tr_db_heap s (en_db en) = Some db" and "trie_span (db_data db) (c_string key) \<le> 31"
    and "matches (c_string key) (map_of_server (en_db en) s) = {}"
  shows "worker_event en' c (ReqGet hdr key) s \<in> {Inl NullDeref, Inl AssertFailed}"
proof -
  have inv: "srv_inv (en_db en) s" using reachable_inv [OF assms(1)] by (simp add: conf_inv_def)
  obtain db' where db': "serves s c (en_db en) db'" using inv assms(2) by (rule srv_invD)
  then have db: "serves s c (en_db en) db" using servesD(3) [OF db'] assms(5) by simp
  note w = worker_prefix_get [OF assms(3,4) db, of en' key]
  have M: "matches (c_string key) (db_entry (db, tr_items s)) = {}" using assms(7) map_of_server_eq [OF assms(5)] by simp
  show ?thesis
    using servesD(2) [OF db] assms(6) c_string_no_nul
  proof (rule get_prefix_search)
    assume "database_prefix_search db (c_string key) = Inr None"
    then show ?thesis using w by (simp add: get_prefix_def)
  next
    fix v kvs
    assume v: "database_prefix_search db (c_string key) = Inr (Some v)" "vector_inv v" "kvs = map (entry_of (tr_items s)) (vlist v)"
      and kvs: "set kvs = matches (c_string key) (db_entry (db, tr_items s))" and heap: "\<forall>(k, a) \<in> set (vlist v). tr_items s a \<noteq> None"
    have "kvs = []" using kvs M by simp
    with get_prefix_reply [OF v heap _ assms(4,3), of en' "en_db en"] w show ?thesis by simp
  qed
qed

theorem get_prefix_no_match_faults_witness:
  "\<exists>s. reachable (demo_env 0 0) demo_config (s, [], []) \<and>
     worker_event (demo_env 3 5) 7 (ReqGet 0x28 [97]) s \<in> {Inl NullDeref, Inl AssertFailed}"
proof -
  let ?db = "database_init (lit ''db0'') (Some trie_node_destructor)"
  obtain s where s: "reachable (demo_env 0 0) demo_config (s, [], [])" "tr_client_heap s 7 \<noteq> None" "map_of_server 0 s = Map.empty"
    "tr_db_heap s = [0 \<mapsto> ?db]" using demo_server by blast
  have h: "hdr_opcode 0x28 = 2" "hdr_prefix 0x28" "c_string [97] = [97]" "trie_span (db_data ?db) [97] \<le> 31" by code_simp+
  have "tr_db_heap s (en_db (demo_env 0 0)) = Some ?db" using s(4) by (simp add: demo_env_def)
  from get_prefix_no_match_faults [OF s(1,2) h(1,2) this, of "[97]" "demo_env 3 5"] h s(3) show ?thesis
    using s(1) by (auto simp: matches_def demo_env_def)
qed

text \<open>
  GET of a prefix that is itself a key alive, below which some entry has lapsed, ends in a memory fault: the
  loop removes the key of the request instead of the lapsed one and the reply reads the item just freed.
\<close>

theorem get_prefix_lapsed_faults:
  assumes "reachable en cf (s, evs, outs)" and "tr_client_heap s c \<noteq> None" and "hdr_opcode hdr = 2" and "hdr_prefix hdr"
    and "tr_db_heap s (en_db en) = Some db" and "trie_span (db_data db) (c_string key) \<le> 31" and "c_string key \<noteq> []"
    and "map_of_server (en_db en) s (c_string key) = Some (w, ttl, ct)" and "ttl = -1 \<or> ct + ttl > en_now en'"
    and "(k1, w1, ttl1, ct1) \<in> matches (c_string key) (map_of_server (en_db en) s)" and "ttl1 \<noteq> -1" and "ct1 + ttl1 \<le> en_now en'"
  shows "\<exists>e. worker_event en' c (ReqGet hdr key) s = Inl e"
proof -
  let ?p = "c_string key" and ?h = "tr_items s"
  have inv: "srv_inv (en_db en) s" using reachable_inv [OF assms(1)] by (simp add: conf_inv_def)
  obtain db' where db': "serves s c (en_db en) db'" using inv assms(2) by (rule srv_invD)
  then have db: "serves s c (en_db en) db" using servesD(3) [OF db'] assms(5) by simp
  note sound = servesD(2) [OF db] and t = db_soundD(1) [OF servesD(2) [OF db]]
  have m: "map_of_server (en_db en) s = db_entry (db, ?h)" using map_of_server_eq [OF assms(5)] .
  from assms(8) m obtain a0 item where a0: "trie_map (db_data db) ?p = Some a0" "?h a0 = Some item" "di_ttl item = ttl" "di_ctime item = ct"
    by (auto simp: db_entry_def db_view_def split: option.splits)
  have M: "matches ?p (db_entry (db, ?h)) \<noteq> {}" using assms(10) m by auto
  have "\<exists>e. get_prefix en' (en_db en) db hdr ?p s = Inl e"
    using sound assms(6) c_string_no_nul
  proof (rule get_prefix_search)
    assume "matches ?p (db_entry (db, ?h)) = {}"
    with M show ?thesis by simp
  next
    fix v kvs
    assume v: "database_prefix_search db ?p = Inr (Some v)" "vector_inv v" "kvs = map (entry_of ?h) (vlist v)"
      and kvs: "set kvs = matches ?p (db_entry (db, ?h))" and heap: "\<forall>(k, a) \<in> set (vlist v). ?h a \<noteq> None"
    have own: "0 < v_size v" "vlist v ! 0 = (?p, a0)"
      using prefix_find_own_first [OF t c_string_no_nul assms(6) a0(1)] v(1) by (simp_all add: database_prefix_search_def)
    have "(k1, w1, ttl1, ct1) \<in> entry_of ?h ` set (vlist v)" using assms(10) m kvs v(3) by simp
    then obtain k a1 where a1: "(k, a1) \<in> set (vlist v)" "ttl1 = di_ttl (the (?h a1))" "ct1 = di_ctime (the (?h a1))"
      by (auto simp: entry_of_def)
    have "\<not> entry_lapsed (en_now en') (the (?h a0))" using a0 assms(9) by (auto simp: entry_lapsed_def)
    moreover have "entry_lapsed (en_now en') (the (?h a1))" using a1 assms(11,12) by (simp add: entry_lapsed_def)
    moreover have "?h a \<noteq> None" if "(k, a) \<in> set (vlist v)" for k a using heap that by blast
    ultimately show ?thesis
      using get_prefix_lapsed [OF inv assms(5,7) a0(1) v(1,2) own _ _ a1(1) _ assms(4)] by blast
  qed
  then show ?thesis using worker_prefix_get [OF assms(3,4) db] by auto
qed

lemma distinct_singleton: "distinct xs \<Longrightarrow> set xs = {x} \<Longrightarrow> xs = [x]"
  by (cases xs; cases "tl xs") auto

lemma demo_span:
  "(case database_insert (database_init (lit ''db0'') (Some trie_node_destructor)) [97] (Some [49]) (- 1) 3 5 Map.empty of
      Inl e \<Rightarrow> False | Inr (db, items) \<Rightarrow> trie_span (db_data db) [97] = 1)"
  by code_simp

lemma demo_stored:
  "\<exists>s db outs. reachable (demo_env 0 0) demo_config (s, [], outs) \<and> tr_client_heap s 7 \<noteq> None \<and>
     map_of_server 0 s = [[97] \<mapsto> (Some [49], - 1, 3)] \<and> tr_db_heap s 0 = Some db \<and> trie_span (db_data db) [97] = 1"
proof -
  let ?pkt = "ReqPut 0x10 (- 1) 1 [97] [49]"
  let ?db = "database_init (lit ''db0'') (Some trie_node_destructor)"
  obtain s where s: "reachable (demo_env 0 0) demo_config (s, [] @ (7, ?pkt) # [], [])" "fresh (demo_env 3 5) s"
    "tr_client_heap s 7 \<noteq> None" "map_of_server 0 s = Map.empty" "tr_items s = Map.empty" "tr_db_heap s = [0 \<mapsto> ?db]"
    using demo_request by auto
  have inv: "srv_inv 0 s" "wire_request ?pkt" using reachable_inv [OF s(1)] by (auto simp: conf_inv_def demo_env_def)
  have op: "hdr_opcode 0x10 = 1" "\<not> hdr_prefix 0x10" "c_short (- 1) = - 1" "c_string [97] = [97]" "c_string [49] = [49]" by code_simp+
  obtain db items where ins: "database_insert ?db [97] (Some [49]) (- 1) 3 5 Map.empty = Inr (db, items)" "trie_span (db_data db) [97] = 1"
    using demo_span by (auto split: sum.splits prod.splits)
  obtain db' where "serves s 7 0 db'" using inv(1) s(3) by (rule srv_invD)
  then have cdb: "client_db s 7 = Inr (0, ?db)" using servesD(1,3) s(6) by force
  obtain s' where s': "worker_event (demo_env 3 5) 7 ?pkt s = Inr (Some [0, 1, 0], s')" "tr_db_heap s' 0 = Some db" "tr_client_heap s' 7 \<noteq> None"
    using ins(1) cdb op s(3,5) by (auto simp: dispatch put_handler_def ack_reply_eq demo_env_def obj_read_Some)
  have "map_of_server 0 s' = spec_request (demo_env 3 5) ?pkt (map_of_server 0 s)"
    by (rule worker_refines [OF inv(1) s(3) inv(2) s(2) _ s'(1)]) (use op in simp)
  then have "map_of_server 0 s' = [[97] \<mapsto> (Some [49], - 1, 3)]"
    using op s(4) by (simp add: spec_request_def spec_put_def demo_env_def)
  with reachable.step [OF s(1) server_step.work [OF s'(1) s(2)]] s'(2,3) ins(2) show ?thesis by auto
qed

theorem get_prefix_correct_witness:
  "\<exists>s outs. reachable (demo_env 0 0) demo_config (s, [], outs) \<and>
     worker_event (demo_env 9 9) 7 (ReqGet 0x28 [97]) s =
       Inr (Some [0x28, 12, 0, 1, 255, 255, 255, 255, 0, 1, 97, 0, 1, 49], s)"
proof -
  obtain s db outs where s: "reachable (demo_env 0 0) demo_config (s, [], outs)" "tr_client_heap s 7 \<noteq> None"
    "map_of_server 0 s = [[97] \<mapsto> (Some [49], - 1, 3)]" "tr_db_heap s 0 = Some db" "trie_span (db_data db) [97] = 1" using demo_stored by blast
  have h: "hdr_opcode 0x28 = 2" "hdr_prefix 0x28" "c_string [97] = [97]" by code_simp+
  let ?M = "{([97], Some [49], - 1, 3)} :: (cstring \<times> entry) set"
  have M: "matches (c_string [97]) (map_of_server (en_db (demo_env 0 0)) s) = ?M"
    using s(3) h(3) by (auto simp: matches_def demo_env_def has_prefix_def split: if_splits)
  have db: "tr_db_heap s (en_db (demo_env 0 0)) = Some db" "trie_span (db_data db) (c_string [97]) \<le> 31"
    using s(4,5) h(3) by (simp_all add: demo_env_def)
  have sz: "range_size ?M + 2 < 128" by (simp add: range_size_def)
  from get_prefix_correct [OF s(1,2) h(1,2) db M [symmetric] _ sz, of "demo_env 9 9"] obtain kvs where
    kvs: "set kvs = ?M" "distinct (map fst kvs)"
    "worker_event (demo_env 9 9) 7 (ReqGet 0x28 [97]) s = Inr (Some (range_reply 0x28 kvs), s)" by auto
  have "distinct kvs" using kvs(2) by (simp add: distinct_map)
  then have "kvs = [([97], Some [49], - 1, 3)]" using kvs(1) by (rule distinct_singleton)
  moreover have "range_reply 0x28 [([97], Some [49], - 1, 3)] = [0x28, 12, 0, 1, 255, 255, 255, 255, 0, 1, 97, 0, 1, 49]" by code_simp
  ultimately show ?thesis using kvs(3) s(1) by auto
qed

end
