(* ===== verification/Tdb_Loop.thy ===== *)
theory Tdb_Loop
  imports Tdb_Service
begin

text \<open>
  The loops of the three kinds of threads of \<^verbatim>\<open>src/server.c\<close>: \<^verbatim>\<open>accept_loop\<close>, \<^verbatim>\<open>io_worker\<close> and \<^verbatim>\<open>worker\<close>.
  What \<^verbatim>\<open>epoll_wait\<close> returns, turn by turn, is an argument, and so are the answers of the calls a
  branch makes to the kernel. The loops run on configurations of \<open>Tdb_Service\<close>; the properties say that
  a worker serves its batches completely and stops where it is told to. The loops take no other steps
  than those of the transition system.
\<close>

subsection \<open>The skeleton of a loop\<close>

text \<open>
  An event as the loops look at it: its flags, its data read as a descriptor, its data read as a
  pointer to an object, and the environment of the handler that it starts. What \<^verbatim>\<open>data.fd\<close> is for an
  event whose data is a pointer is not fixed, as the union leaves it.
\<close>

record 'p epoll_event =
  ee_err :: bool
  ee_hup :: bool
  ee_in :: bool
  ee_out :: bool
  ee_fd :: int
  ee_ptr :: 'p
  ee_env :: env

definition EPOLL_ERR :: "'p epoll_event \<Rightarrow> bool" where
  "EPOLL_ERR e \<longleftrightarrow> ee_err e \<or> ee_hup e \<or> (\<not> ee_in e \<and> \<not> ee_out e)"

text \<open>One return of \<^verbatim>\<open>epoll_wait\<close>: interrupted by a signal, failed, or with events.\<close>

datatype 'e wait = WaitInterrupted | WaitFailed | WaitEvents "'e list"

text \<open>
  How far a loop comes on a list of returns: it waits for the next one, it has left the loop, or a
  branch failed.
\<close>

datatype 'c outcome = Waiting 'c | Stopped 'c | Failed c_fault

fun epoll_events :: "('p epoll_event \<Rightarrow> 'c \<Rightarrow> 'c cres) \<Rightarrow> (int \<Rightarrow> 'c \<Rightarrow> 'c) \<Rightarrow> int \<Rightarrow> 'p epoll_event list \<Rightarrow> 'c \<Rightarrow> 'c outcome" where
  "epoll_events branch hang run [] c = Waiting c"
| "epoll_events branch hang run (e # es) c =
     (if EPOLL_ERR e then epoll_events branch hang run es (hang (ee_fd e) c)
      else if ee_fd e = run then Stopped c
      else (case branch e c of
              Inl f \<Rightarrow> Failed f
            | Inr c' \<Rightarrow> epoll_events branch hang run es c'))"

fun epoll_loop :: "('p epoll_event \<Rightarrow> 'c \<Rightarrow> 'c cres) \<Rightarrow> (int \<Rightarrow> 'c \<Rightarrow> 'c) \<Rightarrow> int \<Rightarrow> 'p epoll_event wait list \<Rightarrow> 'c \<Rightarrow> 'c outcome" where
  "epoll_loop branch hang run [] c = Waiting c"
| "epoll_loop branch hang run (WaitInterrupted # ws) c = epoll_loop branch hang run ws c"
| "epoll_loop branch hang run (WaitFailed # ws) c = Stopped c"
| "epoll_loop branch hang run (WaitEvents es # ws) c =
     (case epoll_events branch hang run es c of
        Waiting c' \<Rightarrow> epoll_loop branch hang run ws c'
      | r \<Rightarrow> r)"

text \<open>
  What the kernel and the allocator promise about the events of a list of returns, as a condition beside the loops:
  \<open>ok\<close> holds of each event in the state in which its branch starts.
\<close>

fun delivers_events :: "('p epoll_event \<Rightarrow> 'c \<Rightarrow> bool) \<Rightarrow> ('p epoll_event \<Rightarrow> 'c \<Rightarrow> 'c cres) \<Rightarrow> (int \<Rightarrow> 'c \<Rightarrow> 'c) \<Rightarrow> int \<Rightarrow>
    'p epoll_event list \<Rightarrow> 'c \<Rightarrow> bool" where
  "delivers_events ok branch hang run [] c \<longleftrightarrow> True"
| "delivers_events ok branch hang run (e # es) c \<longleftrightarrow>
     (if EPOLL_ERR e then delivers_events ok branch hang run es (hang (ee_fd e) c)
      else if ee_fd e = run then True
      else ok e c \<and> (case branch e c of Inl f \<Rightarrow> True | Inr c' \<Rightarrow> delivers_events ok branch hang run es c'))"

fun delivers :: "('p epoll_event \<Rightarrow> 'c \<Rightarrow> bool) \<Rightarrow> ('p epoll_event \<Rightarrow> 'c \<Rightarrow> 'c cres) \<Rightarrow> (int \<Rightarrow> 'c \<Rightarrow> 'c) \<Rightarrow> int \<Rightarrow>
    'p epoll_event wait list \<Rightarrow> 'c \<Rightarrow> bool" where
  "delivers ok branch hang run [] c \<longleftrightarrow> True"
| "delivers ok branch hang run (WaitInterrupted # ws) c \<longleftrightarrow> delivers ok branch hang run ws c"
| "delivers ok branch hang run (WaitFailed # ws) c \<longleftrightarrow> True"
| "delivers ok branch hang run (WaitEvents es # ws) c \<longleftrightarrow>
     delivers_events ok branch hang run es c \<and>
     (case epoll_events branch hang run es c of Waiting c' \<Rightarrow> delivers ok branch hang run ws c' | r \<Rightarrow> True)"

text \<open>\<^verbatim>\<open>close(e_events[i].data.fd)\<close>.\<close>

definition hang_up :: "int \<Rightarrow> conf \<Rightarrow> conf" where
  "hang_up fd conf = (case conf of (s, evs, outs) \<Rightarrow> (s\<lparr> tr_closed := tr_closed s @ [fd] \<rparr>, evs, outs))"

subsection \<open>The worker threads\<close>

text \<open>The pointer of an event is the \<^verbatim>\<open>io_event\<close> of a request that waits: its client and its payload.\<close>

type_synonym worker_io = "(addr \<times> triedb_request) epoll_event"

definition worker_branch :: "int \<Rightarrow> worker_io \<Rightarrow> conf \<Rightarrow> conf cres" where
  "worker_branch expirefd e conf =
     (case conf of (s, evs, outs) \<Rightarrow>
        if ee_fd e = expirefd then bindE (expire_keys (en_now (ee_env e)) s) (\<lambda>s'. Inr (s', evs, outs))
        else if ee_in e then
          (case ee_ptr e of (c, pkt) \<Rightarrow>
             bindE (worker_event (ee_env e) c pkt s) (\<lambda>(reply, s').
               Inr (s', remove1 (c, pkt) evs, outs @ [(c, reply)])))
        else Inr conf)"

definition worker :: "int \<Rightarrow> int \<Rightarrow> worker_io wait list \<Rightarrow> conf \<Rightarrow> conf outcome" where
  "worker run expirefd = epoll_loop (worker_branch expirefd) hang_up run"

text \<open>
  A request is registered once, so its event is delivered while it waits, and memory a handler asks for is not in
  use.
\<close>

definition worker_delivered :: "int \<Rightarrow> worker_io \<Rightarrow> conf \<Rightarrow> bool" where
  "worker_delivered expirefd e conf =
     (case conf of (s, evs, outs) \<Rightarrow>
        ee_fd e = expirefd \<or> \<not> ee_in e \<or> (ee_ptr e \<in> set evs \<and> fresh (ee_env e) s))"

definition worker_memory :: "int \<Rightarrow> worker_io \<Rightarrow> conf \<Rightarrow> bool" where
  "worker_memory expirefd e conf \<longleftrightarrow> ee_fd e = expirefd \<or> fresh (ee_env e) (fst conf)"

subsection \<open>The I/O threads\<close>

text \<open>
  What the pointer of an event leads to: a client to read from, with what its socket delivers, or the
  \<^verbatim>\<open>io_event\<close> of a reply to write, with what the socket takes; for the bus, the datagram. The state of an I/O
  thread has its buffer.
\<close>

record io_data =
  io_client :: addr
  io_socket :: "io_result list"
  io_reply :: "addr \<times> bstring option"
  io_writes :: "write_result list"
  io_dgram :: "bytes option"

type_synonym io_conf = "bytes \<times> conf"

definition io_branch :: "int \<Rightarrow> io_data epoll_event \<Rightarrow> io_conf \<Rightarrow> io_conf cres" where
  "io_branch busfd e ioc =
     (case ioc of (buf, s, evs, outs) \<Rightarrow>
        if 0 < busfd \<and> ee_fd e = busfd then
          bindE (bus_event (io_dgram (ee_ptr e)) buf s) (\<lambda>(buf', s'). Inr (buf', s', evs, outs))
        else if ee_in e then
          (let c = io_client (ee_ptr e) in
           bindE (io_read (ee_env e) c buf (io_socket (ee_ptr e)) s) (\<lambda>(pkt, buf', sk', s').
             Inr (buf', s', evs @ (case pkt of None \<Rightarrow> [] | Some p \<Rightarrow> [(c, p)]), outs)))
        else if ee_out e then
          (case io_reply (ee_ptr e) of (c, reply) \<Rightarrow>
             bindE (io_write c reply (io_writes (ee_ptr e)) s) (\<lambda>(out, s').
               Inr (buf, s', evs, remove1 (c, reply) outs)))
        else Inr ioc)"

definition io_worker :: "int \<Rightarrow> int \<Rightarrow> io_data epoll_event wait list \<Rightarrow> io_conf \<Rightarrow> io_conf outcome" where
  "io_worker run busfd =
     epoll_loop (io_branch busfd) (\<lambda>fd (buf, conf). (buf, hang_up fd conf)) run"

text \<open>A reply is registered once, by the worker, so its event is delivered while it waits.\<close>

definition io_delivered :: "int \<Rightarrow> io_data epoll_event \<Rightarrow> io_conf \<Rightarrow> bool" where
  "io_delivered busfd e ioc =
     (case ioc of (buf, s, evs, outs) \<Rightarrow>
        (0 < busfd \<and> ee_fd e = busfd) \<or> ee_in e \<or> io_reply (ee_ptr e) \<in> set outs)"

subsection \<open>The main thread\<close>

text \<open>
  An event of the listening socket comes with the connections \<^verbatim>\<open>accept_connection\<close> returns until it
  fails: the environment, the block for the client, the descriptor and the uuid of each.
\<close>

type_synonym connections = "(env \<times> addr \<times> int \<times> cstring) list"

definition accept_branch :: "int \<Rightarrow> connections epoll_event \<Rightarrow> conf \<Rightarrow> conf cres" where
  "accept_branch serverfd e conf =
     (case conf of (s, evs, outs) \<Rightarrow>
        if ee_fd e = serverfd then
          bindE (foldE (\<lambda>s (en, c, fd, uuid). accept_client en c fd uuid s) s (ee_ptr e)) (\<lambda>s'. Inr (s', evs, outs))
        else Inr conf)"

definition accept_loop :: "int \<Rightarrow> int \<Rightarrow> connections epoll_event wait list \<Rightarrow> conf \<Rightarrow> conf outcome" where
  "accept_loop run serverfd = epoll_loop (accept_branch serverfd) hang_up run"

text \<open>The blocks for new clients are not in use.\<close>

definition accept_delivered :: "int \<Rightarrow> connections epoll_event \<Rightarrow> conf \<Rightarrow> bool" where
  "accept_delivered serverfd e conf =
     (case conf of (s, evs, outs) \<Rightarrow>
        ee_fd e \<noteq> serverfd \<or>
        (distinct (map (\<lambda>(en, c, fd, uuid). c) (ee_ptr e)) \<and>
         (\<forall>(en, c, fd, uuid) \<in> set (ee_ptr e). tr_client_heap s c = None)))"

subsection \<open>The loops take steps of the server\<close>

text \<open>
  What a thread promises: its branches, and closing a descriptor, are made of steps of the system, \<open>sys\<close>
  being any number of them. Then its whole loop is.
\<close>

locale event_thread =
  fixes delivered :: "'p epoll_event \<Rightarrow> 'c \<Rightarrow> bool" and branch :: "'p epoll_event \<Rightarrow> 'c \<Rightarrow> 'c cres"
    and hang :: "int \<Rightarrow> 'c \<Rightarrow> 'c" and sys :: "'c \<Rightarrow> 'c \<Rightarrow> bool"
  assumes sys_refl: "sys c c" and sys_trans: "sys a b \<Longrightarrow> sys b c \<Longrightarrow> sys a c"
    and branch_sys: "delivered e c \<Longrightarrow> branch e c = Inr c' \<Longrightarrow> \<not> EPOLL_ERR e \<Longrightarrow> sys c c'"
    and hang_sys: "sys c (hang fd c)"
begin

lemma events_sys:
  "delivers_events delivered branch hang run es c \<Longrightarrow>
   epoll_events branch hang run es c = Waiting c' \<or> epoll_events branch hang run es c = Stopped c' \<Longrightarrow> sys c c'"
proof (induction es arbitrary: c)
  case Nil
  then show ?case using sys_refl by simp
next
  case (Cons e es)
  show ?case
  proof (cases "EPOLL_ERR e")
    case True
    with Cons have "sys (hang (ee_fd e) c) c'" by simp
    with hang_sys show ?thesis by (rule sys_trans)
  next
    case False
    show ?thesis
    proof (cases "ee_fd e = run")
      case True
      with False Cons.prems sys_refl show ?thesis by (auto split: if_splits)
    next
      case run: False
      with False Cons.prems obtain c1 where c1: "branch e c = Inr c1" "delivered e c" by (auto split: sum.splits)
      with run False Cons have "sys c1 c'" by simp
      with branch_sys [OF c1(2,1) False] show ?thesis by (rule sys_trans)
    qed
  qed
qed

lemma loop_sys:
  "delivers delivered branch hang run ws c \<Longrightarrow>
   epoll_loop branch hang run ws c = Waiting c' \<or> epoll_loop branch hang run ws c = Stopped c' \<Longrightarrow> sys c c'"
proof (induction ws arbitrary: c)
  case Nil
  then show ?case using sys_refl by simp
next
  case (Cons w ws)
  show ?case
  proof (cases w)
    case (WaitEvents es)
    show ?thesis
    proof (cases "epoll_events branch hang run es c")
      case (Waiting c1)
      with WaitEvents Cons have "sys c1 c'" by simp
      with events_sys [of run es c c1] Waiting WaitEvents Cons.prems(1) show ?thesis by (auto intro: sys_trans)
    next
      case (Stopped c1)
      with WaitEvents Cons.prems events_sys [of run es c c1] show ?thesis by simp
    qed (use WaitEvents Cons.prems in simp_all)
  qed (use Cons sys_refl in simp_all)
qed

end

lemma remove1_split: "x \<in> set xs \<Longrightarrow> \<exists>ys zs. xs = ys @ x # zs \<and> remove1 x xs = ys @ zs"
proof (induction xs)
  case (Cons a xs)
  show ?case
  proof (cases "a = x")
    case True
    then have "a # xs = [] @ x # xs \<and> remove1 x (a # xs) = [] @ xs" by simp
    then show ?thesis by blast
  next
    case False
    with Cons obtain ys zs where "xs = ys @ x # zs" "remove1 x xs = ys @ zs" by auto
    with False have "a # xs = (a # ys) @ x # zs \<and> remove1 x (a # xs) = (a # ys) @ zs" by simp
    then show ?thesis by blast
  qed
qed simp

lemma worker_branch_step:
  assumes "worker_delivered expirefd e conf" and "worker_branch expirefd e conf = Inr conf'"
  shows "server_step\<^sup>*\<^sup>* conf conf'"
proof -
  obtain s evs outs where conf: "conf = (s, evs, outs)" by (cases conf)
  obtain c pkt where ptr: "ee_ptr e = (c, pkt)" by (cases "ee_ptr e")
  consider "ee_fd e = expirefd" | "ee_fd e \<noteq> expirefd" "ee_in e" | "ee_fd e \<noteq> expirefd" "\<not> ee_in e" by blast
  then show ?thesis
  proof cases
    case 1
    then show ?thesis using assms(2) conf by (auto simp: worker_branch_def intro!: r_into_rtranclp server_step.timer)
  next
    case 2
    with assms(1) conf ptr have mem: "(c, pkt) \<in> set evs" and fr: "fresh (ee_env e) s" by (auto simp: worker_delivered_def)
    from remove1_split [OF mem] obtain ys zs where ev: "evs = ys @ (c, pkt) # zs" "remove1 (c, pkt) evs = ys @ zs" by (elim exE conjE)
    from 2 assms(2) conf ptr obtain reply s' where w: "worker_event (ee_env e) c pkt s = Inr (reply, s')"
      "conf' = (s', ys @ zs, outs @ [(c, reply)])" using ev(2) by (auto simp: worker_branch_def)
    show ?thesis
      unfolding conf w(2) ev(1) by (rule r_into_rtranclp, rule server_step.work [OF w(1) fr])
  next
    case 3
    then show ?thesis using assms(2) conf by (simp add: worker_branch_def)
  qed
qed

lemma io_branch_step:
  assumes "io_delivered busfd e (buf, conf)" and "io_branch busfd e (buf, conf) = Inr (buf', conf')"
    and "\<not> EPOLL_ERR e"
  shows "server_step\<^sup>*\<^sup>* conf conf'"
proof -
  obtain s evs outs where conf: "conf = (s, evs, outs)" by (cases conf)
  obtain c reply where ptr: "io_reply (ee_ptr e) = (c, reply)" by (cases "io_reply (ee_ptr e)")
  consider "0 < busfd \<and> ee_fd e = busfd" | "\<not> (0 < busfd \<and> ee_fd e = busfd)" "ee_in e"
    | "\<not> (0 < busfd \<and> ee_fd e = busfd)" "\<not> ee_in e" "ee_out e" using assms(3) by (auto simp: EPOLL_ERR_def)
  then show ?thesis
  proof cases
    case 1
    then show ?thesis using assms(2) conf by (auto simp: io_branch_def intro!: r_into_rtranclp server_step.bus)
  next
    case 2
    then obtain pkt sk' s' where r: "io_read (ee_env e) (io_client (ee_ptr e)) buf (io_socket (ee_ptr e)) s = Inr (pkt, buf', sk', s')"
      "conf' = (s', evs @ (case pkt of None \<Rightarrow> [] | Some p \<Rightarrow> [(io_client (ee_ptr e), p)]), outs)"
      using assms(2) conf by (auto simp: io_branch_def Let_def)
    show ?thesis
    proof (cases pkt)
      case None
      with r conf show ?thesis by (auto intro!: r_into_rtranclp server_step.malformed)
    next
      case (Some p)
      with r conf show ?thesis by (auto intro!: r_into_rtranclp server_step.request)
    qed
  next
    case 3
    with assms(1) conf ptr have mem: "(c, reply) \<in> set outs" by (auto simp: io_delivered_def)
    from remove1_split [OF mem] obtain ys zs where ev: "outs = ys @ (c, reply) # zs" "remove1 (c, reply) outs = ys @ zs" by (elim exE conjE)
    from 3 assms(2) conf ptr obtain out s' where w: "io_write c reply (io_writes (ee_ptr e)) s = Inr (out, s')"
      "conf' = (s', evs, ys @ zs)" using ev(2) by (auto simp: io_branch_def)
    show ?thesis unfolding conf w(2) ev(1) by (rule r_into_rtranclp, rule server_step.reply [OF w(1)])
  qed
qed


lemma accept_client_heap: "accept_client en c fd uuid s = Inr s' \<Longrightarrow> a \<noteq> c \<Longrightarrow> tr_client_heap s' a = tr_client_heap s a"
  by (auto simp: accept_client_def Let_def)

lemma accept_all_steps:
  assumes "distinct (map (\<lambda>(en, c, fd, uuid). c) cs)" and "\<forall>(en, c, fd, uuid) \<in> set cs. tr_client_heap s c = None"
    and "foldE (\<lambda>s (en, c, fd, uuid). accept_client en c fd uuid s) s cs = Inr s'"
  shows "server_step\<^sup>*\<^sup>* (s, evs, outs) (s', evs, outs)"
  using assms
proof (induction cs arbitrary: s)
  case (Cons x cs)
  obtain en c fd uuid where x: "x = (en, c, fd, uuid)" by (cases x)
  from Cons.prems(3) x obtain s1 where s1: "accept_client en c fd uuid s = Inr s1"
    "foldE (\<lambda>s (en, c, fd, uuid). accept_client en c fd uuid s) s1 cs = Inr s'" by auto
  have "\<forall>(en, a, fd, uuid) \<in> set cs. a \<noteq> c" using Cons.prems(1) x by (force simp: image_iff)
  with Cons.prems(2) accept_client_heap [OF s1(1)] have none: "\<forall>(en, a, fd, uuid) \<in> set cs. tr_client_heap s1 a = None"
    by fastforce
  have "server_step\<^sup>*\<^sup>* (s1, evs, outs) (s', evs, outs)"
    by (rule Cons.IH [OF _ none s1(2)]) (use Cons.prems(1) in simp)
  moreover have "server_step (s, evs, outs) (s1, evs, outs)"
    using server_step.accept [OF s1(1)] Cons.prems(2) x by simp
  ultimately show ?case by (rule converse_rtranclp_into_rtranclp [rotated])
qed simp

lemma accept_branch_step:
  assumes "accept_delivered serverfd e conf" and "accept_branch serverfd e conf = Inr conf'"
  shows "server_step\<^sup>*\<^sup>* conf conf'"
proof -
  obtain s evs outs where conf: "conf = (s, evs, outs)" by (cases conf)
  show ?thesis
  proof (cases "ee_fd e = serverfd")
    case True
    then have "distinct (map (\<lambda>(en, c, fd, uuid). c) (ee_ptr e))" "\<forall>(en, c, fd, uuid) \<in> set (ee_ptr e). tr_client_heap s c = None"
      using assms(1) conf by (simp_all add: accept_delivered_def)
    moreover obtain s' where "foldE (\<lambda>s (en, c, fd, uuid). accept_client en c fd uuid s) s (ee_ptr e) = Inr s'"
      "conf' = (s', evs, outs)" using True assms(2) conf by (auto simp: accept_branch_def)
    ultimately show ?thesis using accept_all_steps conf by simp
  next
    case False
    then show ?thesis using assms(2) conf by (simp add: accept_branch_def)
  qed
qed

lemma hang_up_step: "server_step\<^sup>*\<^sup>* conf (hang_up fd conf)"
  by (cases conf) (simp add: hang_up_def r_into_rtranclp server_step.hangup)

interpretation worker_thread: event_thread "worker_delivered expirefd" "worker_branch expirefd" hang_up "server_step\<^sup>*\<^sup>*" for expirefd
  by unfold_locales (auto intro: rtranclp_trans worker_branch_step hang_up_step)

interpretation main_thread: event_thread "accept_delivered serverfd" "accept_branch serverfd" hang_up "server_step\<^sup>*\<^sup>*" for serverfd
  by unfold_locales (auto intro: rtranclp_trans accept_branch_step hang_up_step)

interpretation io_thread: event_thread "io_delivered busfd" "io_branch busfd" "\<lambda>fd (buf, conf). (buf, hang_up fd conf)"
    "\<lambda>a b. server_step\<^sup>*\<^sup>* (snd a) (snd b)" for busfd
  by unfold_locales (auto intro: rtranclp_trans io_branch_step hang_up_step)

lemma reachable_steps: "server_step\<^sup>*\<^sup>* conf conf' \<Longrightarrow> reachable en cf conf \<Longrightarrow> reachable en cf conf'"
  by (induction rule: rtranclp_induct) (auto intro: reachable.step)

text \<open>
  The threads take steps of the server: on events as the kernel delivers them, a thread that does not fail stays in the
  reachable configurations, whether it is still waiting or has left its loop.
\<close>

lemma threads_refine_server:
  assumes "reachable en cf conf"
  shows "delivers (worker_delivered expirefd) (worker_branch expirefd) hang_up run wws conf \<Longrightarrow>
      worker run expirefd wws conf \<in> {Waiting conf1, Stopped conf1} \<Longrightarrow> reachable en cf conf1"
    and "delivers (io_delivered busfd) (io_branch busfd) (\<lambda>fd (buf, conf). (buf, hang_up fd conf)) run iws (buf, conf) \<Longrightarrow>
      io_worker run busfd iws (buf, conf) \<in> {Waiting (buf', conf2), Stopped (buf', conf2)} \<Longrightarrow> reachable en cf conf2"
    and "delivers (accept_delivered serverfd) (accept_branch serverfd) hang_up run aws conf \<Longrightarrow>
      accept_loop run serverfd aws conf \<in> {Waiting conf3, Stopped conf3} \<Longrightarrow> reachable en cf conf3"
  using assms worker_thread.loop_sys [of expirefd run wws conf conf1]
    io_thread.loop_sys [of busfd run iws "(buf, conf)" "(buf', conf2)"] main_thread.loop_sys [of serverfd run aws conf conf3]
  by (auto simp: worker_def io_worker_def accept_loop_def intro: reachable_steps)

subsection \<open>Batches of requests\<close>

lemma epoll_events_append:
  "epoll_events branch hang run (es @ es') c =
     (case epoll_events branch hang run es c of Waiting c' \<Rightarrow> epoll_events branch hang run es' c' | r \<Rightarrow> r)"
  by (induction es arbitrary: c) (auto split: sum.split)

lemma epoll_loop_append:
  "epoll_loop branch hang run (ws @ ws') c =
     (case epoll_loop branch hang run ws c of Waiting c' \<Rightarrow> epoll_loop branch hang run ws' c' | r \<Rightarrow> r)"
  by (induction branch hang run ws c rule: epoll_loop.induct) (auto split: outcome.split)

text \<open>
  The events a worker meets while only PUT and DEL are asked for: errors, the timer, and requests. A request is handled
  unless its event is an error.
\<close>

definition put_del_event :: "int \<Rightarrow> int \<Rightarrow> worker_io \<Rightarrow> bool" where
  "put_del_event run expirefd e \<longleftrightarrow>
     EPOLL_ERR e \<or> ee_fd e \<noteq> run \<and> (ee_fd e = expirefd \<or> ee_in e \<and> hdr_opcode (rq_header (snd (ee_ptr e))) \<in> {1, 3})"

definition handled :: "int \<Rightarrow> worker_io list \<Rightarrow> worker_io list" where
  "handled expirefd = filter (\<lambda>e. \<not> EPOLL_ERR e \<and> ee_fd e \<noteq> expirefd)"

primrec wait_events :: "'e wait \<Rightarrow> 'e list" where
  "wait_events WaitInterrupted = []"
| "wait_events WaitFailed = []"
| "wait_events (WaitEvents es) = es"

definition answers :: "worker_io list \<Rightarrow> (addr \<times> bstring option) list \<Rightarrow> bool" where
  "answers es rs \<longleftrightarrow> map fst rs = map (\<lambda>e. fst (ee_ptr e)) es \<and> (\<forall>(c, reply) \<in> set rs. \<exists>r. reply = Some [0, 1, r])"

definition spec_batch :: "worker_io list \<Rightarrow> server_map \<Rightarrow> server_map" where
  "spec_batch es m = fold (\<lambda>e. spec_request (ee_env e) (snd (ee_ptr e))) es m"

lemma handled_simps [simp]:
  "handled expirefd [] = []" "handled expirefd (es @ es') = handled expirefd es @ handled expirefd es'"
  "handled expirefd (e # es) = (if EPOLL_ERR e \<or> ee_fd e = expirefd then handled expirefd es else e # handled expirefd es)"
  by (simp_all add: handled_def)

lemma spec_batch_simps [simp]:
  "spec_batch [] m = m" "spec_batch (e # es) m = spec_batch es (spec_request (ee_env e) (snd (ee_ptr e)) m)"
  "spec_batch (es @ es') m = spec_batch es' (spec_batch es m)"
  by (simp_all add: spec_batch_def)

lemma answers_append: "answers es rs \<Longrightarrow> answers es' rs' \<Longrightarrow> answers (es @ es') (rs @ rs')"
  by (auto simp: answers_def)

lemma hang_up_inv:
  "conf_inv d (s, evs, outs) \<Longrightarrow>
     \<exists>s'. hang_up fd (s, evs, outs) = (s', evs, outs) \<and> conf_inv d (s', evs, outs) \<and> map_of_server d s' = map_of_server d s"
  by (simp add: hang_up_def conf_inv_def srv_inv_def map_of_server_def split: option.split)

text \<open>One request of a batch.\<close>

lemma worker_branch_request:
  assumes "conf_inv d (s, ee_ptr e # evs, outs)" and "fresh (ee_env e) s" and "ee_fd e \<noteq> expirefd" and "ee_in e"
    and "hdr_opcode (rq_header (snd (ee_ptr e))) \<in> {1, 3}"
  shows "\<exists>s' r. worker_branch expirefd e (s, ee_ptr e # evs, outs) = Inr (s', evs, outs @ [(fst (ee_ptr e), Some [0, 1, r])]) \<and>
    conf_inv d (s', evs, outs @ [(fst (ee_ptr e), Some [0, 1, r])]) \<and>
    map_of_server d s' = spec_request (ee_env e) (snd (ee_ptr e)) (map_of_server d s)"
proof -
  obtain c pkt where ptr: "ee_ptr e = (c, pkt)" by (cases "ee_ptr e")
  have inv: "srv_inv d s" "tr_client_heap s c \<noteq> None" "wire_request pkt"
    using assms(1) ptr by (auto simp: conf_inv_def)
  have op: "hdr_opcode (rq_header pkt) \<in> {1, 3}" using assms(5) ptr by simp
  from put_del_answered [OF inv assms(2) op] obtain r s' where w: "worker_event (ee_env e) c pkt s = Inr (Some [0, 1, r], s')"
    "keeps d s s'" by blast
  have "conf_inv d (s', evs, outs @ [(c, Some [0, 1, r])])" using assms(1) w(2) inv(2) by (auto simp: conf_inv_def keeps_def)
  moreover have "map_of_server d s' = spec_request (ee_env e) pkt (map_of_server d s)"
    by (rule worker_refines [OF inv assms(2) _ w(1)]) (use op in auto)
  ultimately show ?thesis using w(1) assms(3,4) ptr by (simp add: worker_branch_def)
qed

lemma worker_events:
  assumes "conf_inv d (s, map ee_ptr (handled expirefd es) @ rest, outs)" and "\<forall>e \<in> set es. put_del_event run expirefd e"
    and "delivers_events (worker_memory expirefd) (worker_branch expirefd) hang_up run es (s, map ee_ptr (handled expirefd es) @ rest, outs)"
  shows "\<exists>s' rs. epoll_events (worker_branch expirefd) hang_up run es (s, map ee_ptr (handled expirefd es) @ rest, outs) =
      Waiting (s', rest, outs @ rs) \<and> conf_inv d (s', rest, outs @ rs) \<and> answers (handled expirefd es) rs \<and>
      map_of_server d s' = spec_batch (handled expirefd es) (map_of_server d s)"
  using assms
proof (induction es arbitrary: s outs)
  case (Cons e es)
  let ?evs = "\<lambda>es. map ee_ptr (handled expirefd es) @ rest"
  let ?run = "epoll_events (worker_branch expirefd) hang_up run"
  have ev: "put_del_event run expirefd e" "\<forall>e \<in> set es. put_del_event run expirefd e" using Cons.prems(2) by simp_all
  show ?case
  proof (cases "EPOLL_ERR e")
    case True
    from hang_up_inv [of d s "?evs es" outs "ee_fd e"] Cons.prems(1) True obtain s1 where
      s1: "hang_up (ee_fd e) (s, ?evs es, outs) = (s1, ?evs es, outs)" "conf_inv d (s1, ?evs es, outs)" "map_of_server d s1 = map_of_server d s" by auto
    with Cons.IH [OF s1(2) ev(2)] Cons.prems(3) True show ?thesis by simp
  next
    case ok: False
    show ?thesis
    proof (cases "ee_fd e = expirefd")
      case True
      have "v_size (tr_expiring_keys s) = 0" using Cons.prems(1) by (auto simp: conf_inv_def srv_inv_def)
      then have "worker_branch expirefd e (s, ?evs es, outs) = Inr (s, ?evs es, outs)"
        using True by (simp add: worker_branch_def expire_idle)
      with Cons.IH [of s outs] Cons.prems ok True ev show ?thesis by (simp add: put_del_event_def)
    next
      case False
      have e: "ee_in e" "hdr_opcode (rq_header (snd (ee_ptr e))) \<in> {1, 3}" "ee_fd e \<noteq> run"
        using ev(1) ok False by (simp_all add: put_del_event_def)
      have "conf_inv d (s, ee_ptr e # ?evs es, outs)" "fresh (ee_env e) s"
        using Cons.prems(1,3) ok False e(3) by (simp_all add: worker_memory_def)
      from worker_branch_request [OF this False e(1,2)] obtain s1 r where
        s1: "worker_branch expirefd e (s, ee_ptr e # ?evs es, outs) = Inr (s1, ?evs es, outs @ [(fst (ee_ptr e), Some [0, 1, r])])"
        "conf_inv d (s1, ?evs es, outs @ [(fst (ee_ptr e), Some [0, 1, r])])"
        "map_of_server d s1 = spec_request (ee_env e) (snd (ee_ptr e)) (map_of_server d s)" by blast
      from Cons.IH [OF s1(2) ev(2)] Cons.prems(3) ok False e(3) s1(1) obtain s' rs where
        IH: "?run es (s1, ?evs es, outs @ [(fst (ee_ptr e), Some [0, 1, r])]) = Waiting (s', rest, (outs @ [(fst (ee_ptr e), Some [0, 1, r])]) @ rs)"
        "conf_inv d (s', rest, (outs @ [(fst (ee_ptr e), Some [0, 1, r])]) @ rs)" "answers (handled expirefd es) rs"
        "map_of_server d s' = spec_batch (handled expirefd es) (map_of_server d s1)" by auto
      then show ?thesis using s1(1,3) ok False e(3)
        by (intro exI [of _ s'] exI [of _ "(fst (ee_ptr e), Some [0, 1, r]) # rs"]) (simp add: answers_def)
    qed
  qed
qed (simp add: answers_def)

lemma worker_batches:
  assumes "conf_inv d (s, map ee_ptr (handled expirefd (concat (map wait_events ws))) @ rest, outs)" and "WaitFailed \<notin> set ws"
    and "\<forall>e \<in> set (concat (map wait_events ws)). put_del_event run expirefd e"
    and "delivers (worker_memory expirefd) (worker_branch expirefd) hang_up run ws
      (s, map ee_ptr (handled expirefd (concat (map wait_events ws))) @ rest, outs)"
  shows "\<exists>s' rs. worker run expirefd ws (s, map ee_ptr (handled expirefd (concat (map wait_events ws))) @ rest, outs) =
      Waiting (s', rest, outs @ rs) \<and> answers (handled expirefd (concat (map wait_events ws))) rs \<and>
      map_of_server d s' = spec_batch (handled expirefd (concat (map wait_events ws))) (map_of_server d s)"
  using assms
proof (induction ws arbitrary: s outs)
  case (Cons w ws)
  let ?h = "\<lambda>ws. handled expirefd (concat (map wait_events ws))"
  show ?case
  proof (cases w)
    case WaitInterrupted
    then show ?thesis using Cons.IH [of s outs] Cons.prems by (simp add: worker_def)
  next
    case WaitFailed
    then show ?thesis using Cons.prems(2) by simp
  next
    case (WaitEvents es)
    let ?rest = "map ee_ptr (?h ws) @ rest"
    from worker_events [of d s expirefd es ?rest outs run] Cons.prems WaitEvents obtain s1 rs1 where
      s1: "epoll_events (worker_branch expirefd) hang_up run es (s, map ee_ptr (handled expirefd es) @ ?rest, outs) =
        Waiting (s1, ?rest, outs @ rs1)" "conf_inv d (s1, ?rest, outs @ rs1)" "answers (handled expirefd es) rs1"
      "map_of_server d s1 = spec_batch (handled expirefd es) (map_of_server d s)" by auto
    from Cons.IH [OF s1(2)] Cons.prems WaitEvents s1(1) obtain s' rs where
      IH: "worker run expirefd ws (s1, ?rest, outs @ rs1) = Waiting (s', rest, (outs @ rs1) @ rs)" "answers (?h ws) rs"
      "map_of_server d s' = spec_batch (?h ws) (map_of_server d s1)" by auto
    then show ?thesis using WaitEvents s1 answers_append [OF s1(3) IH(2)]
      by (intro exI [of _ s'] exI [of _ "rs1 @ rs"]) (simp add: worker_def)
  qed
qed (simp add: worker_def answers_def)

definition demo_event :: worker_io where
  "demo_event = \<lparr> ee_err = False, ee_hup = False, ee_in = True, ee_out = False, ee_fd = 5,
     ee_ptr = (7, ReqPut 0x10 (- 1) 1 [97] [49]), ee_env = demo_env 3 5 \<rparr>"

lemma demo_event_sel:
  "\<not> EPOLL_ERR demo_event" "ee_in demo_event" "ee_fd demo_event = 5" "ee_env demo_event = demo_env 3 5"
  "ee_ptr demo_event = (7, ReqPut 0x10 (- 1) 1 [97] [49])"
  by (simp_all add: demo_event_def EPOLL_ERR_def)

lemma demo_batch:
  "\<exists>s. reachable (demo_env 0 0) demo_config (s, map ee_ptr [demo_event], []) \<and> map_of_server 0 s = Map.empty \<and>
     delivers (worker_memory 2) (worker_branch 2) hang_up 1 [WaitEvents [demo_event]] (s, map ee_ptr [demo_event], [])"
proof -
  obtain s where s: "reachable (demo_env 0 0) demo_config (s, [(7, ReqPut 0x10 (- 1) 1 [97] [49])], [])"
    "fresh (demo_env 3 5) s" "map_of_server 0 s = Map.empty" using demo_request by blast
  have "delivers (worker_memory 2) (worker_branch 2) hang_up 1 [WaitEvents [demo_event]] (s, map ee_ptr [demo_event], [])"
    using s(2) by (simp add: worker_memory_def demo_event_sel split: sum.split)
  with s show ?thesis by (auto simp: demo_event_sel)
qed

lemma demo_batch_spec: "spec_request (demo_env 3 5) (ReqPut 0x10 (- 1) 1 [97] [49]) Map.empty = [[97] \<mapsto> (Some [49], - 1, 3)]"
proof -
  have "hdr_opcode 0x10 = 1" "\<not> hdr_prefix 0x10" "c_short (- 1) = - 1" by code_simp+
  then show ?thesis by (simp add: spec_request_def spec_put_def demo_env_def c_string_def)
qed

subsection \<open>Properties\<close>

text \<open>
  C6. A worker stops where it is told to, and not before. Let \<^verbatim>\<open>epoll_wait\<close> return any number of times, interrupted or with
  events, and then with a batch that has the shutdown event in it, the events before that one being PUT and DEL requests,
  turns of the timer and errors. The worker handles each of the requests whose event is not an error, in order, with one
  acknowledgement for its client, and leaves its loop; the database has changed as these requests say and all other
  requests still wait, whatever comes behind the shutdown event.
\<close>

theorem worker_stops_correct:
  assumes "reachable en cf (s, map ee_ptr (handled expirefd (concat (map wait_events ws) @ es)) @ rest, outs)"
    and "WaitFailed \<notin> set ws" and "\<forall>e \<in> set (concat (map wait_events ws) @ es). put_del_event run expirefd e"
    and "\<not> EPOLL_ERR stop" and "ee_fd stop = run"
    and "delivers (worker_memory expirefd) (worker_branch expirefd) hang_up run (ws @ [WaitEvents es])
      (s, map ee_ptr (handled expirefd (concat (map wait_events ws) @ es)) @ rest, outs)"
  shows "\<exists>s' rs. worker run expirefd (ws @ WaitEvents (es @ stop # late) # ws')
        (s, map ee_ptr (handled expirefd (concat (map wait_events ws) @ es)) @ rest, outs) = Stopped (s', rest, outs @ rs) \<and>
      answers (handled expirefd (concat (map wait_events ws) @ es)) rs \<and>
      map_of_server (en_db en) s' = spec_batch (handled expirefd (concat (map wait_events ws) @ es)) (map_of_server (en_db en) s)"
proof -
  let ?c = "(s, map ee_ptr (handled expirefd (concat (map wait_events ws) @ es)) @ rest, outs)"
  have "WaitFailed \<notin> set (ws @ [WaitEvents es])" using assms(2) by simp
  from worker_batches [of "en_db en" s expirefd "ws @ [WaitEvents es]" rest outs run, OF _ this] reachable_inv [OF assms(1)] assms(3,6)
  obtain s' rs where w: "worker run expirefd (ws @ [WaitEvents es]) ?c = Waiting (s', rest, outs @ rs)"
    "answers (handled expirefd (concat (map wait_events ws) @ es)) rs"
    "map_of_server (en_db en) s' = spec_batch (handled expirefd (concat (map wait_events ws) @ es)) (map_of_server (en_db en) s)" by auto
  from w(1) have "worker run expirefd (ws @ WaitEvents (es @ stop # late) # ws') ?c = Stopped (s', rest, outs @ rs)"
    using assms(4,5) by (auto simp: worker_def epoll_loop_append epoll_events_append split: outcome.splits)
  with w(2,3) show ?thesis by blast
qed

theorem worker_stops_correct_witness:
  "\<exists>s s' r. reachable (demo_env 0 0) demo_config (s, map ee_ptr [demo_event], []) \<and>
     worker 1 2 [WaitInterrupted, WaitEvents [demo_event\<lparr> ee_err := True \<rparr>, demo_event, demo_event\<lparr> ee_fd := 1 \<rparr>, demo_event], WaitFailed]
       (s, map ee_ptr [demo_event], []) = Stopped (s', [], [(7, Some [0, 1, r])]) \<and>
     map_of_server 0 s' = [[97] \<mapsto> (Some [49], - 1, 3)]"
proof -
  let ?err = "demo_event\<lparr> ee_err := True \<rparr>" and ?stop = "demo_event\<lparr> ee_fd := 1 \<rparr>"
  obtain s where s: "reachable (demo_env 0 0) demo_config (s, map ee_ptr [demo_event], [])" "map_of_server 0 s = Map.empty"
    "delivers (worker_memory 2) (worker_branch 2) hang_up 1 [WaitEvents [demo_event]] (s, map ee_ptr [demo_event], [])"
    using demo_batch by blast
  have err: "EPOLL_ERR ?err" and stop: "\<not> EPOLL_ERR ?stop" by (simp_all add: demo_event_def EPOLL_ERR_def)
  have op: "hdr_opcode 0x10 = 1" by code_simp
  have h: "handled 2 (concat (map wait_events [WaitInterrupted]) @ [?err, demo_event]) = [demo_event]"
    using err by (simp add: demo_event_sel)
  have ev: "\<forall>e \<in> set (concat (map wait_events [WaitInterrupted]) @ [?err, demo_event]). put_del_event 1 2 e"
    using err op by (simp add: put_del_event_def demo_event_sel)
  have "fresh (demo_env 3 5) s" using s(3) by (simp add: worker_memory_def demo_event_sel)
  then have mem: "delivers (worker_memory 2) (worker_branch 2) hang_up 1 ([WaitInterrupted] @ [WaitEvents [?err, demo_event]])
      (s, map ee_ptr [demo_event] @ [], [])"
    using err by (simp add: worker_memory_def hang_up_def fresh_def demo_event_sel split: sum.split outcome.split)
  from worker_stops_correct [of "demo_env 0 0" demo_config s 2 "[WaitInterrupted]" "[?err, demo_event]" "[]" "[]" 1 ?stop, unfolded h,
      OF _ _ ev stop _ mem, of "[demo_event]" "[WaitFailed]"] s(1) obtain s' rs where
    w: "worker 1 2 [WaitInterrupted, WaitEvents [?err, demo_event, ?stop, demo_event], WaitFailed] (s, map ee_ptr [demo_event], []) =
      Stopped (s', [], rs)" "answers [demo_event] rs" "map_of_server 0 s' = spec_batch [demo_event] (map_of_server 0 s)"
    by (auto simp: demo_env_def)
  from w(2) obtain r where "rs = [(7, Some [0, 1, r])]" by (auto simp: answers_def demo_event_sel)
  then show ?thesis using w(1,3) s(1,2) demo_batch_spec by (auto simp: demo_event_sel)
qed

text \<open>
  C10. A worker answers a whole batch: when \<^verbatim>\<open>epoll_wait\<close> hands all waiting requests, PUT and DEL, to a worker
  thread at once, and the memory its handlers ask for is not in use, the thread processes all of them without a fault and
  waits again, no request is left, there is one acknowledgement for each request, in the order of the batch and for the
  client that sent it, and the database has changed as the requests say, one after the other.
\<close>

theorem worker_batch_correct:
  assumes "reachable en cf (s, map ee_ptr es, outs)"
    and "\<forall>e \<in> set es. \<not> EPOLL_ERR e \<and> ee_in e \<and> ee_fd e \<notin> {run, expirefd} \<and> hdr_opcode (rq_header (snd (ee_ptr e))) \<in> {1, 3}"
    and "delivers (worker_memory expirefd) (worker_branch expirefd) hang_up run [WaitEvents es] (s, map ee_ptr es, outs)"
  shows "\<exists>s' rs. worker run expirefd [WaitEvents es] (s, map ee_ptr es, outs) = Waiting (s', [], outs @ rs) \<and>
      map fst rs = map (\<lambda>e. fst (ee_ptr e)) es \<and> (\<forall>(c, reply) \<in> set rs. \<exists>r. reply = Some [0, 1, r]) \<and>
      map_of_server (en_db en) s' =
        fold (\<lambda>e. spec_request (ee_env e) (snd (ee_ptr e))) es (map_of_server (en_db en) s)"
proof -
  have h: "handled expirefd es = es" using assms(2) by (auto simp: handled_def intro!: filter_True)
  have "\<forall>e \<in> set es. put_del_event run expirefd e" using assms(2) by (auto simp: put_del_event_def)
  with worker_batches [of "en_db en" s expirefd "[WaitEvents es]" "[]" outs run] reachable_inv [OF assms(1)] assms(3) h
  show ?thesis by (simp add: answers_def spec_batch_def conj_assoc)
qed

theorem worker_batch_correct_witness:
  "\<exists>s s' r. reachable (demo_env 0 0) demo_config (s, map ee_ptr [demo_event], []) \<and>
     worker 1 2 [WaitEvents [demo_event]] (s, map ee_ptr [demo_event], []) = Waiting (s', [], [(7, Some [0, 1, r])]) \<and>
     map_of_server 0 s' = [[97] \<mapsto> (Some [49], - 1, 3)]"
proof -
  obtain s where s: "reachable (demo_env 0 0) demo_config (s, map ee_ptr [demo_event], [])" "map_of_server 0 s = Map.empty"
    "delivers (worker_memory 2) (worker_branch 2) hang_up 1 [WaitEvents [demo_event]] (s, map ee_ptr [demo_event], [])" using demo_batch by blast
  have "hdr_opcode 0x10 = 1" by code_simp
  then have "\<forall>e \<in> set [demo_event]. \<not> EPOLL_ERR e \<and> ee_in e \<and> ee_fd e \<notin> {1, 2} \<and> hdr_opcode (rq_header (snd (ee_ptr e))) \<in> {1, 3}"
    by (simp add: demo_event_sel)
  from worker_batch_correct [OF s(1) this s(3)] obtain s' rs where w:
    "worker 1 2 [WaitEvents [demo_event]] (s, map ee_ptr [demo_event], []) = Waiting (s', [], [] @ rs)"
    "map fst rs = [7]" "\<forall>(c, reply) \<in> set rs. \<exists>r. reply = Some [0, 1, r]"
    "map_of_server 0 s' = spec_request (demo_env 3 5) (ReqPut 0x10 (- 1) 1 [97] [49]) Map.empty"
    using s(2) by (auto simp: demo_event_sel demo_env_def)
  from w(2,3) obtain r where "rs = [(7, Some [0, 1, r])]" by auto
  then show ?thesis using s(1) w(1,4) demo_batch_spec by auto
qed

end
