(* ===== verification/Tdb_Socket.thy ===== *)
theory Tdb_Socket
  imports Tdb_Config Tdb_Network
begin

text \<open>
  The descriptors of \<^verbatim>\<open>src/network.c\<close>: creating, binding and accepting sockets, and the registrations of
  epoll instances. The table of the open sockets and the table of registrations are explicit; what a
  system call answers where that is not determined by them is an argument. The documented effects of the
  calls are modelled: closing a descriptor removes it, \<^verbatim>\<open>epoll_ctl\<close> fails on a descriptor that is
  registered already or not at all, and delivering an event disarms a one-shot registration.
\<close>

unbundle bit_operations_syntax

subsection \<open>Sockets\<close>

definition UDP :: int where "UDP = 2"

datatype sock_addr = SunPath cstring | SockAddr bytes

record sock =
  so_nonblock :: bool
  so_nodelay :: bool
  so_reuse :: bool
  so_bound :: "sock_addr option"
  so_backlog :: "int option"

type_synonym socks = "int \<rightharpoonup> sock"

definition new_sock :: sock where
  "new_sock = \<lparr> so_nonblock = False, so_nodelay = False, so_reuse = False, so_bound = None, so_backlog = None \<rparr>"

definition sys_socket :: "int \<Rightarrow> socks \<Rightarrow> socks" where
  "sys_socket fd k = (if fd = - 1 then k else k(fd \<mapsto> new_sock))"

text \<open>A call that changes an open socket if \<open>ok\<close> says so, and fails otherwise or on another descriptor.\<close>

definition on_sock :: "bool \<Rightarrow> (sock \<Rightarrow> sock) \<Rightarrow> int \<Rightarrow> socks \<Rightarrow> int \<times> socks" where
  "on_sock ok f fd k =
     (case k fd of None \<Rightarrow> (- 1, k) | Some so \<Rightarrow> if ok then (0, k(fd \<mapsto> f so)) else (- 1, k))"

definition sys_close :: "int \<Rightarrow> socks \<Rightarrow> socks" where
  "sys_close fd k = k(fd := None)"

text \<open>
  The answers of the system: \<^verbatim>\<open>fcntl\<close> with \<^verbatim>\<open>F_GETFL\<close> and with \<^verbatim>\<open>F_SETFL\<close>, \<^verbatim>\<open>setsockopt\<close> for \<^verbatim>\<open>TCP_NODELAY\<close>, \<^verbatim>\<open>listen\<close>;
  \<^verbatim>\<open>socket\<close> and \<^verbatim>\<open>bind\<close> for a path; \<^verbatim>\<open>getaddrinfo\<close>, which depends on the type of the socket (datagrams or
  not) and lists, in its order, the addresses with what \<^verbatim>\<open>socket\<close>, \<^verbatim>\<open>setsockopt\<close> and \<^verbatim>\<open>bind\<close> answer for
  each.
\<close>

record candidate =
  ca_addr :: bytes
  ca_socket :: int
  ca_reuse :: bool
  ca_bind :: bool

record answers =
  an_getfl :: bool
  an_setfl :: bool
  an_nodelay :: bool
  an_listen :: bool
  an_socket :: int
  an_bind :: "cstring \<Rightarrow> bool"
  an_getaddrinfo :: "bool \<Rightarrow> cstring \<Rightarrow> cstring \<Rightarrow> candidate list option"

definition set_nonblocking :: "bool \<Rightarrow> bool \<Rightarrow> int \<Rightarrow> socks \<Rightarrow> int \<times> socks" where
  "set_nonblocking getfl setfl fd k =
     (case on_sock getfl id fd k of (flags, k1) \<Rightarrow>
        if flags = - 1 then (- 1, k)
        else case on_sock setfl (so_nonblock_update (\<lambda>_. True)) fd k of (result, k2) \<Rightarrow>
               if result = - 1 then (- 1, k) else (0, k2))"

definition set_tcp_nodelay :: "bool \<Rightarrow> int \<Rightarrow> socks \<Rightarrow> int \<times> socks" where
  "set_tcp_nodelay ok fd k = on_sock ok (so_nodelay_update (\<lambda>_. True)) fd k"

text \<open>\<^verbatim>\<open>create_and_bind_unix\<close>: the paths that were unlinked are a third component. \<^verbatim>\<open>sun_path\<close> has 108 bytes.\<close>

definition create_and_bind_unix :: "answers \<Rightarrow> cstring \<Rightarrow> socks \<Rightarrow> int \<times> socks \<times> cstring list" where
  "create_and_bind_unix an sockpath k =
     (let fd = an_socket an; k1 = sys_socket fd k; sun_path = take 107 sockpath in
      if fd = - 1 then (- 1, k1, [])
      else case on_sock (an_bind an sun_path) (so_bound_update (\<lambda>_. Some (SunPath sun_path))) fd k1 of (r, k2) \<Rightarrow>
             if r = - 1 then (- 1, k2, [sockpath]) else (fd, k2, [sockpath]))"

text \<open>The loop over the addresses, in both \<^verbatim>\<open>create_and_bind_tcp\<close> and \<^verbatim>\<open>create_and_bind_udp\<close>; -1 at the end of the list.\<close>

fun bind_first :: "candidate list \<Rightarrow> socks \<Rightarrow> int \<times> socks" where
  "bind_first [] k = (- 1, k)"
| "bind_first (rp # rest) k =
     (let sfd = ca_socket rp; k1 = sys_socket sfd k in
      if sfd = - 1 then bind_first rest k1
      else case on_sock (ca_reuse rp) (so_reuse_update (\<lambda>_. True)) sfd k1 of (_, k2) \<Rightarrow>
             case on_sock (ca_bind rp) (so_bound_update (\<lambda>_. Some (SockAddr (ca_addr rp)))) sfd k2 of (r, k3) \<Rightarrow>
               if r = 0 then (sfd, k3) else bind_first rest (sys_close sfd k3))"

definition create_and_bind_tcp :: "answers \<Rightarrow> cstring \<Rightarrow> cstring \<Rightarrow> socks \<Rightarrow> int \<times> socks" where
  "create_and_bind_tcp an host port k =
     (case an_getaddrinfo an False host port of None \<Rightarrow> (- 1, k) | Some result \<Rightarrow> bind_first result k)"

definition create_and_bind_udp :: "answers \<Rightarrow> cstring \<Rightarrow> cstring \<Rightarrow> socks \<Rightarrow> int \<times> socks" where
  "create_and_bind_udp an host port k =
     (case an_getaddrinfo an True host port of None \<Rightarrow> (- 1, k) | Some result \<Rightarrow> bind_first result k)"

definition create_and_bind :: "answers \<Rightarrow> cstring \<Rightarrow> cstring \<Rightarrow> int \<Rightarrow> socks \<Rightarrow> int \<times> socks" where
  "create_and_bind an host port socket_family k =
     (if socket_family = UNIX then (case create_and_bind_unix an host k of (fd, k', _) \<Rightarrow> (fd, k'))
      else if socket_family = UDP then create_and_bind_udp an host port k
      else create_and_bind_tcp an host port k)"

text \<open>\<^verbatim>\<open>make_listen\<close>; \<open>None\<close> is \<^verbatim>\<open>abort\<close>.\<close>

definition make_listen :: "answers \<Rightarrow> config \<Rightarrow> cstring \<Rightarrow> cstring \<Rightarrow> int \<Rightarrow> socks \<Rightarrow> (int \<times> socks) option" where
  "make_listen an conf host port socket_family k =
     (case create_and_bind an host port socket_family k of (sfd, k1) \<Rightarrow>
        if sfd = - 1 then None
        else case set_nonblocking (an_getfl an) (an_setfl an) sfd k1 of (r, k2) \<Rightarrow>
          if r = - 1 then None
          else let k3 = (if socket_family = INET then snd (set_tcp_nodelay (an_nodelay an) sfd k2) else k2) in
            case on_sock (an_listen an) (so_backlog_update (\<lambda>_. Some (cf_tcp_backlog conf))) sfd k3 of (l, k4) \<Rightarrow>
              if l = - 1 then None else Some (sfd, k4))"

text \<open>
  \<^verbatim>\<open>accept_connection\<close>: \<^verbatim>\<open>accept\<close> returns a new descriptor or fails, \<^verbatim>\<open>inet_ntop\<close> converts the address or fails.
\<close>

record accepted =
  ac_fd :: int
  ac_getfl :: bool
  ac_setfl :: bool
  ac_nodelay :: bool
  ac_ntop :: bool

definition accept_connection :: "config \<Rightarrow> accepted \<Rightarrow> socks \<Rightarrow> int \<times> socks" where
  "accept_connection conf ac k =
     (let clientsock = ac_fd ac in
      if clientsock < 0 then (- 1, k)
      else let k1 = sys_socket clientsock k;
               k2 = snd (set_nonblocking (ac_getfl ac) (ac_setfl ac) clientsock k1);
               k3 = (if cf_socket_family conf = INET then snd (set_tcp_nodelay (ac_nodelay ac) clientsock k2) else k2)
           in if \<not> ac_ntop ac then (- 1, sys_close clientsock k3) else (clientsock, k3))"

subsection \<open>Epoll registrations\<close>

definition EPOLLIN :: u32 where "EPOLLIN = 1"
definition EPOLLOUT :: u32 where "EPOLLOUT = 4"
definition EPOLLONESHOT :: u32 where "EPOLLONESHOT = 0x40000000"
definition EPOLLET :: u32 where "EPOLLET = 0x80000000"

text \<open>The union \<^verbatim>\<open>epoll_data\<close>, and what an epoll instance keeps for a descriptor.\<close>

datatype 'p epoll_data = DataFd int | DataPtr 'p

record 'p registration =
  rg_events :: u32
  rg_data :: "'p epoll_data"
  rg_armed :: bool

type_synonym 'p epoll = "int \<rightharpoonup> 'p registration"

datatype epoll_op = EPOLL_CTL_ADD | EPOLL_CTL_MOD | EPOLL_CTL_DEL

definition epoll_ctl :: "'p epoll \<Rightarrow> epoll_op \<Rightarrow> int \<Rightarrow> u32 \<Rightarrow> 'p epoll_data \<Rightarrow> int \<times> 'p epoll" where
  "epoll_ctl ep op fd evs data =
     (if (ep fd = None) \<noteq> (op = EPOLL_CTL_ADD) then (- 1, ep)
      else if op = EPOLL_CTL_DEL then (0, ep(fd := None))
      else (0, ep(fd \<mapsto> \<lparr> rg_events = evs, rg_data = data, rg_armed = True \<rparr>)))"

definition epoll_add :: "'p epoll \<Rightarrow> int \<Rightarrow> u32 \<Rightarrow> 'p option \<Rightarrow> int \<times> 'p epoll" where
  "epoll_add ep fd evs data =
     epoll_ctl ep EPOLL_CTL_ADD fd (evs OR EPOLLET) (case data of None \<Rightarrow> DataFd fd | Some p \<Rightarrow> DataPtr p)"

definition epoll_mod :: "'p epoll \<Rightarrow> int \<Rightarrow> u32 \<Rightarrow> 'p option \<Rightarrow> int \<times> 'p epoll" where
  "epoll_mod ep fd evs data =
     epoll_ctl ep EPOLL_CTL_MOD fd (evs OR EPOLLET OR EPOLLONESHOT)
       (case data of None \<Rightarrow> DataFd fd | Some p \<Rightarrow> DataPtr p)"

definition epoll_del :: "'p epoll \<Rightarrow> int \<Rightarrow> int \<times> 'p epoll" where
  "epoll_del ep fd = epoll_ctl ep EPOLL_CTL_DEL fd 0 (DataFd fd)"

text \<open>\<^verbatim>\<open>add_cron_task\<close>: \<open>timerfd\<close> is what \<^verbatim>\<open>timerfd_create\<close> returns, \<open>settime\<close> whether \<^verbatim>\<open>timerfd_settime\<close> succeeds.\<close>

definition add_cron_task :: "'p epoll \<Rightarrow> int \<Rightarrow> bool \<Rightarrow> int \<times> 'p epoll" where
  "add_cron_task ep timerfd settime =
     (if \<not> settime then (- 1, ep)
      else case epoll_ctl ep EPOLL_CTL_ADD timerfd EPOLLIN (DataFd timerfd) of (r, ep') \<Rightarrow>
             if r < 0 then (- 1, ep') else (timerfd, ep'))"

text \<open>
  The delivery of an event: an armed registration for the flag yields its data, and is disarmed if it is
  one-shot. Closing a descriptor removes its registration.
\<close>

definition epoll_deliver :: "'p epoll \<Rightarrow> int \<Rightarrow> u32 \<Rightarrow> ('p epoll_data \<times> 'p epoll) option" where
  "epoll_deliver ep fd flag =
     (case ep fd of
        None \<Rightarrow> None
      | Some r \<Rightarrow>
          if rg_armed r \<and> rg_events r AND flag \<noteq> 0 then
            Some (rg_data r, if rg_events r AND EPOLLONESHOT \<noteq> 0 then ep(fd \<mapsto> r\<lparr> rg_armed := False \<rparr>) else ep)
          else None)"

definition epoll_forget :: "int list \<Rightarrow> 'p epoll \<Rightarrow> 'p epoll" where
  "epoll_forget fds ep = (\<lambda>fd. if fd \<in> set fds then None else ep fd)"

subsection \<open>Setting up sockets\<close>

lemma bind_first_correct:
  assumes "\<forall>rp \<in> set cs. ca_socket rp \<noteq> - 1 \<longrightarrow> k (ca_socket rp) = None"
  shows "bind_first cs k =
    (case find (\<lambda>rp. ca_socket rp \<noteq> - 1 \<and> ca_bind rp) cs of
       None \<Rightarrow> (- 1, k)
     | Some rp \<Rightarrow> (ca_socket rp, k(ca_socket rp \<mapsto> new_sock\<lparr> so_reuse := ca_reuse rp, so_bound := Some (SockAddr (ca_addr rp)) \<rparr>)))"
  using assms
proof (induction cs)
  case (Cons rp rest)
  show ?case
  proof (cases "ca_socket rp = - 1 \<or> ca_bind rp")
    case True
    then show ?thesis using Cons by (auto simp: Let_def sys_socket_def on_sock_def new_sock_def)
  next
    case False
    have "bind_first (rp # rest) k = bind_first rest k"
      using False Cons.prems by (auto simp: Let_def sys_socket_def on_sock_def sys_close_def fun_upd_idem)
    then show ?thesis using False Cons by simp
  qed
qed simp

lemma set_nonblocking_open:
  "k fd = Some so \<Longrightarrow> set_nonblocking getfl setfl fd k =
     (if getfl \<and> setfl then (0, k(fd \<mapsto> so\<lparr> so_nonblock := True \<rparr>)) else (- 1, k))"
  by (auto simp: set_nonblocking_def on_sock_def)

lemma set_tcp_nodelay_open:
  "k fd = Some so \<Longrightarrow> set_tcp_nodelay ok fd k = (if ok then (0, k(fd \<mapsto> so\<lparr> so_nodelay := True \<rparr>)) else (- 1, k))"
  by (auto simp: set_tcp_nodelay_def on_sock_def)

lemma accept_connection_correct:
  assumes "k (ac_fd ac) = None"
  shows "accept_connection conf ac k =
    (if ac_fd ac < 0 \<or> \<not> ac_ntop ac then (- 1, k)
     else (ac_fd ac, k(ac_fd ac \<mapsto> new_sock\<lparr> so_nonblock := ac_getfl ac \<and> ac_setfl ac,
       so_nodelay := cf_socket_family conf = INET \<and> ac_nodelay ac \<rparr>)))"
  using assms
  by (auto simp: accept_connection_def Let_def sys_socket_def sys_close_def set_nonblocking_open set_tcp_nodelay_open
      new_sock_def fun_upd_idem)

text \<open>A path whose socket cannot be bound leaves the socket open.\<close>

lemma create_and_bind_unix_leaks:
  assumes "an_socket an \<noteq> - 1" and "\<not> an_bind an (take 107 sockpath)"
  shows "create_and_bind_unix an sockpath k = (- 1, k(an_socket an \<mapsto> new_sock), [sockpath])"
  using assms by (simp add: create_and_bind_unix_def Let_def sys_socket_def on_sock_def)

text \<open>A path of 108 bytes and more is bound under another name than the one that was unlinked.\<close>

lemma create_and_bind_unix_truncates:
  assumes "an_socket an \<noteq> - 1" and "an_bind an (take 107 sockpath)" and "107 < length sockpath"
  shows "\<exists>name. create_and_bind_unix an sockpath k = (an_socket an,
      k(an_socket an \<mapsto> new_sock\<lparr> so_bound := Some (SunPath name) \<rparr>), [sockpath]) \<and> name \<noteq> sockpath"
proof -
  have "length (take 107 sockpath) \<noteq> length sockpath" using assms(3) by simp
  then have "take 107 sockpath \<noteq> sockpath" by metis
  with assms(1,2) show ?thesis by (auto simp: create_and_bind_unix_def Let_def sys_socket_def on_sock_def)
qed

text \<open>
  C37. Listening on a TCP port: the server aborts unless one of the addresses can be bound, the socket can be
  made non-blocking and it can listen. Otherwise it listens, without blocking, with the backlog of the
  configuration, on the first address that could be bound; every other socket it had opened on the way is
  closed again, and no other descriptor is touched.
\<close>

theorem make_listen_correct:
  assumes "an_getaddrinfo an False host port = Some cs"
    and "\<forall>rp \<in> set cs. ca_socket rp \<noteq> - 1 \<longrightarrow> k (ca_socket rp) = None"
  shows "make_listen an conf host port INET k =
    (case find (\<lambda>rp. ca_socket rp \<noteq> - 1 \<and> ca_bind rp) cs of
       None \<Rightarrow> None
     | Some rp \<Rightarrow>
         if an_getfl an \<and> an_setfl an \<and> an_listen an then
           Some (ca_socket rp, k(ca_socket rp \<mapsto>
             \<lparr> so_nonblock = True, so_nodelay = an_nodelay an, so_reuse = ca_reuse rp,
               so_bound = Some (SockAddr (ca_addr rp)), so_backlog = Some (cf_tcp_backlog conf) \<rparr>))
         else None)"
proof (cases "find (\<lambda>rp. ca_socket rp \<noteq> - 1 \<and> ca_bind rp) cs")
  case None
  then show ?thesis using assms bind_first_correct [OF assms(2)]
    by (simp add: make_listen_def create_and_bind_def create_and_bind_tcp_def UNIX_def INET_def UDP_def)
next
  case (Some rp)
  then have "ca_socket rp \<noteq> - 1" by (auto simp: find_Some_iff)
  with Some show ?thesis using assms bind_first_correct [OF assms(2)]
    by (simp add: make_listen_def create_and_bind_def create_and_bind_tcp_def UNIX_def INET_def UDP_def Let_def
        set_nonblocking_open set_tcp_nodelay_open on_sock_def new_sock_def)
qed

definition demo_answers :: answers where
  "demo_answers = \<lparr> an_getfl = True, an_setfl = True, an_nodelay = True, an_listen = True, an_socket = - 1,
     an_bind = \<lambda>_. False, an_getaddrinfo = \<lambda>_ _ _. Some
       [\<lparr> ca_addr = [10], ca_socket = 3, ca_reuse = True, ca_bind = False \<rparr>,
        \<lparr> ca_addr = [2], ca_socket = 3, ca_reuse = True, ca_bind = True \<rparr>] \<rparr>"

theorem make_listen_correct_witness:
  "\<forall>conf. make_listen demo_answers conf (lit ''localhost'') (lit ''9090'') INET Map.empty =
     Some (3, [3 \<mapsto> \<lparr> so_nonblock = True, so_nodelay = True, so_reuse = True, so_bound = Some (SockAddr [2]),
       so_backlog = Some (cf_tcp_backlog conf) \<rparr>])"
proof
  fix conf
  note eq = make_listen_correct [of demo_answers "lit ''localhost''" "lit ''9090''"
      "[\<lparr> ca_addr = [10], ca_socket = 3, ca_reuse = True, ca_bind = False \<rparr>,
        \<lparr> ca_addr = [2], ca_socket = 3, ca_reuse = True, ca_bind = True \<rparr>]" Map.empty conf]
  show "make_listen demo_answers conf (lit ''localhost'') (lit ''9090'') INET Map.empty =
     Some (3, [3 \<mapsto> \<lparr> so_nonblock = True, so_nodelay = True, so_reuse = True, so_bound = Some (SockAddr [2]),
       so_backlog = Some (cf_tcp_backlog conf) \<rparr>])"
    by (subst eq) (simp_all add: demo_answers_def)
qed

end
