(* ===== verification/Tdb_Epoll.thy ===== *)
theory Tdb_Epoll
  imports Tdb_Loop Tdb_Socket
begin

text \<open>
  The server with its epoll registrations: which client is watched for what decides which branch can run
  next. The branches of \<open>Tdb_Server\<close> are completed by their calls of \<^verbatim>\<open>epoll_add\<close> and \<^verbatim>\<open>epoll_mod\<close>, and a
  transition system with labels delivers events only for armed registrations. Its runs are runs of
  \<open>Tdb_Service\<close>; besides, the events of each client come in order, and the pointers of events are of the
  kind the branches take them for.
\<close>

subsection \<open>The branches with their registrations\<close>

text \<open>What the data of an event of the I/O epoll points to: a client, or an \<^verbatim>\<open>io_event\<close> with its reply.\<close>

datatype io_ptr = ClientPtr addr | EventPtr addr "bstring option"

type_synonym io_epoll = "io_ptr epoll"
type_synonym main_epoll = "unit epoll"

text \<open>A configuration of the server, the open descriptors, the I/O epoll and the one of \<^verbatim>\<open>accept_loop\<close>.\<close>

type_synonym net = "conf \<times> socks \<times> io_epoll \<times> main_epoll"

datatype net_label =
    Accepted "addr list"
  | Requested addr
  | Malformed addr
  | Worked addr
  | Written addr
  | Other

definition as_client :: "io_ptr epoll_data \<Rightarrow> addr cres" where
  "as_client data = (case data of DataPtr (ClientPtr c) \<Rightarrow> Inr c | _ \<Rightarrow> Inl OutOfBounds)"

definition as_event :: "io_ptr epoll_data \<Rightarrow> (addr \<times> bstring option) cres" where
  "as_event data = (case data of DataPtr (EventPtr c reply) \<Rightarrow> Inr (c, reply) | _ \<Rightarrow> Inl OutOfBounds)"

text \<open>The descriptors a branch closed, and the effect of closing them.\<close>

definition closed_since :: "triedb \<Rightarrow> triedb \<Rightarrow> int list" where
  "closed_since s s' = drop (length (tr_closed s)) (tr_closed s')"

definition close_socks :: "int list \<Rightarrow> socks \<Rightarrow> socks" where
  "close_socks fds k = fold sys_close fds k"

text \<open>
  The connections of one event of the listening socket, until \<^verbatim>\<open>accept_connection\<close> fails: the clients, and
  the socket table, the server and the two epoll instances after it.
\<close>

fun accept_all :: "int \<Rightarrow> (accepted \<times> env \<times> addr \<times> cstring) list \<Rightarrow> socks \<times> triedb \<times> io_epoll \<times> main_epoll \<Rightarrow>
    (addr list \<times> socks \<times> triedb \<times> io_epoll \<times> main_epoll) cres" where
  "accept_all serverfd [] st = Inr ([], st)"
| "accept_all serverfd ((ac, en, c, uuid) # rest) (k, s, io, main) =
     (case accept_connection (tr_conf s) ac k of (fd, k') \<Rightarrow>
        if fd < 0 then Inr ([], k', s, io, main)
        else
          bindE (accept_client en c fd uuid s) (\<lambda>s'.
          bindE (accept_all serverfd rest (k', s',
                   snd (epoll_add io fd (EPOLLIN OR EPOLLONESHOT) (Some (ClientPtr c))),
                   snd (epoll_mod main serverfd EPOLLIN None))) (\<lambda>(cs, st).
            Inr (c # cs, st))))"

definition net_read :: "env \<Rightarrow> bytes \<Rightarrow> io_result list \<Rightarrow> io_ptr epoll_data \<Rightarrow> net \<Rightarrow> (net_label \<times> net) cres" where
  "net_read en buf sk data n =
     (case n of ((s, evs, outs), k, io, main) \<Rightarrow>
        bindE (as_client data) (\<lambda>c.
        bindE (io_read en c buf sk s) (\<lambda>(pkt, buf', sk', s').
          let fds = closed_since s s'; rest = (close_socks fds k, epoll_forget fds io, epoll_forget fds main) in
          case pkt of
            None \<Rightarrow> Inr (Malformed c, (s', evs, outs), rest)
          | Some p \<Rightarrow> Inr (Requested c, (s', evs @ [(c, p)], outs), rest))))"

definition net_work :: "env \<Rightarrow> addr \<Rightarrow> triedb_request \<Rightarrow> net \<Rightarrow> (net_label \<times> net) cres" where
  "net_work en c pkt n =
     (case n of ((s, evs, outs), k, io, main) \<Rightarrow>
        bindE (worker_event en c pkt s) (\<lambda>(reply, s').
        bindE (obj_read (tr_client_heap s') c) (\<lambda>cl.
          let fds = closed_since s s' in
          Inr (Worked c, (s', remove1 (c, pkt) evs, outs @ [(c, reply)]), close_socks fds k,
               snd (epoll_mod (epoll_forget fds io) (c_fd cl) EPOLLOUT (Some (EventPtr c reply))), epoll_forget fds main))))"

definition net_write :: "write_result list \<Rightarrow> io_ptr epoll_data \<Rightarrow> net \<Rightarrow> (net_label \<times> net) cres" where
  "net_write ws data n =
     (case n of ((s, evs, outs), k, io, main) \<Rightarrow>
        bindE (as_event data) (\<lambda>(c, reply).
        bindE (io_write c reply ws s) (\<lambda>(out, s').
        bindE (obj_read (tr_client_heap s') c) (\<lambda>cl.
          let fds = closed_since s s' in
          Inr (Written c, (s', evs, remove1 (c, reply) outs), close_socks fds k,
               snd (epoll_mod (epoll_forget fds io) (c_fd cl) EPOLLIN (Some (ClientPtr c))), epoll_forget fds main)))))"

text \<open>The registrations \<^verbatim>\<open>start_server\<close> and \<^verbatim>\<open>accept_loop\<close> make before the first event; \<open>busfd\<close> only in a cluster.\<close>

definition io_start :: "int \<Rightarrow> io_epoll" where
  "io_start run = snd (epoll_add Map.empty run EPOLLIN None)"

definition bus_start :: "int option \<Rightarrow> io_epoll \<Rightarrow> io_epoll" where
  "bus_start busfd io = (case busfd of None \<Rightarrow> io | Some fd \<Rightarrow> snd (epoll_add io fd EPOLLIN None))"

definition main_start_epoll :: "int \<Rightarrow> int \<Rightarrow> main_epoll" where
  "main_start_epoll run serverfd =
     snd (epoll_add (snd (epoll_add Map.empty serverfd (EPOLLIN OR EPOLLONESHOT) None)) run EPOLLIN None)"

subsection \<open>The transition system\<close>

text \<open>
  The kernel delivers an event for an armed registration; \<^verbatim>\<open>accept\<close> returns descriptors that are not open;
  memory for a client or for a handler is not in use. A request waits in the worker epoll from the read to
  its delivery. In the branch for errors the kernel has delivered an event of \<open>fd\<close>, and \<^verbatim>\<open>data.fd\<close>, which is
  some part of a pointer, is closed.
\<close>

inductive net_step :: "int \<Rightarrow> net_label \<Rightarrow> net \<Rightarrow> net \<Rightarrow> bool" for serverfd :: int where
  accept: "epoll_deliver main serverfd EPOLLIN = Some (data, main') \<Longrightarrow>
    accept_all serverfd conns (k, s, io, main') = Inr (cs, k', s', io', main'') \<Longrightarrow>
    distinct (map (\<lambda>(ac, en, c, uuid). c) conns) \<Longrightarrow> \<forall>(ac, en, c, uuid) \<in> set conns. tr_client_heap s c = None \<Longrightarrow>
    distinct (map (\<lambda>(ac, en, c, uuid). ac_fd ac) conns) \<Longrightarrow> \<forall>(ac, en, c, uuid) \<in> set conns. k (ac_fd ac) = None \<Longrightarrow>
    net_step serverfd (Accepted cs) ((s, evs, outs), k, io, main) ((s', evs, outs), k', io', main'')"
| read: "epoll_deliver io fd EPOLLIN = Some (DataPtr p, io') \<Longrightarrow>
    net_read en buf sk (DataPtr p) (conf, k, io', main) = Inr (l, n') \<Longrightarrow> net_step serverfd l (conf, k, io, main) n'"
| work: "(c, pkt) \<in> set evs \<Longrightarrow> fresh en s \<Longrightarrow> net_work en c pkt ((s, evs, outs), rest) = Inr (l, n') \<Longrightarrow>
    net_step serverfd l ((s, evs, outs), rest) n'"
| answer: "epoll_deliver io fd EPOLLOUT = Some (DataPtr p, io') \<Longrightarrow>
    net_write ws (DataPtr p) (conf, k, io', main) = Inr (l, n') \<Longrightarrow> net_step serverfd l (conf, k, io, main) n'"
| timer: "expire_keys now s = Inr s' \<Longrightarrow> net_step serverfd Other ((s, evs, outs), rest) ((s', evs, outs), rest)"
| bus: "epoll_deliver io fd EPOLLIN = Some (DataFd fd, io') \<Longrightarrow> bus_event dgram buf s = Inr (buf', s') \<Longrightarrow>
    net_step serverfd Other ((s, evs, outs), k, io, main) ((s', evs, outs), k, io', main)"
| failure: "io fd = Some r \<Longrightarrow> rg_armed r \<Longrightarrow>
    net_step serverfd Other ((s, evs, outs), k, io, main)
      ((s\<lparr> tr_closed := tr_closed s @ [x] \<rparr>, evs, outs), close_socks [x] k,
       epoll_forget [x] (io(fd \<mapsto> r\<lparr> rg_armed := False \<rparr>)), epoll_forget [x] main)"

inductive net_run :: "env \<Rightarrow> config \<Rightarrow> int \<Rightarrow> net_label list \<Rightarrow> net \<Rightarrow> bool" for en :: env and cf :: config and serverfd :: int where
  start: "start_state en cf = Inr s \<Longrightarrow> run \<noteq> serverfd \<Longrightarrow> k run \<noteq> None \<Longrightarrow> k serverfd \<noteq> None \<Longrightarrow>
    \<forall>fd. busfd = Some fd \<longrightarrow> k fd \<noteq> None \<Longrightarrow>
    net_run en cf serverfd [] ((s\<lparr> tr_info := (tr_info s)\<lparr> nnodes := n, start_time := t \<rparr> \<rparr>, [], []), k,
      bus_start busfd (io_start run), main_start_epoll run serverfd)"
| step: "net_run en cf serverfd ls n \<Longrightarrow> net_step serverfd l n n' \<Longrightarrow> net_run en cf serverfd (ls @ [l]) n'"

subsection \<open>The order of the events of a client\<close>

datatype phase = Unknown | Idle | Pending | Answering | Stalled

definition next_phase :: "addr \<Rightarrow> net_label \<Rightarrow> phase \<Rightarrow> phase option" where
  "next_phase c l ph =
     (case l of
        Accepted cs \<Rightarrow> if c \<in> set cs then (if ph = Unknown then Some Idle else None) else Some ph
      | Requested c' \<Rightarrow> if c' = c then (if ph = Idle then Some Pending else None) else Some ph
      | Malformed c' \<Rightarrow> if c' = c then (if ph = Idle then Some Stalled else None) else Some ph
      | Worked c' \<Rightarrow> if c' = c then (if ph = Pending then Some Answering else None) else Some ph
      | Written c' \<Rightarrow> if c' = c then (if ph = Answering then Some Idle else None) else Some ph
      | Other \<Rightarrow> Some ph)"

definition run_phase :: "addr \<Rightarrow> net_label list \<Rightarrow> phase option" where
  "run_phase c ls = foldl (\<lambda>p l. Option.bind p (next_phase c l)) (Some Unknown) ls"

lemma run_phase_Nil [simp]: "run_phase c [] = Some Unknown"
  by (simp add: run_phase_def)

lemma run_phase_snoc [simp]: "run_phase c (ls @ [l]) = Option.bind (run_phase c ls) (next_phase c l)"
  by (simp add: run_phase_def)

subsection \<open>The invariant of the registrations\<close>

text \<open>
  A registration with a client watches its own descriptor for reading, and while it is armed no request
  and no reply of the client is under way; one with an \<^verbatim>\<open>io_event\<close> watches the descriptor of the client
  for writing, and while it is armed the reply waits.
\<close>

definition busy :: "conf \<Rightarrow> addr set" where
  "busy conf = (case conf of (s, evs, outs) \<Rightarrow> fst ` set evs \<union> fst ` set outs)"

definition owns_fd :: "triedb \<Rightarrow> addr \<Rightarrow> int \<Rightarrow> bool" where
  "owns_fd s c fd \<longleftrightarrow> (\<exists>cl. tr_client_heap s c = Some cl \<and> c_fd cl = fd)"

definition reg_ok :: "conf \<Rightarrow> int \<Rightarrow> io_ptr registration \<Rightarrow> bool" where
  "reg_ok conf fd r =
     (case rg_data r of
        DataFd x \<Rightarrow> True
      | DataPtr (ClientPtr c) \<Rightarrow> rg_events r = 0xC0000001 \<and> owns_fd (fst conf) c fd \<and> (rg_armed r \<longrightarrow> c \<notin> busy conf)
      | DataPtr (EventPtr c reply) \<Rightarrow> rg_events r = 0xC0000004 \<and> owns_fd (fst conf) c fd \<and>
          (rg_armed r \<longrightarrow> (c, reply) \<in> set (snd (snd conf))))"

definition regs_ok :: "conf \<Rightarrow> socks \<Rightarrow> io_epoll \<Rightarrow> bool" where
  "regs_ok conf k io \<longleftrightarrow> (\<forall>fd r. io fd = Some r \<longrightarrow> reg_ok conf fd r \<and> k fd \<noteq> None)"

definition net_inv :: "net \<Rightarrow> bool" where
  "net_inv n =
     (case n of ((s, evs, outs), k, io, main) \<Rightarrow>
        distinct (map fst evs @ map fst outs) \<and> regs_ok (s, evs, outs) k io)"

lemma event_masks:
  "EPOLLIN OR EPOLLONESHOT OR EPOLLET = 0xC0000001" "EPOLLIN OR EPOLLET OR EPOLLONESHOT = 0xC0000001"
  "EPOLLOUT OR EPOLLET OR EPOLLONESHOT = 0xC0000004" "(0xC0000001 :: u32) AND EPOLLOUT = 0" "(0xC0000004 :: u32) AND EPOLLIN = 0"
  "(0xC0000001 :: u32) AND EPOLLIN \<noteq> 0" "(0xC0000004 :: u32) AND EPOLLOUT \<noteq> 0"
  "(0xC0000001 :: u32) AND EPOLLONESHOT \<noteq> 0" "(0xC0000004 :: u32) AND EPOLLONESHOT \<noteq> 0"
  by code_simp+

lemma epoll_mod_eq:
  "snd (epoll_mod ep fd EPOLLIN (Some p)) =
     (if ep fd = None then ep else ep(fd \<mapsto> \<lparr> rg_events = 0xC0000001, rg_data = DataPtr p, rg_armed = True \<rparr>))"
  "snd (epoll_mod ep fd EPOLLOUT (Some p)) =
     (if ep fd = None then ep else ep(fd \<mapsto> \<lparr> rg_events = 0xC0000004, rg_data = DataPtr p, rg_armed = True \<rparr>))"
  by (simp_all add: epoll_mod_def epoll_ctl_def event_masks)

lemma epoll_add_eq:
  "ep fd = None \<Longrightarrow> snd (epoll_add ep fd (EPOLLIN OR EPOLLONESHOT) (Some p)) =
     ep(fd \<mapsto> \<lparr> rg_events = 0xC0000001, rg_data = DataPtr p, rg_armed = True \<rparr>)"
  by (simp add: epoll_add_def epoll_ctl_def event_masks or.assoc)

lemma close_socks_apply [simp]: "close_socks fds k fd = (if fd \<in> set fds then None else k fd)"
  by (induction fds arbitrary: k) (simp_all add: close_socks_def sys_close_def)

lemma epoll_forget_apply [simp]: "epoll_forget fds ep fd = (if fd \<in> set fds then None else ep fd)"
  by (simp add: epoll_forget_def)

lemma regs_ok_close: "regs_ok conf k io \<Longrightarrow> regs_ok conf (close_socks fds k) (epoll_forget fds io)"
  by (auto simp: regs_ok_def split: if_splits)

lemma regs_okD: "regs_ok conf k io \<Longrightarrow> io fd = Some r \<Longrightarrow> reg_ok conf fd r"
  by (simp add: regs_ok_def)

text \<open>The descriptors of clients do not change.\<close>

definition same_fds :: "triedb \<Rightarrow> triedb \<Rightarrow> bool" where
  "same_fds s s' \<longleftrightarrow> (\<forall>c fd. owns_fd s c fd \<longrightarrow> owns_fd s' c fd)"

lemma owns_fd_unique: "owns_fd s c fd \<Longrightarrow> owns_fd s c fd' \<Longrightarrow> fd = fd'"
  by (auto simp: owns_fd_def)

lemma same_fds_heap: "tr_client_heap s' = tr_client_heap s \<Longrightarrow> same_fds s s'"
  by (simp add: same_fds_def owns_fd_def)

lemma reg_ok_change:
  assumes "reg_ok (s, evs, outs) fd r" and "same_fds s s'"
    and "\<And>c. rg_data r = DataPtr (ClientPtr c) \<Longrightarrow> rg_armed r \<Longrightarrow> c \<notin> busy (s, evs, outs) \<Longrightarrow> c \<notin> busy (s', evs', outs')"
    and "\<And>c reply. rg_data r = DataPtr (EventPtr c reply) \<Longrightarrow> rg_armed r \<Longrightarrow> (c, reply) \<in> set outs \<Longrightarrow> (c, reply) \<in> set outs'"
  shows "reg_ok (s', evs', outs') fd r"
proof (cases "rg_data r")
  case (DataPtr p)
  then show ?thesis using assms by (cases p) (auto simp: reg_ok_def same_fds_def)
qed (simp add: reg_ok_def)

lemma regs_ok_change:
  assumes "regs_ok (s, evs, outs) k io" and "same_fds s s'"
    and "\<And>fd r c. io fd = Some r \<Longrightarrow> rg_data r = DataPtr (ClientPtr c) \<Longrightarrow> rg_armed r \<Longrightarrow> owns_fd s c fd \<Longrightarrow>
      c \<notin> busy (s, evs, outs) \<Longrightarrow> c \<notin> busy (s', evs', outs')"
    and "\<And>fd r c reply. io fd = Some r \<Longrightarrow> rg_data r = DataPtr (EventPtr c reply) \<Longrightarrow> rg_armed r \<Longrightarrow> owns_fd s c fd \<Longrightarrow>
      (c, reply) \<in> set outs \<Longrightarrow> (c, reply) \<in> set outs'"
  shows "regs_ok (s', evs', outs') k io"
  unfolding regs_ok_def
proof (intro allI impI)
  fix fd r
  assume r: "io fd = Some r"
  note ok = regs_okD [OF assms(1) r]
  have "reg_ok (s', evs', outs') fd r"
    by (rule reg_ok_change [OF ok assms(2)]; rule assms(3,4) [OF r]) (use ok in \<open>auto simp: reg_ok_def\<close>)
  with assms(1) r show "reg_ok (s', evs', outs') fd r \<and> k fd \<noteq> None" by (auto simp: regs_ok_def)
qed

lemma regs_ok_same: "regs_ok (s, evs, outs) k io \<Longrightarrow> same_fds s s' \<Longrightarrow> regs_ok (s', evs, outs) k io"
  by (rule regs_ok_change) (auto simp: busy_def)

lemma regs_ok_upd: "regs_ok conf k io \<Longrightarrow> reg_ok conf fd r \<Longrightarrow> k fd \<noteq> None \<Longrightarrow> regs_ok conf k (io(fd \<mapsto> r))"
  by (simp add: regs_ok_def)

lemma deliver_in:
  assumes "regs_ok conf k io" and "epoll_deliver io fd EPOLLIN = Some (DataPtr p, io')"
  shows "\<exists>c r. p = ClientPtr c \<and> owns_fd (fst conf) c fd \<and> c \<notin> busy conf \<and> io fd = Some r \<and>
    rg_data r = DataPtr p \<and> io' = io(fd \<mapsto> r\<lparr> rg_armed := False \<rparr>)"
proof -
  obtain r where r: "io fd = Some r" "rg_armed r" "rg_events r AND EPOLLIN \<noteq> 0" "rg_data r = DataPtr p"
    "io' = (if rg_events r AND EPOLLONESHOT \<noteq> 0 then io(fd \<mapsto> r\<lparr> rg_armed := False \<rparr>) else io)"
    using assms(2) by (auto simp: epoll_deliver_def split: option.splits if_splits)
  show ?thesis
    using regs_okD [OF assms(1) r(1)] r by (cases p) (auto simp: reg_ok_def event_masks)
qed

lemma deliver_out:
  assumes "regs_ok conf k io" and "epoll_deliver io fd EPOLLOUT = Some (DataPtr p, io')"
  shows "\<exists>c reply r. p = EventPtr c reply \<and> owns_fd (fst conf) c fd \<and> (c, reply) \<in> set (snd (snd conf)) \<and>
    io fd = Some r \<and> rg_data r = DataPtr p \<and> io' = io(fd \<mapsto> r\<lparr> rg_armed := False \<rparr>)"
proof -
  obtain r where r: "io fd = Some r" "rg_armed r" "rg_events r AND EPOLLOUT \<noteq> 0" "rg_data r = DataPtr p"
    "io' = (if rg_events r AND EPOLLONESHOT \<noteq> 0 then io(fd \<mapsto> r\<lparr> rg_armed := False \<rparr>) else io)"
    using assms(2) by (auto simp: epoll_deliver_def split: option.splits if_splits)
  show ?thesis
    using regs_okD [OF assms(1) r(1)] r by (cases p) (auto simp: reg_ok_def event_masks)
qed

lemma regs_ok_disarm:
  assumes "regs_ok conf k io" and "io fd = Some r"
  shows "regs_ok conf k (io(fd \<mapsto> r\<lparr> rg_armed := False \<rparr>))"
proof (rule regs_ok_upd [OF assms(1)])
  show "reg_ok conf fd (r\<lparr> rg_armed := False \<rparr>)"
    using regs_okD [OF assms] by (auto simp: reg_ok_def split: epoll_data.splits io_ptr.splits)
  show "k fd \<noteq> None" using assms by (auto simp: regs_ok_def)
qed

subsection \<open>Every branch keeps it, and moves its client on\<close>

definition unwatched :: "io_epoll \<Rightarrow> addr \<Rightarrow> bool" where
  "unwatched io c \<longleftrightarrow> (\<forall>fd r. io fd = Some r \<longrightarrow> rg_armed r \<longrightarrow> rg_data r \<noteq> DataPtr (ClientPtr c))"

text \<open>How the phase of a client shows in a configuration; after a malformed packet nobody listens to it.\<close>

definition in_phase :: "phase \<Rightarrow> addr \<Rightarrow> net \<Rightarrow> bool" where
  "in_phase ph c n =
     (case n of ((s, evs, outs), k, io, main) \<Rightarrow>
        (ph = Unknown \<longleftrightarrow> tr_client_heap s c = None) \<and> (ph = Pending \<longleftrightarrow> c \<in> fst ` set evs) \<and>
        (ph = Answering \<longleftrightarrow> c \<in> fst ` set outs) \<and> (ph = Stalled \<longrightarrow> unwatched io c))"

definition step_good :: "net_label \<Rightarrow> net \<Rightarrow> net \<Rightarrow> bool" where
  "step_good l n n' \<longleftrightarrow> net_inv n' \<and> server_step\<^sup>*\<^sup>* (fst n) (fst n') \<and>
     (\<forall>c ph. in_phase ph c n \<longrightarrow> (\<exists>ph'. next_phase c l ph = Some ph' \<and> in_phase ph' c n'))"

lemma io_read_same_fds:
  assumes "io_read en c buf sk s = Inr (req, buf', sk', s')"
  shows "same_fds s s' \<and> dom (tr_client_heap s') = dom (tr_client_heap s)"
proof -
  from assms obtain cl rc s1 where cl: "tr_client_heap s c = Some cl"
    "read_data (c_fd cl) buf sk s = Inr (rc, req, buf', sk', s1)"
    "s' = s1\<lparr> tr_client_heap := (tr_client_heap s1)(c \<mapsto> cl\<lparr> c_last_action_time := of_int (en_now en) \<rparr>) \<rparr>"
    by (rule io_read_split)
  then show ?thesis using read_data_state(3) [OF cl(2)] by (auto simp: same_fds_def owns_fd_def)
qed

lemma unwatched_upd: "unwatched (io(fd \<mapsto> r)) c \<longleftrightarrow>
    (\<forall>fd' r'. fd' \<noteq> fd \<longrightarrow> io fd' = Some r' \<longrightarrow> rg_armed r' \<longrightarrow> rg_data r' \<noteq> DataPtr (ClientPtr c)) \<and>
    (rg_armed r \<longrightarrow> rg_data r \<noteq> DataPtr (ClientPtr c))"
  by (auto simp: unwatched_def)

lemma disarm_unwatched:
  assumes "regs_ok conf k io" and "owns_fd (fst conf) c fd"
  shows "unwatched (io(fd \<mapsto> r\<lparr> rg_armed := False \<rparr>)) c"
proof -
  have "fd' = fd" if "io fd' = Some r'" "rg_data r' = DataPtr (ClientPtr c)" for fd' r'
    using regs_okD [OF assms(1) that(1)] that(2) assms(2) by (auto simp: reg_ok_def intro: owns_fd_unique)
  then show ?thesis by (auto simp: unwatched_upd)
qed

lemma unwatched_forget: "unwatched io c \<Longrightarrow> unwatched (epoll_forget fds io) c"
  by (auto simp: unwatched_def split: if_splits)

lemma in_phase_change:
  assumes "in_phase ph c ((s, evs, outs), k, io, main)" and "tr_client_heap s' c = None \<longleftrightarrow> tr_client_heap s c = None"
    and "c \<in> fst ` set evs' \<longleftrightarrow> c \<in> fst ` set evs" and "c \<in> fst ` set outs' \<longleftrightarrow> c \<in> fst ` set outs"
    and "unwatched io c \<Longrightarrow> unwatched io' c"
  shows "in_phase ph c ((s', evs', outs'), k', io', main')"
  using assms by (auto simp: in_phase_def)

lemma net_invI:
  "distinct (map fst evs @ map fst outs) \<Longrightarrow> regs_ok (s, evs, outs) k io \<Longrightarrow> net_inv ((s, evs, outs), k, io, main)"
  by (simp add: net_inv_def)

lemma net_read_good:
  assumes inv: "net_inv ((s, evs, outs), k, io, main)" "conf_inv d (s, evs, outs)"
    and del: "epoll_deliver io fd EPOLLIN = Some (DataPtr p, io')"
    and r: "net_read en buf sk (DataPtr p) ((s, evs, outs), k, io', main) = Inr (l, n')"
  shows "step_good l ((s, evs, outs), k, io, main) n'"
proof -
  have regs: "regs_ok (s, evs, outs) k io" and dist: "distinct (map fst evs @ map fst outs)" using inv by (simp_all add: net_inv_def)
  from deliver_in [OF regs del] obtain c rg where c: "p = ClientPtr c" "owns_fd s c fd" "c \<notin> busy (s, evs, outs)"
    "io fd = Some rg" "rg_data rg = DataPtr p" "io' = io(fd \<mapsto> rg\<lparr> rg_armed := False \<rparr>)" by auto
  have armed: "\<not> unwatched io c"
    using del c by (auto simp: epoll_deliver_def unwatched_def split: if_splits)
  from r c(1) obtain pkt buf' sk' s' where rd: "io_read en c buf sk s = Inr (pkt, buf', sk', s')"
    by (auto simp: net_read_def as_client_def)
  let ?fds = "closed_since s s'"
  let ?evs = "evs @ (case pkt of None \<Rightarrow> [] | Some q \<Rightarrow> [(c, q)])"
  have n': "l = (if pkt = None then Malformed c else Requested c)"
    "n' = ((s', ?evs, outs), close_socks ?fds k, epoll_forget ?fds io', epoll_forget ?fds main)"
    using r rd c(1) by (auto simp: net_read_def as_client_def Let_def split: option.splits)
  note s' = io_read_same_fds [OF rd]
  have un: "unwatched io' c"
    unfolding c(6) by (rule disarm_unwatched [OF regs]) (use c(2) in simp)
  have regs': "regs_ok (s', ?evs, outs) k io'"
    by (rule regs_ok_change [OF regs_ok_disarm [OF regs c(4), folded c(6)]]) (use s' un in \<open>auto simp: busy_def unwatched_def split: option.splits\<close>)
  have "distinct (map fst ?evs @ map fst outs)" using dist c(3) by (auto simp: busy_def split: option.split)
  then have "net_inv n'" unfolding n'(2) by (rule net_invI [OF _ regs_ok_close [OF regs']])
  moreover have "server_step (s, evs, outs) (s', ?evs, outs)"
    using rd by (auto intro: server_step.intros split: option.split)
  moreover have "\<exists>ph'. next_phase c' l ph = Some ph' \<and> in_phase ph' c' n'"
    if ph: "in_phase ph c' ((s, evs, outs), k, io, main)" for c' ph
  proof (cases "c' = c")
    case True
    have "tr_client_heap s c \<noteq> None" using c(2) by (auto simp: owns_fd_def)
    with ph True armed c(3) have "ph = Idle" by (cases ph) (auto simp: in_phase_def busy_def)
    moreover have "tr_client_heap s' c \<noteq> None" using \<open>tr_client_heap s c \<noteq> None\<close> s' by auto
    ultimately show ?thesis
      using True c(3) unwatched_forget [OF un] unfolding n' by (auto simp: next_phase_def in_phase_def busy_def split: option.splits)
  next
    case False
    have "unwatched io c' \<Longrightarrow> unwatched io' c'" unfolding c(6) unwatched_upd by (auto simp: unwatched_def)
    then have "in_phase ph c' n'"
      unfolding n' by (intro in_phase_change [OF ph]) (use False s' in \<open>auto split: option.splits intro: unwatched_forget\<close>)
    then show ?thesis using False n'(1) by (auto simp: next_phase_def)
  qed
  ultimately show ?thesis unfolding step_good_def n'(2) by (simp add: r_into_rtranclp)
qed

lemma remove1_key:
  assumes "distinct (map fst xs)" and "(c, x) \<in> set xs"
  shows "distinct (map fst (remove1 (c, x) xs)) \<and> fst ` set (remove1 (c, x) xs) = fst ` set xs - {c}"
proof -
  from remove1_split [OF assms(2)] obtain ys zs where "xs = ys @ (c, x) # zs" "remove1 (c, x) xs = ys @ zs"
    by (elim exE conjE)
  then show ?thesis using assms(1) by (auto simp: image_iff)
qed

lemma epoll_mod_regs:
  assumes "regs_ok conf k ep" and "owns_fd (fst conf) c fd"
  shows "c \<notin> busy conf \<Longrightarrow> regs_ok conf k (snd (epoll_mod ep fd EPOLLIN (Some (ClientPtr c))))"
    and "(c, reply) \<in> set (snd (snd conf)) \<Longrightarrow> regs_ok conf k (snd (epoll_mod ep fd EPOLLOUT (Some (EventPtr c reply))))"
  using assms by (auto simp: epoll_mod_eq regs_ok_def reg_ok_def)

lemma unwatched_mod:
  "unwatched ep a \<Longrightarrow> unwatched (snd (epoll_mod ep fd EPOLLOUT (Some (EventPtr c reply)))) a"
  "unwatched ep a \<Longrightarrow> a \<noteq> c \<Longrightarrow> unwatched (snd (epoll_mod ep fd EPOLLIN (Some (ClientPtr c)))) a"
  by (auto simp: epoll_mod_eq unwatched_def)

lemma net_work_good:
  assumes inv: "net_inv ((s, evs, outs), k, io, main)" "conf_inv d (s, evs, outs)"
    and mem: "(c, pkt) \<in> set evs" and fr: "fresh en s"
    and r: "net_work en c pkt ((s, evs, outs), k, io, main) = Inr (l, n')"
  shows "step_good l ((s, evs, outs), k, io, main) n'"
proof -
  have regs: "regs_ok (s, evs, outs) k io" and dist: "distinct (map fst evs @ map fst outs)" using inv by (simp_all add: net_inv_def)
  have ci: "srv_inv d s" "tr_client_heap s c \<noteq> None" "wire_request pkt" using inv(2) mem by (auto simp: conf_inv_def)
  from r obtain reply s' cl where w: "worker_event en c pkt s = Inr (reply, s')" "tr_client_heap s' c = Some cl"
    by (auto simp: net_work_def)
  let ?fds = "closed_since s s'"
  let ?evs = "remove1 (c, pkt) evs"
  let ?outs = "outs @ [(c, reply)]"
  let ?io = "snd (epoll_mod (epoll_forget ?fds io) (c_fd cl) EPOLLOUT (Some (EventPtr c reply)))"
  have n': "l = Worked c" "n' = ((s', ?evs, ?outs), close_socks ?fds k, ?io, epoll_forget ?fds main)"
    using r w by (auto simp: net_work_def Let_def obj_read_Some)
  have heap: "tr_client_heap s' = tr_client_heap s" using worker_keeps [OF ci fr w(1)] by (simp add: keeps_def)
  have ev: "distinct (map fst ?evs)" "fst ` set ?evs = fst ` set evs - {c}" using remove1_key [OF _ mem] dist by auto
  have c: "c \<in> fst ` set evs" "c \<notin> fst ` set outs" using mem dist by (force simp: image_iff)+
  have "regs_ok (s', ?evs, ?outs) k io"
    by (rule regs_ok_change [OF regs same_fds_heap [OF heap]]) (use ev c in \<open>auto simp: busy_def\<close>)
  note regs_ok_close [OF this, of ?fds]
  then have regs': "regs_ok (s', ?evs, ?outs) (close_socks ?fds k) ?io"
    by (rule epoll_mod_regs(2)) (use w(2) in \<open>auto simp: owns_fd_def\<close>)
  have "distinct (map fst ?evs @ map fst ?outs)" using ev c dist by auto
  then have "net_inv n'" unfolding n'(2) by (rule net_invI [OF _ regs'])
  moreover from remove1_split [OF mem] obtain ys zs where "evs = ys @ (c, pkt) # zs" "?evs = ys @ zs" by (elim exE conjE)
  then have "server_step (s, evs, outs) (s', ?evs, ?outs)" using server_step.work [OF w(1) fr] by simp
  moreover have "\<exists>ph'. next_phase a l ph = Some ph' \<and> in_phase ph' a n'"
    if ph: "in_phase ph a ((s, evs, outs), k, io, main)" for a ph
  proof (cases "a = c")
    case True
    then show ?thesis using ph c ev heap ci(2) unfolding n' by (cases ph) (auto simp: next_phase_def in_phase_def)
  next
    case False
    have "in_phase ph a n'"
      unfolding n' by (intro in_phase_change [OF ph]) (use False ev heap in \<open>auto intro: unwatched_forget unwatched_mod(1)\<close>)
    then show ?thesis using False n'(1) by (simp add: next_phase_def)
  qed
  ultimately show ?thesis unfolding step_good_def n'(2) by (simp add: r_into_rtranclp)
qed

lemma net_write_good:
  assumes inv: "net_inv ((s, evs, outs), k, io, main)" "conf_inv d (s, evs, outs)"
    and del: "epoll_deliver io fd EPOLLOUT = Some (DataPtr p, io')"
    and r: "net_write ws (DataPtr p) ((s, evs, outs), k, io', main) = Inr (l, n')"
  shows "step_good l ((s, evs, outs), k, io, main) n'"
proof -
  have regs: "regs_ok (s, evs, outs) k io" and dist: "distinct (map fst evs @ map fst outs)" using inv by (simp_all add: net_inv_def)
  from deliver_out [OF regs del] obtain c reply rg where c: "p = EventPtr c reply" "owns_fd s c fd" "(c, reply) \<in> set outs"
    "io fd = Some rg" "io' = io(fd \<mapsto> rg\<lparr> rg_armed := False \<rparr>)" by auto
  from r c(1) obtain out s' cl where w: "io_write c reply ws s = Inr (out, s')" "tr_client_heap s' c = Some cl"
    by (auto simp: net_write_def as_event_def)
  let ?fds = "closed_since s s'"
  let ?outs = "remove1 (c, reply) outs"
  let ?io = "snd (epoll_mod (epoll_forget ?fds io') (c_fd cl) EPOLLIN (Some (ClientPtr c)))"
  have n': "l = Written c" "n' = ((s', evs, ?outs), close_socks ?fds k, ?io, epoll_forget ?fds main)"
    using r w c(1) by (auto simp: net_write_def as_event_def Let_def obj_read_Some)
  have "srv_inv d s" using inv(2) by (simp add: conf_inv_def)
  from io_write_keeps [OF this w(1)] have heap: "tr_client_heap s' = tr_client_heap s" by (simp add: keeps_def)
  have ou: "distinct (map fst ?outs)" "fst ` set ?outs = fst ` set outs - {c}" using remove1_key [OF _ c(3)] dist by auto
  have nb: "c \<notin> busy (s', evs, ?outs)" "c \<in> fst ` set outs" using c(3) dist ou by (force simp: busy_def image_iff)+
  have keep: "(a, b) \<in> set ?outs" if "io' fd' = Some r'" "rg_data r' = DataPtr (EventPtr a b)" "rg_armed r'" "owns_fd s a fd'"
    "(a, b) \<in> set outs" for fd' r' a b
  proof -
    have "(a, b) \<noteq> (c, reply)" using that c(2,5) by (auto dest: owns_fd_unique split: if_splits)
    then show ?thesis using that(5) by (simp add: in_set_remove1)
  qed
  have "regs_ok (s', evs, ?outs) k io'"
    by (rule regs_ok_change [OF regs_ok_disarm [OF regs c(4), folded c(5)] same_fds_heap [OF heap] _ keep])
       (use ou in \<open>auto simp: busy_def\<close>)
  note regs_ok_close [OF this, of ?fds]
  then have regs': "regs_ok (s', evs, ?outs) (close_socks ?fds k) ?io"
    by (rule epoll_mod_regs(1)) (use w(2) nb in \<open>auto simp: owns_fd_def\<close>)
  have "distinct (map fst evs @ map fst ?outs)" using ou dist by auto
  then have "net_inv n'" unfolding n'(2) by (rule net_invI [OF _ regs'])
  moreover from remove1_split [OF c(3)] obtain ys zs where "outs = ys @ (c, reply) # zs" "?outs = ys @ zs" by (elim exE conjE)
  then have "server_step (s, evs, outs) (s', evs, ?outs)" using server_step.reply [OF w(1)] by simp
  moreover have "\<exists>ph'. next_phase a l ph = Some ph' \<and> in_phase ph' a n'"
    if ph: "in_phase ph a ((s, evs, outs), k, io, main)" for a ph
  proof (cases "a = c")
    case True
    then show ?thesis using ph nb ou heap w(2) unfolding n' by (cases ph) (auto simp: next_phase_def in_phase_def busy_def)
  next
    case False
    have "unwatched io a \<Longrightarrow> unwatched io' a" unfolding c(5) unwatched_upd by (auto simp: c(4) unwatched_def)
    then have "in_phase ph a n'"
      unfolding n' by (intro in_phase_change [OF ph]) (use False ou heap in \<open>auto intro: unwatched_forget unwatched_mod(2)\<close>)
    then show ?thesis using False n'(1) by (simp add: next_phase_def)
  qed
  ultimately show ?thesis unfolding step_good_def n'(2) by (simp add: r_into_rtranclp)
qed

lemma busy_alive: "conf_inv d (s, evs, outs) \<Longrightarrow> c \<in> busy (s, evs, outs) \<Longrightarrow> tr_client_heap s c \<noteq> None"
  by (auto simp: conf_inv_def busy_def)

lemma accept_one:
  assumes inv: "conf_inv d (s, evs, outs)" "regs_ok (s, evs, outs) k io" and "tr_client_heap s c = None" and "k (ac_fd ac) = None"
    and "accept_connection (tr_conf s) ac k = (fd, k')" and "\<not> fd < 0" and "accept_client en c fd uuid s = Inr s'"
  shows "fd = ac_fd ac \<and> (\<exists>so. k' = k(fd \<mapsto> so)) \<and> server_step (s, evs, outs) (s', evs, outs) \<and>
    conf_inv d (s', evs, outs) \<and> (\<exists>cl. tr_client_heap s' = (tr_client_heap s)(c \<mapsto> cl) \<and> c_fd cl = fd) \<and>
    io fd = None \<and> regs_ok (s', evs, outs) k' (snd (epoll_add io fd (EPOLLIN OR EPOLLONESHOT) (Some (ClientPtr c))))"
proof -
  have fd: "fd = ac_fd ac" "\<exists>so. k' = k(fd \<mapsto> so)"
    using assms(4-6) accept_connection_correct [where k = k and ac = ac and conf = "tr_conf s"] by (auto split: if_splits)
  have st: "server_step (s, evs, outs) (s', evs, outs)" using assms(3,7) by (rule server_step.accept [rotated])
  obtain cl where cl: "tr_client_heap s' = (tr_client_heap s)(c \<mapsto> cl)" "c_fd cl = fd"
    using assms(7) by (auto simp: accept_client_def Let_def)
  have io: "io fd = None" using inv(2) assms(4) fd(1) unfolding regs_ok_def by (metis option.exhaust)
  have "same_fds s s'" using cl assms(3) by (auto simp: same_fds_def owns_fd_def)
  with inv(2) have "regs_ok (s', evs, outs) k io" by (rule regs_ok_same)
  then have "regs_ok (s', evs, outs) k' io" using fd(2) by (auto simp: regs_ok_def)
  moreover have "c \<notin> busy (s', evs, outs)" using busy_alive [OF inv(1), of c] assms(3) by (auto simp: busy_def)
  ultimately have "regs_ok (s', evs, outs) k' (snd (epoll_add io fd (EPOLLIN OR EPOLLONESHOT) (Some (ClientPtr c))))"
    unfolding epoll_add_eq [of io fd "ClientPtr c", OF io] by (intro regs_ok_upd) (use cl fd(2) in \<open>auto simp: reg_ok_def owns_fd_def\<close>)
  with fd st cl io step_inv [OF st inv(1)] show ?thesis by blast
qed

lemma unwatched_add:
  "io fd = None \<Longrightarrow> unwatched io a \<Longrightarrow> a \<noteq> c \<Longrightarrow>
     unwatched (snd (epoll_add io fd (EPOLLIN OR EPOLLONESHOT) (Some (ClientPtr c)))) a"
  by (auto simp: epoll_add_eq unwatched_def)

lemma accept_all_good:
  assumes "accept_all serverfd conns (k, s, io, main) = Inr (cs, k', s', io', main')"
    and "distinct (map (\<lambda>(ac, en, c, uuid). c) conns)" and "\<forall>(ac, en, c, uuid) \<in> set conns. tr_client_heap s c = None"
    and "distinct (map (\<lambda>(ac, en, c, uuid). ac_fd ac) conns)" and "\<forall>(ac, en, c, uuid) \<in> set conns. k (ac_fd ac) = None"
    and "conf_inv d (s, evs, outs)" and "regs_ok (s, evs, outs) k io"
  shows "regs_ok (s', evs, outs) k' io' \<and> server_step\<^sup>*\<^sup>* (s, evs, outs) (s', evs, outs) \<and>
    (\<forall>c \<in> set cs. tr_client_heap s c = None) \<and> dom (tr_client_heap s') = dom (tr_client_heap s) \<union> set cs \<and>
    (\<forall>a. a \<notin> set cs \<longrightarrow> unwatched io a \<longrightarrow> unwatched io' a)"
  using assms
proof (induction conns arbitrary: k s io main cs)
  case Nil
  then show ?case by auto
next
  case (Cons x conns)
  obtain ac en c uuid where x: "x = (ac, en, c, uuid)" by (cases x)
  obtain fd k1 where fd: "accept_connection (tr_conf s) ac k = (fd, k1)" by fastforce
  have k: "k (ac_fd ac) = None" using Cons.prems(5) x by simp
  show ?case
  proof (cases "fd < 0")
    case True
    then have "k1 = k" using fd accept_connection_correct [where k = k and ac = ac and conf = "tr_conf s"] k by (auto split: if_splits)
    with True Cons.prems x fd show ?thesis by auto
  next
    case False
    let ?io = "snd (epoll_add io fd (EPOLLIN OR EPOLLONESHOT) (Some (ClientPtr c)))"
    from Cons.prems(1) x fd False obtain s1 cs1 where s1: "accept_client en c fd uuid s = Inr s1" "cs = c # cs1"
      "accept_all serverfd conns (k1, s1, ?io, snd (epoll_mod main serverfd EPOLLIN None)) = Inr (cs1, k', s', io', main')"
      by auto
    have cn: "tr_client_heap s c = None" using Cons.prems(3) x by simp
    from accept_one [OF Cons.prems(6,7) cn k fd False s1(1)] obtain so cl where one: "fd = ac_fd ac" "k1 = k(fd \<mapsto> so)"
      "server_step (s, evs, outs) (s1, evs, outs)" "conf_inv d (s1, evs, outs)" "tr_client_heap s1 = (tr_client_heap s)(c \<mapsto> cl)"
      "io fd = None" "regs_ok (s1, evs, outs) k1 ?io" by blast
    have d: "\<forall>(ac', en', c', uuid') \<in> set conns. c' \<noteq> c \<and> ac_fd ac' \<noteq> ac_fd ac" using Cons.prems(2,4) x by (force simp: image_iff)
    have f: "\<forall>(ac, en, c, uuid) \<in> set conns. tr_client_heap s1 c = None" "\<forall>(ac, en, c, uuid) \<in> set conns. k1 (ac_fd ac) = None"
      using d Cons.prems(3,5) one(1,2,5) by fastforce+
    have "distinct (map (\<lambda>(ac, en, c, uuid). c) conns)" "distinct (map (\<lambda>(ac, en, c, uuid). ac_fd ac) conns)"
      using Cons.prems(2,4) unfolding list.map distinct.simps by blast+
    note IH = Cons.IH [OF s1(3) this(1) f(1) this(2) f(2) one(4,7)]
    have none: "\<forall>a \<in> set cs. tr_client_heap s a = None" using IH cn s1(2) one(5) by (auto split: if_splits)
    moreover have "server_step\<^sup>*\<^sup>* (s, evs, outs) (s', evs, outs)"
      using one(3) IH by (meson converse_rtranclp_into_rtranclp)
    ultimately show ?thesis using IH one(5) s1(2) one(6) unwatched_add [of io fd _ c] by auto
  qed
qed

lemma net_accept_good:
  assumes inv: "net_inv ((s, evs, outs), k, io, main)" "conf_inv d (s, evs, outs)"
    and "accept_all serverfd conns (k, s, io, main1) = Inr (cs, k', s', io', main')"
    and "distinct (map (\<lambda>(ac, en, c, uuid). c) conns)" and "\<forall>(ac, en, c, uuid) \<in> set conns. tr_client_heap s c = None"
    and "distinct (map (\<lambda>(ac, en, c, uuid). ac_fd ac) conns)" and "\<forall>(ac, en, c, uuid) \<in> set conns. k (ac_fd ac) = None"
  shows "step_good (Accepted cs) ((s, evs, outs), k, io, main) ((s', evs, outs), k', io', main')"
proof -
  have regs: "regs_ok (s, evs, outs) k io" using inv(1) by (simp add: net_inv_def)
  note good = accept_all_good [OF assms(3-7) inv(2) regs]
  have "\<exists>ph'. next_phase a (Accepted cs) ph = Some ph' \<and> in_phase ph' a ((s', evs, outs), k', io', main')"
    if ph: "in_phase ph a ((s, evs, outs), k, io, main)" for a ph
  proof (cases "a \<in> set cs")
    case True
    then have a: "tr_client_heap s a = None" "tr_client_heap s' a \<noteq> None" using good by auto
    then have "ph = Unknown" using ph by (simp add: in_phase_def)
    moreover have "a \<notin> busy (s, evs, outs)" using busy_alive [OF inv(2)] a(1) by blast
    ultimately show ?thesis using True a by (simp add: next_phase_def in_phase_def busy_def)
  next
    case False
    have "in_phase ph a ((s', evs, outs), k', io', main')"
      by (rule in_phase_change [OF ph]) (use False good in auto)
    then show ?thesis using False by (simp add: next_phase_def)
  qed
  then show ?thesis using good inv(1) by (simp add: step_good_def net_inv_def)
qed

lemma other_good:
  assumes "net_inv ((s, evs, outs), k, io, main)" and "server_step (s, evs, outs) (s', evs, outs)"
    and "tr_client_heap s' = tr_client_heap s" and "regs_ok (s, evs, outs) k' io'" and "\<And>a. unwatched io a \<Longrightarrow> unwatched io' a"
  shows "step_good Other ((s, evs, outs), k, io, main) ((s', evs, outs), k', io', main')"
  using assms regs_ok_same [OF assms(4) same_fds_heap [OF assms(3)]]
  by (auto simp: step_good_def net_inv_def next_phase_def in_phase_def)

subsection \<open>Runs\<close>

lemma net_step_good:
  assumes "net_step serverfd l n n'" and "net_inv n" and "conf_inv d (fst n)"
  shows "step_good l n n'"
  using assms(1)
proof cases
  case (accept main data main' conns k s io cs k' s' io' main'' evs outs)
  then show ?thesis using assms(2,3) by (auto intro!: net_accept_good)
next
  case (read io fd p io' en buf sk conf k main)
  then show ?thesis using assms(2,3) net_read_good by (cases conf) auto
next
  case (work c pkt evs en s outs rest)
  then show ?thesis using assms(2,3) net_work_good by (cases rest) auto
next
  case (answer io fd p io' ws conf k main)
  then show ?thesis using assms(2,3) net_write_good by (cases conf) auto
next
  case (timer now s s' evs outs rest)
  then have "v_size (tr_expiring_keys s) = 0" using assms(3) by (simp add: conf_inv_def srv_inv_def)
  then have "s' = s" using timer expire_idle [of s now] by simp
  then show ?thesis using timer assms(2) server_step.timer [of now s s' evs outs]
    by (cases rest) (auto simp: net_inv_def intro!: other_good)
next
  case (bus io fd io' dgram buf s buf' s' evs outs k main)
  have regs: "regs_ok (s, evs, outs) k io" using assms(2) bus(2) by (simp add: net_inv_def)
  have "tr_client_heap s' = tr_client_heap s" using bus(5) by (auto simp: bus_event_def Let_def split: option.splits)
  moreover have "regs_ok (s, evs, outs) k io'" "unwatched io a \<Longrightarrow> unwatched io' a" for a
    using bus(4) regs regs_ok_disarm [OF regs] by (auto simp: epoll_deliver_def unwatched_def split: option.splits if_splits)
  ultimately show ?thesis unfolding bus(1-3)
    by (intro other_good) (use assms(2) bus in \<open>auto intro: server_step.bus\<close>)
next
  case (failure io fd r s evs outs k main x)
  have regs: "regs_ok (s, evs, outs) k io" using assms(2) failure(2) by (simp add: net_inv_def)
  show ?thesis unfolding failure(1-3)
  proof (rule other_good)
    show "regs_ok (s, evs, outs) (close_socks [x] k) (epoll_forget [x] (io(fd \<mapsto> r\<lparr> rg_armed := False \<rparr>)))"
      by (intro regs_ok_close regs_ok_disarm regs failure(4))
  qed (use assms(2) failure in \<open>auto simp: unwatched_upd unwatched_def split: if_splits intro: server_step.hangup\<close>)
qed

lemma io_start_regs:
  assumes "k run \<noteq> None" and "\<forall>fd. busfd = Some fd \<longrightarrow> k fd \<noteq> None"
  shows "regs_ok conf k (bus_start busfd (io_start run))"
  using assms
  by (auto simp: regs_ok_def reg_ok_def io_start_def bus_start_def epoll_add_def epoll_ctl_def Let_def split: option.splits if_splits)

lemma start_no_clients: "start_state en cf = Inr s \<Longrightarrow> tr_client_heap s = Map.empty"
  by (auto simp: start_state_def)

lemma net_run_good:
  assumes "net_run en cf serverfd ls n"
  shows "net_inv n \<and> reachable en cf (fst n) \<and> (\<forall>c. \<exists>ph. run_phase c ls = Some ph \<and> in_phase ph c n)"
  using assms
proof induction
  case (start s run k busfd n t)
  then show ?case
    using io_start_regs [of k run busfd] start_no_clients [OF start(1)] reachable.started [OF start(1)]
    by (simp add: net_inv_def in_phase_def)
next
  case (step ls n l n')
  then have "conf_inv (en_db en) (fst n)" using reachable_inv by blast
  with step have good: "step_good l n n'" by (blast intro: net_step_good)
  then have "reachable en cf (fst n')" using step.IH reachable_steps unfolding step_good_def by blast
  moreover have "\<exists>ph. run_phase c (ls @ [l]) = Some ph \<and> in_phase ph c n'" for c
  proof -
    obtain ph where "run_phase c ls = Some ph" "in_phase ph c n" using step.IH by blast
    with good show ?thesis unfolding step_good_def by fastforce
  qed
  ultimately show ?case using good unfolding step_good_def by blast
qed

lemma run_phase_prefix: "run_phase c (xs @ ys) \<noteq> None \<Longrightarrow> run_phase c xs \<noteq> None"
  by (induction ys rule: rev_induct) (auto simp: bind_eq_Some_conv simp flip: append_assoc)

fun client_of :: "net_label \<Rightarrow> addr set" where
  "client_of (Accepted cs) = set cs"
| "client_of (Requested c) = {c}"
| "client_of (Malformed c) = {c}"
| "client_of (Worked c) = {c}"
| "client_of (Written c) = {c}"
| "client_of Other = {}"

lemma stalled_forever:
  "run_phase c (ls @ Malformed c # ls') = Some ph \<Longrightarrow> ph = Stalled \<and> (\<forall>l \<in> set ls'. c \<notin> client_of l)"
proof (induction ls' arbitrary: ph rule: rev_induct)
  case Nil
  then show ?case by (auto simp: next_phase_def bind_eq_Some_conv split: if_splits)
next
  case (snoc l ls')
  have "Option.bind (run_phase c (ls @ Malformed c # ls')) (next_phase c l) = Some ph"
    using snoc.prems run_phase_snoc [of c "ls @ Malformed c # ls'" l] by simp
  then obtain q where q: "run_phase c (ls @ Malformed c # ls') = Some q" "next_phase c l q = Some ph"
    by (auto simp: bind_eq_Some_conv)
  from snoc.IH [OF q(1)] q(2) show ?case by (cases l) (auto simp: next_phase_def split: if_splits)
qed

text \<open>The listening socket is one-shot: it is watched again only after a connection was accepted.\<close>

definition deaf :: "int \<Rightarrow> main_epoll \<Rightarrow> bool" where
  "deaf serverfd main \<longleftrightarrow> (\<forall>r. main serverfd = Some r \<longrightarrow> \<not> rg_armed r)"

definition oneshot :: "int \<Rightarrow> main_epoll \<Rightarrow> bool" where
  "oneshot serverfd main \<longleftrightarrow> (\<forall>r. main serverfd = Some r \<longrightarrow> rg_events r = 0xC0000001)"

lemma oneshot_mod: "oneshot serverfd main \<Longrightarrow> oneshot serverfd (snd (epoll_mod main serverfd EPOLLIN None))"
  by (auto simp: oneshot_def epoll_mod_def epoll_ctl_def event_masks)

lemma accept_all_oneshot:
  "accept_all serverfd conns (k, s, io, main) = Inr (cs, k', s', io', main') \<Longrightarrow> oneshot serverfd main \<Longrightarrow>
     oneshot serverfd main' \<and> (cs = [] \<longrightarrow> main' = main)"
proof (induction conns arbitrary: k s io main cs)
  case (Cons x conns)
  obtain ac en c uuid where x: "x = (ac, en, c, uuid)" by (cases x)
  obtain fd k1 where fd: "accept_connection (tr_conf s) ac k = (fd, k1)" by fastforce
  show ?case
  proof (cases "fd < 0")
    case False
    with Cons.prems(1) x fd obtain s1 io1 cs1 where s1: "cs = c # cs1"
      "accept_all serverfd conns (k1, s1, io1, snd (epoll_mod main serverfd EPOLLIN None)) = Inr (cs1, k', s', io', main')"
      by auto
    from Cons.IH [OF s1(2) oneshot_mod [OF Cons.prems(2)]] s1(1) show ?thesis by simp
  qed (use Cons.prems x fd in auto)
qed auto

lemma deliver_oneshot:
  assumes "oneshot serverfd main" and "epoll_deliver main serverfd EPOLLIN = Some (data, main')"
  shows "\<not> deaf serverfd main \<and> deaf serverfd main' \<and> oneshot serverfd main'"
  using assms by (auto simp: epoll_deliver_def deaf_def oneshot_def event_masks split: option.splits if_splits)

lemma branch_main:
  "net_read en buf sk data (conf, k, io, main) = Inr (l, conf', k', io', main') \<Longrightarrow>
     \<exists>fds. main' = epoll_forget fds main \<and> (\<forall>cs. l \<noteq> Accepted cs)"
  "net_work en c pkt (conf, k, io, main) = Inr (l, conf', k', io', main') \<Longrightarrow>
     \<exists>fds. main' = epoll_forget fds main \<and> (\<forall>cs. l \<noteq> Accepted cs)"
  "net_write ws data (conf, k, io, main) = Inr (l, conf', k', io', main') \<Longrightarrow>
     \<exists>fds. main' = epoll_forget fds main \<and> (\<forall>cs. l \<noteq> Accepted cs)"
  by (cases conf; auto simp: net_read_def net_work_def net_write_def Let_def split: option.splits)+

lemma forget_main:
  assumes "\<exists>fds. main' = epoll_forget fds main \<and> (\<forall>cs. l \<noteq> Accepted cs)" and "oneshot serverfd main"
  shows "oneshot serverfd main' \<and>
    (case l of Accepted cs \<Rightarrow> P cs | _ \<Rightarrow> deaf serverfd main \<longrightarrow> deaf serverfd main')"
  using assms by (auto simp: oneshot_def deaf_def split: net_label.split if_splits)

lemma net_step_main:
  assumes "net_step serverfd l (conf, k, io, main) (conf', k', io', main')" and "oneshot serverfd main"
  shows "oneshot serverfd main' \<and>
    (case l of Accepted cs \<Rightarrow> \<not> deaf serverfd main \<and> (cs = [] \<longrightarrow> deaf serverfd main') | _ \<Rightarrow> deaf serverfd main \<longrightarrow> deaf serverfd main')"
  using assms(1)
proof cases
  case (accept data main1 conns s cs s' evs outs)
  note del = deliver_oneshot [OF assms(2) accept(4)]
  then have "oneshot serverfd main' \<and> (cs = [] \<longrightarrow> main' = main1)" using accept_all_oneshot [OF accept(5)] by blast
  with del accept(1) show ?thesis by auto
next
  case read
  show ?thesis by (rule forget_main [OF branch_main(1) assms(2)], use read in simp)
next
  case work
  show ?thesis by (rule forget_main [OF branch_main(2) assms(2)], use work in simp)
next
  case answer
  show ?thesis by (rule forget_main [OF branch_main(3) assms(2)], use answer in simp)
qed (use assms(2) in \<open>auto simp: deaf_def oneshot_def split: if_splits\<close>)

lemma main_run:
  assumes "net_run en cf serverfd ls (conf, k, io, main)"
  shows "oneshot serverfd main \<and>
    (\<forall>xs ys. ls = xs @ Accepted [] # ys \<longrightarrow> deaf serverfd main \<and> (\<forall>cs. Accepted cs \<notin> set ys))"
  using assms
proof (induction ls "(conf, k, io, main)" arbitrary: conf k io main)
  case (start s run k busfd n t)
  then show ?case
    by (auto simp: oneshot_def main_start_epoll_def epoll_add_def epoll_ctl_def event_masks or.assoc split: if_splits)
next
  case (step ls n l)
  obtain conf0 k0 io0 main0 where n: "n = (conf0, k0, io0, main0)" by (cases n)
  note IH = step.hyps(2) [OF n]
  note st = net_step_main [OF step.hyps(3) [unfolded n] IH [THEN conjunct1]]
  have "deaf serverfd main \<and> (\<forall>cs. Accepted cs \<notin> set ys)" if split: "ls @ [l] = xs @ Accepted [] # ys" for xs ys
  proof (cases ys rule: rev_cases)
    case Nil
    then have "l = Accepted []" using split by simp
    then show ?thesis using st Nil by simp
  next
    case (snoc ys' y)
    then have "ls = xs @ Accepted [] # ys'" "l = y" using split by simp_all
    with IH have "deaf serverfd main0" "\<forall>cs. Accepted cs \<notin> set ys'" by blast+
    then show ?thesis using st snoc \<open>l = y\<close> by (auto split: net_label.splits)
  qed
  then show ?case using st by blast
qed

subsection \<open>A request and its reply\<close>

lemma closed_nothing [simp]:
  "tr_closed s' = tr_closed s \<Longrightarrow> closed_since s s' = []" "close_socks [] k = k" "epoll_forget [] ep = ep"
  by (simp_all add: closed_since_def close_socks_def epoll_forget_def)

lemma worker_put_closed:
  "worker_event en c (ReqPut hdr ttl kl key val) s = Inr (reply, s') \<Longrightarrow> hdr_opcode hdr = 1 \<Longrightarrow> tr_closed s' = tr_closed s"
  by (auto simp: dispatch put_handler_def ack_reply_def split: if_splits)

lemma remove1_snoc: "x \<notin> set xs \<Longrightarrow> remove1 x (xs @ [x]) = xs"
  by (induction xs) auto

text \<open>One turn of a client, if nothing is closed on the way: the registration is the same afterwards.\<close>

lemma request_turn:
  assumes run: "net_run en cf serverfd ls ((s, evs, outs), k, io, main)"
    and reg: "io fd = Some \<lparr> rg_events = 0xC0000001, rg_data = DataPtr (ClientPtr c), rg_armed = True \<rparr>"
    and rd: "io_read en' c buf sk s = Inr (Some pkt, buf', sk', s1)" "tr_closed s1 = tr_closed s"
    and wk: "worker_event en' c pkt s1 = Inr (Some [0, 1, 0], s2)" "tr_closed s2 = tr_closed s1" "fresh en' s1"
  shows "\<exists>s3. net_run en cf serverfd (ls @ [Requested c, Worked c, Written c]) ((s3, evs, outs), k, io, main) \<and>
    io_write c (Some [0, 1, 0]) [Wrote 3] s2 = Inr ([0, 1, 0], s3)"
proof -
  from net_run_good [OF run] have inv: "net_inv ((s, evs, outs), k, io, main)" "conf_inv (en_db en) (s, evs, outs)"
    using reachable_inv by auto
  have c: "owns_fd s c fd" "c \<notin> busy (s, evs, outs)"
    using inv(1) reg by (auto simp: net_inv_def regs_ok_def reg_ok_def dest!: spec [of _ fd])
  let ?io1 = "io(fd \<mapsto> \<lparr> rg_events = 0xC0000001, rg_data = DataPtr (ClientPtr c), rg_armed = False \<rparr>)"
  let ?io2 = "io(fd \<mapsto> \<lparr> rg_events = 0xC0000004, rg_data = DataPtr (EventPtr c (Some [0, 1, 0])), rg_armed = True \<rparr>)"
  let ?io3 = "io(fd \<mapsto> \<lparr> rg_events = 0xC0000004, rg_data = DataPtr (EventPtr c (Some [0, 1, 0])), rg_armed = False \<rparr>)"
  have d1: "epoll_deliver io fd EPOLLIN = Some (DataPtr (ClientPtr c), ?io1)"
    "epoll_deliver ?io2 fd EPOLLOUT = Some (DataPtr (EventPtr c (Some [0, 1, 0])), ?io3)"
    using reg by (simp_all add: epoll_deliver_def event_masks)
  have "net_read en' buf sk (DataPtr (ClientPtr c)) ((s, evs, outs), k, ?io1, main) =
      Inr (Requested c, (s1, evs @ [(c, pkt)], outs), k, ?io1, main)"
    using rd by (simp add: net_read_def as_client_def Let_def)
  note r1 = net_run.step [OF run net_step.read [OF d1(1) this]]
  have own1: "owns_fd s1 c fd" using c(1) io_read_same_fds [OF rd(1)] by (auto simp: same_fds_def)
  have "srv_inv (en_db en) s1" "tr_client_heap s1 c \<noteq> None" "wire_request pkt"
    using io_read_keeps [OF _ rd(1)] inv(2) own1 by (auto simp: conf_inv_def owns_fd_def)
  from worker_keeps [OF this wk(3,1)] have h2: "tr_client_heap s2 = tr_client_heap s1" by (simp add: keeps_def)
  from own1 h2 obtain cl where cl: "tr_client_heap s2 c = Some cl" "c_fd cl = fd" by (auto simp: owns_fd_def)
  have nin: "(c, pkt) \<notin> set evs" "(c, Some [0, 1, 0]) \<notin> set outs" using c(2) by (force simp: busy_def image_iff)+
  have "net_work en' c pkt ((s1, evs @ [(c, pkt)], outs), k, ?io1, main) =
      Inr (Worked c, (s2, evs, outs @ [(c, Some [0, 1, 0])]), k, ?io2, main)"
    using wk cl nin(1) by (simp add: net_work_def Let_def obj_read_Some epoll_mod_eq remove1_snoc)
  note r2 = net_run.step [OF r1 net_step.work [OF _ wk(3) this]]
  obtain s3 where s3: "io_write c (Some [0, 1, 0]) [Wrote 3] s2 = Inr ([0, 1, 0], s3)" "tr_closed s3 = tr_closed s2"
    "tr_client_heap s3 = tr_client_heap s2"
    using cl(1) by (auto simp: io_write_def obj_read_Some send_bytes_def Let_def)
  have "net_write [Wrote 3] (DataPtr (EventPtr c (Some [0, 1, 0]))) ((s2, evs, outs @ [(c, Some [0, 1, 0])]), k, ?io3, main) =
      Inr (Written c, (s3, evs, outs), k, io, main)"
    using s3 cl nin(2) reg by (simp add: net_write_def as_event_def Let_def obj_read_Some epoll_mod_eq remove1_snoc fun_upd_idem)
  note r3 = net_run.step [OF r2 net_step.answer [OF d1(2) this]]
  then show ?thesis using s3(1) by auto
qed

subsection \<open>A run\<close>

definition demo_conn :: "accepted \<times> env \<times> addr \<times> cstring" where
  "demo_conn = (\<lparr> ac_fd = 9, ac_getfl = True, ac_setfl = True, ac_nodelay = True, ac_ntop = True \<rparr>, demo_env 0 0, 7, lit ''u'')"

lemma demo_net:
  "\<exists>s k io main. net_run (demo_env 0 0) demo_config 3 [Accepted [7]] ((s, [], []), k, io, main) \<and>
     io 9 = Some \<lparr> rg_events = 0xC0000001, rg_data = DataPtr (ClientPtr 7), rg_armed = True \<rparr> \<and>
     (\<exists>r. main 3 = Some r \<and> rg_events r = 0xC0000001 \<and> rg_armed r) \<and>
     tr_client_heap s 7 \<noteq> None \<and> tr_conf s = demo_config \<and> fresh (demo_env 3 5) s \<and> map_of_server 0 s = Map.empty"
proof -
  obtain s0 s where s0: "start_state (demo_env 0 0) demo_config = Inr s0" "tr_client_heap s0 = Map.empty" "tr_conf s0 = demo_config"
    and s: "accept_client (demo_env 0 0) 7 9 (lit ''u'') s0 = Inr s" "tr_client_heap s 7 \<noteq> None"
    "tr_items s = Map.empty" "tr_eks s = Map.empty" "tr_conf s = demo_config"
    "tr_db_heap s = [0 \<mapsto> database_init (lit ''db0'') (Some trie_node_destructor)]" using demo_accept by blast
  let ?k = "[3 \<mapsto> new_sock, 4 \<mapsto> new_sock] :: socks"
  have "s0 = s0\<lparr> tr_info := (tr_info s0)\<lparr> nnodes := nnodes (tr_info s0), start_time := start_time (tr_info s0) \<rparr> \<rparr>" by simp
  with net_run.start [OF s0(1), of 4 3 ?k None "start_time (tr_info s0)" "nnodes (tr_info s0)"]
  have run: "net_run (demo_env 0 0) demo_config 3 [] ((s0, [], []), ?k, bus_start None (io_start 4), main_start_epoll 4 3)" by simp
  let ?r = "\<lambda>b. \<lparr> rg_events = 0xC0000001, rg_data = DataFd 3, rg_armed = b \<rparr> :: unit registration"
  let ?main = "(main_start_epoll 4 3)(3 \<mapsto> ?r False)"
  have del: "epoll_deliver (main_start_epoll 4 3) 3 EPOLLIN = Some (DataFd 3, ?main)"
    by (simp add: epoll_deliver_def main_start_epoll_def epoll_add_def epoll_ctl_def event_masks or.assoc)
  let ?io = "snd (epoll_add (bus_start None (io_start 4)) 9 (EPOLLIN OR EPOLLONESHOT) (Some (ClientPtr 7)))"
  obtain k1 where k1: "accept_connection demo_config (fst demo_conn) ?k = (9, k1)"
    using accept_connection_correct [of ?k "fst demo_conn" demo_config] by (auto simp: demo_conn_def)
  have acc: "accept_all 3 [demo_conn] (?k, s0, bus_start None (io_start 4), ?main) =
      Inr ([7], k1, s, ?io, snd (epoll_mod ?main 3 EPOLLIN None))"
    using k1 s(1) s0(3) by (simp add: demo_conn_def)
  have st: "net_step 3 (Accepted [7]) ((s0, [], []), ?k, bus_start None (io_start 4), main_start_epoll 4 3)
      ((s, [], []), k1, ?io, snd (epoll_mod ?main 3 EPOLLIN None))"
    by (rule net_step.accept [OF del acc]) (use s0(2) in \<open>auto simp: demo_conn_def\<close>)
  have io: "bus_start None (io_start 4) 9 = None" by (simp add: io_start_def bus_start_def epoll_add_def epoll_ctl_def)
  have "snd (epoll_mod ?main 3 EPOLLIN None) 3 = Some (?r True)" by (simp add: epoll_mod_def epoll_ctl_def event_masks)
  moreover have "map_of_server 0 s = Map.empty" using s(6) db_entry_empty by (simp add: map_of_server_def)
  moreover have "fresh (demo_env 3 5) s" using s(3,4,6) by (simp add: fresh_def demo_env_def)
  moreover have "?io 9 = Some \<lparr> rg_events = 0xC0000001, rg_data = DataPtr (ClientPtr 7), rg_armed = True \<rparr>"
    using epoll_add_eq [of "bus_start None (io_start 4)" 9 "ClientPtr 7"] io by simp
  ultimately show ?thesis using net_run.step [OF run st] s(2,5) by fastforce
qed

text \<open>Sixteen bits of header and nothing valid: opcode 14, which \<^verbatim>\<open>recv_packet\<close> rejects.\<close>

lemma demo_malformed:
  assumes "net_run en cf serverfd ls ((s, evs, outs), k, io, main)" and "tr_client_heap s c \<noteq> None"
    and "io fd = Some \<lparr> rg_events = 0xC0000001, rg_data = DataPtr (ClientPtr c), rg_armed = True \<rparr>"
  shows "\<exists>n. net_run en cf serverfd (ls @ [Malformed c]) n"
proof -
  obtain cl where cl: "tr_client_heap s c = Some cl" using assms(2) by blast
  have pkt: "recv_packet m [0, 0, 0, 0] [IoBytes [0xe0, 0]] =
      Inr \<lparr> rc_nbytes = - 2, rc_header = 0xe0, rc_offset = 0, rc_buffer = [0xe0, 0, 0, 0], rc_socket = [], rc_close = False \<rparr>" for m
  proof -
    have r: "recv_bytes 4 [IoBytes [0xe0, 0]] = (2, [0xe0, 0], [])" "buf_write [0, 0, 0, 0] 0 [0xe0, 0] = Inr [0xe0, 0, 0, 0]"
      "\<not> hdr_opcode 0xe0 \<le> 13" by code_simp+
    then show ?thesis by (simp add: recv_packet_def ERRPACKETERR_def)
  qed
  obtain s' where "io_read (demo_env 0 0) c [0, 0, 0, 0] [IoBytes [0xe0, 0]] s = Inr (None, [0xe0, 0, 0, 0], [], s')"
    using cl pkt by (auto simp: io_read_eq read_data_def ERRCLIENTDC_def ERRPACKETERR_def ERRMAXREQSIZE_def)
  then obtain n where "net_read (demo_env 0 0) [0, 0, 0, 0] [IoBytes [0xe0, 0]] (DataPtr (ClientPtr c))
      ((s, evs, outs), k, io(fd \<mapsto> \<lparr> rg_events = 0xC0000001, rg_data = DataPtr (ClientPtr c), rg_armed = False \<rparr>), main) = Inr (Malformed c, n)"
    by (auto simp: net_read_def as_client_def Let_def)
  moreover have "epoll_deliver io fd EPOLLIN = Some (DataPtr (ClientPtr c),
      io(fd \<mapsto> \<lparr> rg_events = 0xC0000001, rg_data = DataPtr (ClientPtr c), rg_armed = False \<rparr>))"
    using assms(3) by (simp add: epoll_deliver_def event_masks)
  ultimately show ?thesis using net_run.step [OF assms(1) net_step.read] by blast
qed

subsection \<open>Properties\<close>

text \<open>
  C2. The events of each client come in order, whatever the threads and the kernel do: it is accepted once,
  and then a request is read, executed and answered, and only after the reply has been written the next
  one is read. So a client has at most one request or reply under way, and the phase its events lead to
  is the one the server shows: the request waits for a worker, or the reply waits to be written.
\<close>

theorem client_events_in_order:
  assumes "net_run en cf serverfd ls ((s, evs, outs), k, io, main)"
  shows "distinct (map fst evs @ map fst outs) \<and>
    (\<forall>c. \<exists>ph. run_phase c ls = Some ph \<and> (ph = Unknown \<longleftrightarrow> tr_client_heap s c = None) \<and>
       (ph = Pending \<longleftrightarrow> c \<in> fst ` set evs) \<and> (ph = Answering \<longleftrightarrow> c \<in> fst ` set outs))"
proof (intro conjI allI)
  show "distinct (map fst evs @ map fst outs)" using net_run_good [OF assms] by (simp add: net_inv_def)
  fix c
  obtain ph where "run_phase c ls = Some ph" "in_phase ph c ((s, evs, outs), k, io, main)"
    using net_run_good [OF assms] by blast
  then show "\<exists>ph. run_phase c ls = Some ph \<and> (ph = Unknown \<longleftrightarrow> tr_client_heap s c = None) \<and>
      (ph = Pending \<longleftrightarrow> c \<in> fst ` set evs) \<and> (ph = Answering \<longleftrightarrow> c \<in> fst ` set outs)"
    by (intro exI [of _ ph]) (simp add: in_phase_def)
qed

theorem client_events_in_order_witness:
  "\<exists>s k io main. net_run (demo_env 0 0) demo_config 3 [Accepted [7]] ((s, [], []), k, io, main) \<and>
     run_phase 7 [Accepted [7]] = Some Idle \<and> tr_client_heap s 7 \<noteq> None"
proof -
  obtain s k io main where n: "net_run (demo_env 0 0) demo_config 3 [Accepted [7]] ((s, [], []), k, io, main)"
    using demo_net by blast
  have idle: "run_phase 7 [Accepted [7]] = Some Idle" by (simp add: run_phase_def next_phase_def)
  from client_events_in_order [OF n, THEN conjunct2, THEN spec, of 7] idle have "tr_client_heap s 7 \<noteq> None" by simp
  with n idle show ?thesis by (intro exI conjI)
qed

text \<open>
  C9. The union in an event is never read the wrong way: a delivered event for reading carries a client that is
  still there, whose recorded descriptor is that of the event and which has nothing under way; one for writing carries a
  reply that waits and has been set, for a client whose recorded descriptor is that of the event.
\<close>

theorem epoll_pointers_sound:
  assumes "net_run en cf serverfd ls ((s, evs, outs), k, io, main)"
  shows "(epoll_deliver io fd EPOLLIN = Some (DataPtr p, io') \<longrightarrow>
      (\<exists>c cl. p = ClientPtr c \<and> tr_client_heap s c = Some cl \<and> c_fd cl = fd \<and> c \<notin> fst ` set evs \<union> fst ` set outs)) \<and>
    (epoll_deliver io fd EPOLLOUT = Some (DataPtr p, io') \<longrightarrow>
      (\<exists>c cl reply. p = EventPtr c (Some reply) \<and> tr_client_heap s c = Some cl \<and> c_fd cl = fd \<and> (c, Some reply) \<in> set outs))"
proof -
  from net_run_good [OF assms] have regs: "regs_ok (s, evs, outs) k io" and ci: "conf_inv (en_db en) (s, evs, outs)"
    using reachable_inv by (auto simp: net_inv_def)
  have "\<exists>c cl reply. p = EventPtr c (Some reply) \<and> tr_client_heap s c = Some cl \<and> c_fd cl = fd \<and> (c, Some reply) \<in> set outs"
    if "epoll_deliver io fd EPOLLOUT = Some (DataPtr p, io')"
    using deliver_out [OF regs that] ci by (auto simp: owns_fd_def conf_inv_def)
  moreover have "\<exists>c cl. p = ClientPtr c \<and> tr_client_heap s c = Some cl \<and> c_fd cl = fd \<and> c \<notin> fst ` set evs \<union> fst ` set outs"
    if "epoll_deliver io fd EPOLLIN = Some (DataPtr p, io')"
    using deliver_in [OF regs that] by (auto simp: owns_fd_def busy_def)
  ultimately show ?thesis by blast
qed

theorem epoll_pointers_sound_witness:
  "\<exists>s k io main io' cl. net_run (demo_env 0 0) demo_config 3 [Accepted [7]] ((s, [], []), k, io, main) \<and>
     epoll_deliver io 9 EPOLLIN = Some (DataPtr (ClientPtr 7), io') \<and> tr_client_heap s 7 = Some cl \<and> c_fd cl = 9"
proof -
  obtain s k io main where n: "net_run (demo_env 0 0) demo_config 3 [Accepted [7]] ((s, [], []), k, io, main)"
    "io 9 = Some \<lparr> rg_events = 0xC0000001, rg_data = DataPtr (ClientPtr 7), rg_armed = True \<rparr>" using demo_net by blast
  then obtain io' where io': "epoll_deliver io 9 EPOLLIN = Some (DataPtr (ClientPtr 7), io')" by (simp add: epoll_deliver_def event_masks)
  with epoll_pointers_sound [OF n(1), of 9 "ClientPtr 7" io'] n(1) show ?thesis by blast
qed

text \<open>
  C21. A packet with an unknown opcode silences its client for good: in every run there is no event of the
  client after it, nothing of it is under way and no armed registration leads to it. The descriptor is
  not watched for reading again, although the comment in \<^verbatim>\<open>read_data\<close> says so.
\<close>

theorem malformed_stalls_client:
  assumes "net_run en cf serverfd (ls @ Malformed c # ls') ((s, evs, outs), k, io, main)"
  shows "(\<forall>l \<in> set ls'. c \<notin> client_of l) \<and> c \<notin> fst ` set evs \<union> fst ` set outs \<and> unwatched io c"
proof -
  from net_run_good [OF assms] obtain ph where ph: "run_phase c (ls @ Malformed c # ls') = Some ph"
    "in_phase ph c ((s, evs, outs), k, io, main)" by blast
  with stalled_forever [OF ph(1)] show ?thesis by (auto simp: in_phase_def)
qed

theorem malformed_stalls_client_witness:
  "\<exists>s evs outs k io main. net_run (demo_env 0 0) demo_config 3 [Accepted [7], Malformed 7] ((s, evs, outs), k, io, main) \<and> unwatched io 7"
proof -
  obtain s k io main where n: "net_run (demo_env 0 0) demo_config 3 [Accepted [7]] ((s, [], []), k, io, main)" "tr_client_heap s 7 \<noteq> None"
    "io 9 = Some \<lparr> rg_events = 0xC0000001, rg_data = DataPtr (ClientPtr 7), rg_armed = True \<rparr>" using demo_net by blast
  obtain n' where "net_run (demo_env 0 0) demo_config 3 ([Accepted [7]] @ [Malformed 7]) n'"
    using demo_malformed [OF n] by blast
  moreover obtain s' evs' outs' k' io' main' where "n' = ((s', evs', outs'), k', io', main')" by (cases n') auto
  ultimately have run: "net_run (demo_env 0 0) demo_config 3 ([Accepted [7]] @ Malformed 7 # []) ((s', evs', outs'), k', io', main')" by simp
  from malformed_stalls_client [OF run] have "unwatched io' 7" by blast
  with run show ?thesis unfolding append.simps by blast
qed

text \<open>
  C22. The server can go deaf: if the first \<^verbatim>\<open>accept\<close> after an event of the listening socket fails, because the
  peer has gone or the process is out of descriptors, the one-shot registration is not armed again and no
  connection is accepted any more.
\<close>

theorem failed_accept_deafens:
  assumes "net_run en cf serverfd (ls @ Accepted [] # ls') (conf, k, io, main)"
  shows "deaf serverfd main \<and> (\<forall>cs. Accepted cs \<notin> set ls')"
  using main_run [OF assms] by blast

theorem failed_accept_deafens_witness:
  "\<exists>conf k io main. net_run (demo_env 0 0) demo_config 3 [Accepted [7], Accepted []] (conf, k, io, main) \<and> deaf 3 main"
proof -
  obtain s k io main r where n: "net_run (demo_env 0 0) demo_config 3 [Accepted [7]] ((s, [], []), k, io, main)"
    "main 3 = Some r" "rg_events r = 0xC0000001" "rg_armed r" using demo_net by blast
  then have "epoll_deliver main 3 EPOLLIN = Some (rg_data r, main(3 \<mapsto> r\<lparr> rg_armed := False \<rparr>))"
    by (simp add: epoll_deliver_def event_masks)
  from net_run.step [OF n(1) net_step.accept [OF this, of "[]" k s io "[]" k s io]]
  have "net_run (demo_env 0 0) demo_config 3 ([Accepted [7]] @ Accepted [] # []) ((s, [], []), k, io, main(3 \<mapsto> r\<lparr> rg_armed := False \<rparr>))"
    by simp
  with failed_accept_deafens [OF this] show ?thesis by (auto simp del: split_paired_Ex)
qed

text \<open>
  C5. A connection survives its requests: a client that is watched for reading and sends a PUT of less than 128 bytes
  gets the three bytes of the acknowledgement, the entry is stored, and afterwards the same registration is
  armed for the next request, with nothing under way and all other registrations untouched.
\<close>

theorem put_rearms_connection:
  assumes "net_run en cf serverfd ls ((s, evs, outs), k, io, main)"
    and "io fd = Some \<lparr> rg_events = 0xC0000001, rg_data = DataPtr (ClientPtr c), rg_armed = True \<rparr>"
    and "fresh en' s" and "quiet sk" and "pending sk = hdr # of_nat (length payload) # payload"
    and "payload = packi32 (word_of_int ttl) @ packi16 (of_nat (length key)) @ key @ val"
    and "length payload < 128" and "of_nat (length payload) \<le> cf_max_request_size (tr_conf s)"
    and "length payload + 3 \<le> length (buf :: bytes)" and "hdr_opcode hdr = 1" and "\<not> hdr_prefix hdr"
    and "0 \<notin> set key" and "0 \<notin> set val" and "- (2 ^ 31) \<le> ttl" and "ttl < 2 ^ 31"
  shows "\<exists>s2 s3. net_run en cf serverfd (ls @ [Requested c, Worked c, Written c]) ((s3, evs, outs), k, io, main) \<and>
    io_write c (Some [0, 1, 0]) [Wrote 3] s2 = Inr ([0, 1, 0], s3) \<and>
    map_of_server (en_db en) s2 = (map_of_server (en_db en) s)(key \<mapsto> (Some val, c_short ttl, en_time en'))"
proof -
  have re: "reachable en cf (s, evs, outs)" and "net_inv ((s, evs, outs), k, io, main)" using net_run_good [OF assms(1)] by auto
  then have "tr_client_heap s c \<noteq> None" using assms(2)
    by (auto simp: net_inv_def regs_ok_def reg_ok_def owns_fd_def dest!: spec [of _ fd])
  from put_path [OF re this assms(3-15)] obtain buf' sk' s1 s2 where p:
    "io_read en' c buf sk s = Inr (Some (ReqPut hdr ttl (of_nat (length key)) key val), buf', sk', s1)" "tr_closed s1 = tr_closed s"
    "worker_event en' c (ReqPut hdr ttl (of_nat (length key)) key val) s1 = Inr (Some [0, 1, 0], s2)" "fresh en' s1"
    "map_of_server (en_db en) s2 = (map_of_server (en_db en) s)(key \<mapsto> (Some val, c_short ttl, en_time en'))" by blast
  from request_turn [OF assms(1,2) p(1-3) worker_put_closed [OF p(3) assms(10)] p(4)] p(5) show ?thesis by blast
qed

theorem put_rearms_connection_witness:
  "\<exists>s3 k io main. net_run (demo_env 0 0) demo_config 3 [Accepted [7], Requested 7, Worked 7, Written 7] ((s3, [], []), k, io, main) \<and>
     io 9 = Some \<lparr> rg_events = 0xC0000001, rg_data = DataPtr (ClientPtr 7), rg_armed = True \<rparr>"
proof -
  obtain s k io main where n: "net_run (demo_env 0 0) demo_config 3 [Accepted [7]] ((s, [], []), k, io, main)"
    "io 9 = Some \<lparr> rg_events = 0xC0000001, rg_data = DataPtr (ClientPtr 7), rg_armed = True \<rparr>" "fresh (demo_env 3 5) s"
    "tr_conf s = demo_config" using demo_net by blast
  let ?p = "[255, 255, 255, 255, 0, 1, 97, 49] :: bytes"
  have h: "hdr_opcode 0x10 = 1" "\<not> hdr_prefix 0x10" "packi32 (word_of_int (- 1)) = [255, 255, 255, 255]" "packi16 1 = [0, 1]"
    "(8 :: u64) \<le> 1024" by code_simp+
  from put_rearms_connection [OF n(1-3), of "[IoBytes [0x10], IoBytes (8 # ?p)]" "0x10" ?p "- 1" "[97]" "[49]" "replicate 64 0"] h n(2,4)
  show ?thesis by (auto simp: demo_config_def)
qed

end
