(* ===== verification/Tdb_Main.thy ===== *)
theory Tdb_Main
  imports Tdb_Loop
begin

text \<open>
  The start and the end of the program: \<^verbatim>\<open>main\<close> of \<^verbatim>\<open>src/triedb.c\<close>, from the options to the call of
  \<^verbatim>\<open>start_server\<close>, and of \<^verbatim>\<open>start_server\<close> in \<^verbatim>\<open>src/server.c\<close> what comes before the threads run (the
  state, the bus of a cluster and the seed node) and after they have ended (the release of all
  resources). What \<^verbatim>\<open>getopt\<close> returns, the content of the configuration file, descriptors and the
  addresses of new objects are arguments.
\<close>

subsection \<open>The command line\<close>

text \<open>
  \<^verbatim>\<open>atoi\<close>: white space, a sign, digits up to the first other byte. A value that does not fit is
  undefined.
\<close>

definition atoi :: "cstring \<Rightarrow> int cres" where
  "atoi str =
     (let s = dropWhile isspace str;
          neg = (s \<noteq> [] \<and> hd s = 45);
          ds = takeWhile isdigit (if s \<noteq> [] \<and> (hd s = 45 \<or> hd s = 43) then tl s else s);
          v = foldl (\<lambda>n d. 10 * n + (uint d - 48)) 0 ds
      in c_int (if neg then - v else v))"

text \<open>One return of \<^verbatim>\<open>getopt(argc, argv, "a:c:p:m:vn:")\<close>; \<open>OptOther\<close> is \<^verbatim>\<open>-n\<close> or an error.\<close>

datatype cli_option = OptA cstring | OptC cstring | OptP cstring | OptM cstring | OptV | OptOther

record cli =
  cli_addr :: cstring
  cli_confpath :: cstring
  cli_debug :: bool
  cli_conf :: config

text \<open>
  The loop over the options. \<open>None\<close> is the exit with the usage text. In the \<^verbatim>\<open>-m\<close> case
  \<^verbatim>\<open>STREQ(..) ? CLUSTER : STANDALONE\<close> expands to \<^verbatim>\<open>c ? true : (false ? CLUSTER : STANDALONE)\<close>, and \<^verbatim>\<open>true\<close> is
  \<^verbatim>\<open>CLUSTER\<close>.
\<close>

fun parse_options :: "cli_option list \<Rightarrow> cli \<Rightarrow> cli option cres" where
  "parse_options [] cl = Inr (Some cl)"
| "parse_options (OptA arg # opts) cl =
     bindE (strcpy255 arg) (\<lambda>host.
       parse_options opts (cl\<lparr> cli_addr := arg, cli_conf := (cli_conf cl)\<lparr> cf_hostname := host \<rparr> \<rparr>))"
| "parse_options (OptC arg # opts) cl = parse_options opts (cl\<lparr> cli_confpath := arg \<rparr>)"
| "parse_options (OptP arg # opts) cl =
     bindE (strcpy255 arg) (\<lambda>port. parse_options opts (cl\<lparr> cli_conf := (cli_conf cl)\<lparr> cf_port := port \<rparr> \<rparr>))"
| "parse_options (OptM arg # opts) cl =
     parse_options opts (cl\<lparr> cli_conf := (cli_conf cl)\<lparr> cf_mode :=
       (if STREQ arg (lit ''CLUSTER'') 7 then CLUSTER else STANDALONE) \<rparr> \<rparr>)"
| "parse_options (OptV # opts) cl = parse_options opts (cl\<lparr> cli_debug := True \<rparr>)"
| "parse_options (OptOther # opts) cl = Inr None"

record seednode =
  sn_connect :: bool
  sn_addr :: cstring
  sn_port :: cstring
  sn_fulladdr :: cstring

text \<open>
  The operands behind the options: \<^verbatim>\<open>join host port\<close>. The test \<^verbatim>\<open>STREQ(argv[optind], "join", 4) == 0\<close>
  expands to \<^verbatim>\<open>c ? true : (false == 0)\<close> and holds for every operand. \<^verbatim>\<open>argv[argc]\<close> is NULL and what
  follows it is not part of the array.
\<close>

definition seed_of_operands :: "cstring \<Rightarrow> cstring list \<Rightarrow> seednode cres" where
  "seed_of_operands addr operands =
     bindE (str_fits 22 addr) (\<lambda>fulladdr.
     bindE (str_fits 17 addr) (\<lambda>saddr.
       let seed = \<lparr> sn_connect = False, sn_addr = saddr, sn_port = [], sn_fulladdr = [] \<rparr> in
       case operands of
         [] \<Rightarrow> Inr seed
       | [cmd] \<Rightarrow> Inl OutOfBounds
       | [cmd, target] \<Rightarrow> Inl NullDeref
       | cmd # target # port # rest \<Rightarrow>
           if (if STREQ cmd (lit ''join'') 4 then True else False = False) then
             bindE (atoi port) (\<lambda>p.
             bindE (c_int (p + 10000)) (\<lambda>tport.
             bindE (str_fits 6 port) (\<lambda>sport.
             bindE (str_fits 22 (fulladdr @ port)) (\<lambda>full.
               Inr (seed\<lparr> sn_connect := True, sn_port := sport, sn_fulladdr := full \<rparr>)))))
           else Inr seed))"

text \<open>
  \<^verbatim>\<open>main\<close> up to the call of \<^verbatim>\<open>start_server\<close>: the configuration and the seed node, or \<open>None\<close> for the usage
  text. \<open>files\<close> has the content of a configuration file, if it can be opened.
\<close>

definition main_config :: "int \<Rightarrow> byte \<Rightarrow> (cstring \<Rightarrow> bytes option) \<Rightarrow> cli_option list \<Rightarrow> cstring list \<Rightarrow>
    (config \<times> seednode) option cres" where
  "main_config SOMAXCONN efd files opts operands =
     bindE (config_set_default SOMAXCONN efd) (\<lambda>conf.
     bindE (parse_options opts \<lparr> cli_addr = lit ''127.0.0.1'', cli_confpath = lit ''/etc/triedb/triedb.conf'',
                                cli_debug = False, cli_conf = conf \<rparr>) (\<lambda>parsed.
       case parsed of
         None \<Rightarrow> Inr None
       | Some cl \<Rightarrow>
           bindE (config_load SOMAXCONN (files (cli_confpath cl))
                    ((cli_conf cl)\<lparr> cf_loglevel := (if cli_debug cl then DEBUG else WARNING) \<rparr>)) (\<lambda>(loaded, conf').
           bindE (seed_of_operands (cli_addr cl) operands) (\<lambda>seed. Inr (Some (conf', seed))))))"

subsection \<open>Starting the server\<close>

text \<open>
  What \<^verbatim>\<open>start_server\<close> obtains from the system besides the environment: the descriptors of the bus and of
  the socket to the seed node, blocks for the nodes of the ring, the time, and a bound on the sort of
  the ring.
\<close>

record boot =
  bt_busfd :: int
  bt_sockfd :: int
  bt_bus_alloc :: "(addr \<times> addr) list"
  bt_seed_alloc :: "(addr \<times> addr) list"
  bt_now :: int
  bt_fuel :: nat

text \<open>The server with its cluster.\<close>

record node =
  nd_triedb :: triedb
  nd_cluster :: cluster
  nd_ring :: ring_heap

text \<open>
  The branch for \<^verbatim>\<open>CLUSTER\<close> mode: the port of the bus is 10000 above the port of the server, printed
  into an array of 6 bytes.
\<close>

definition bus_port :: "cstring \<Rightarrow> cstring cres" where
  "bus_port port =
     bindE (atoi port) (\<lambda>p.
     bindE (c_int (p + 10000)) (\<lambda>busport.
       str_fits 6 (snprintf_d (number_len (of_int busport)) busport [])))"

definition join_bus :: "boot \<Rightarrow> cstring \<Rightarrow> cstring \<Rightarrow> node \<Rightarrow> node cres" where
  "join_bus bt addr port n =
     (if cf_mode (tr_conf (nd_triedb n)) = CLUSTER then
        bindE (bus_port port) (\<lambda>bport.
        bindE (cluster_add_new_node (bt_fuel bt) (nd_cluster n) (bt_busfd bt) addr bport True (bt_bus_alloc bt)
                 (nd_ring n)) (\<lambda>(cluster', ring, rc).
          let s = nd_triedb n; infos = tr_info s in
          Inr (n\<lparr> nd_triedb := s\<lparr> tr_info := infos\<lparr> nnodes := nnodes infos + 1 \<rparr> \<rparr>,
                  nd_cluster := cluster', nd_ring := ring \<rparr>)))
      else Inr n)"

text \<open>
  The branch for a seed node: a JOIN message of 3 bytes is sent and the node is put on the ring. The
  result has the bytes sent.
\<close>

definition join_seed :: "boot \<Rightarrow> seednode \<Rightarrow> node \<Rightarrow> (bytes \<times> node) cres" where
  "join_seed bt seed n =
     (if sn_connect seed then
        bindE (atoi (sn_port seed)) (\<lambda>p.
        bindE (c_int (p + 10000)) (\<lambda>tport.
        bindE (pack_ack 0xF0 0) (\<lambda>payload.
        bindE (cluster_add_new_node (bt_fuel bt) (nd_cluster n) (bt_sockfd bt) (sn_addr seed) (sn_port seed) False
                 (bt_seed_alloc bt) (nd_ring n)) (\<lambda>(cluster', ring, rc).
          Inr (payload, n\<lparr> nd_cluster := cluster', nd_ring := ring \<rparr>)))))
      else Inr ([], n))"

definition start_server :: "env \<Rightarrow> boot \<Rightarrow> config \<Rightarrow> cstring \<Rightarrow> cstring \<Rightarrow> seednode \<Rightarrow> (bytes \<times> node) cres" where
  "start_server en bt conf addr port seed =
     bindE (start_state en conf) (\<lambda>s.
     bindE (join_bus bt addr port
              \<lparr> nd_triedb = s, nd_cluster = \<lparr> cl_size = 0, cl_replicas = 4, cl_nodes = list_new None \<rparr>,
                nd_ring = (Map.empty, Map.empty) \<rparr>) (\<lambda>n.
     bindE (join_seed bt seed n) (\<lambda>(sent, n').
       let s' = nd_triedb n' in
       Inr (sent, n'\<lparr> nd_triedb := s'\<lparr> tr_info := (tr_info s')\<lparr> start_time := of_int (bt_now bt) \<rparr> \<rparr> \<rparr>))))"

text \<open>The rest of \<^verbatim>\<open>main\<close>: the server listens on the host and port of the configuration.\<close>

definition main_start :: "int \<Rightarrow> byte \<Rightarrow> (cstring \<Rightarrow> bytes option) \<Rightarrow> env \<Rightarrow> boot \<Rightarrow> cli_option list \<Rightarrow> cstring list \<Rightarrow>
    (bytes \<times> node) option cres" where
  "main_start SOMAXCONN efd files en bt opts operands =
     bindE (main_config SOMAXCONN efd files opts operands) (\<lambda>r.
       case r of
         None \<Rightarrow> Inr None
       | Some (conf, seed) \<Rightarrow>
           bindE (start_server en bt conf (cf_hostname conf) (cf_port conf) seed) (\<lambda>started. Inr (Some started)))"

subsection \<open>Shutdown\<close>

text \<open>The end of \<^verbatim>\<open>start_server\<close>, after the threads have been joined.\<close>

definition destroy_databases :: "triedb \<Rightarrow> triedb cres" where
  "destroy_databases s =
     bindE (hashtable_destroy (tr_dbs s) (tr_db_heap s, tr_items s)) (\<lambda>(dbs, items).
       Inr (s\<lparr> tr_db_heap := dbs, tr_items := items \<rparr>))"

definition destroy_clients :: "triedb \<Rightarrow> triedb cres" where
  "destroy_clients s =
     bindE (hashtable_destroy (tr_clients s) (tr_client_heap s)) (\<lambda>clients. Inr (s\<lparr> tr_client_heap := clients \<rparr>))"

definition destroy_expiring :: "triedb \<Rightarrow> triedb cres" where
  "destroy_expiring s =
     bindE (foldE (\<lambda>h item. expiring_keys_destructor item h) (tr_eks s) (vector_destroy (tr_expiring_keys s))) (\<lambda>eks.
       Inr (s\<lparr> tr_eks := eks \<rparr>))"

definition shutdown :: "node \<Rightarrow> node cres" where
  "shutdown n =
     bindE (destroy_databases (nd_triedb n)) (\<lambda>s1.
     bindE (destroy_clients s1) (\<lambda>s2.
     bindE (destroy_expiring s2) (\<lambda>s3.
     bindE (list_destroy (cl_nodes (nd_cluster n)) True (nd_ring n)) (\<lambda>ring.
       Inr (n\<lparr> nd_triedb := s3, nd_ring := ring \<rparr>)))))"


subsection \<open>The tables of the server\<close>

text \<open>The values an insertion leaves in a table: at most those of before and the new one.\<close>

definition entry_vals :: "'v hashtable_entry list \<Rightarrow> 'v option multiset" where
  "entry_vals es = mset (map he_val (filter he_taken es))"

lemma entry_vals_simps [simp]:
  "entry_vals [] = {#}" "entry_vals (e # es) = (if he_taken e then add_mset (he_val e) (entry_vals es) else entry_vals es)"
  "entry_vals (es @ es') = entry_vals es + entry_vals es'" "entry_vals (replicate n no_entry) = {#}"
  by (simp_all add: entry_vals_def no_entry_def)

lemma entry_vals_update:
  assumes "i < length es"
  shows "entry_vals (es[i := e]) \<subseteq># add_mset (he_val e) (entry_vals es)"
proof -
  have "entry_vals es = entry_vals (take i es) + entry_vals (es ! i # drop (Suc i) es)"
    using id_take_nth_drop [OF assms] entry_vals_simps(3) by metis
  moreover have "entry_vals (es[i := e]) = entry_vals (take i es) + entry_vals (e # drop (Suc i) es)"
    using upd_conv_take_nth_drop [OF assms] entry_vals_simps(3) by metis
  ultimately show ?thesis by (auto simp: subseteq_mset_def intro: le_SucI)
qed

lemma rehash_loop_vals:
  assumes "\<And>t k v t' st. put t k v = Inr (t', st) \<Longrightarrow>
      entry_vals (ht_entries t') \<subseteq># add_mset v (entry_vals (ht_entries t)) \<and> ht_destructor t' = ht_destructor t"
    and "rehash_loop put t es = Inr (t', st)"
  shows "entry_vals (ht_entries t') \<subseteq># entry_vals (ht_entries t) + entry_vals es \<and> ht_destructor t' = ht_destructor t"
  using assms(2)
proof (induction es arbitrary: t)
  case (Cons e es)
  show ?case
  proof (cases "he_taken e")
    case True
    with Cons.prems obtain k t1 st1 where k: "he_key e = Some k" "put t k (he_val e) = Inr (t1, st1)"
      "(if st1 \<noteq> HASHTABLE_OK then Inr (t1, st1) else rehash_loop put t1 es) = Inr (t', st)"
      by (auto split: option.splits)
    note p = assms(1) [OF k(2)]
    have "entry_vals (ht_entries t') \<subseteq># entry_vals (ht_entries t1) + entry_vals es \<and> ht_destructor t' = ht_destructor t1"
      using k(3) Cons.IH [of t1] by (auto split: if_splits)
    moreover have "entry_vals (ht_entries t1) + entry_vals es \<subseteq># entry_vals (ht_entries t) + entry_vals (e # es)"
      using p True by (auto dest: subset_mset.add_right_mono [where c = "entry_vals es"])
    ultimately show ?thesis using p by (auto intro: subset_mset.order_trans)
  qed (use Cons in simp)
qed simp

lemma hashtable_put_vals:
  "hashtable_put m f t k v = Inr (t', st) \<Longrightarrow>
     entry_vals (ht_entries t') \<subseteq># add_mset v (entry_vals (ht_entries t)) \<and> ht_destructor t' = ht_destructor t"
proof (induction f arbitrary: t k v t' st)
  case (Suc f)
  from Suc.prems obtain i where i: "hashtable_hash t k = Inr i" by auto
  show ?case
  proof (cases "i = - HASHTABLE_FULL")
    case True
    with Suc.prems i obtain t1 st1 where r: "hashtable_rehash m (hashtable_put m f) t = Inr (t1, st1)"
      "(if st1 = - HASHTABLE_ERR then Inr (t1, - HASHTABLE_ERR) else hashtable_put m f t1 k v) = Inr (t', st)" by auto
    have t1: "entry_vals (ht_entries t1) \<subseteq># entry_vals (ht_entries t) \<and> ht_destructor t1 = ht_destructor t"
      using r(1) rehash_loop_vals [OF Suc.IH] by (fastforce simp: hashtable_rehash_def split: if_splits)
    show ?thesis
    proof (cases "st1 = - HASHTABLE_ERR")
      case True
      with r(2) t1 show ?thesis by (auto intro: subset_mset.order_trans)
    next
      case False
      with r(2) Suc.IH have "entry_vals (ht_entries t') \<subseteq># add_mset v (entry_vals (ht_entries t1)) \<and> ht_destructor t' = ht_destructor t1"
        by auto
      then show ?thesis using t1 by (auto intro: subset_mset.order_trans)
    qed
  next
    case False
    then have "nat i < length (ht_entries t)"
      "t' = t\<lparr> ht_entries := (ht_entries t)[nat i := new_entry k v], ht_size := ht_size t' \<rparr>"
      using Suc.prems i by (auto simp: entry_at_def Let_def split: if_splits)
    then have "ht_entries t' = (ht_entries t)[nat i := new_entry k v]" "ht_destructor t' = ht_destructor t"
      by (metis HashTable.select_convs(4) HashTable.surjective HashTable.update_convs(2,4), metis HashTable.select_convs(3) HashTable.surjective HashTable.update_convs(2,4))
    then show ?thesis using entry_vals_update [OF \<open>nat i < length (ht_entries t)\<close>, of "new_entry k v"] by simp
  qed
qed simp

text \<open>The arrays of a table have its size, and a slot in use has a key; so a search in it cannot fail.\<close>

definition table_shape :: "('v, 'h) HashTable \<Rightarrow> bool" where
  "table_shape t \<longleftrightarrow> length (ht_entries t) = table_size t \<and> 0 < table_size t \<and>
     (\<forall>e \<in> set (ht_entries t). he_taken e \<longrightarrow> he_key e \<noteq> None)"

lemma table_shape_new: "table_shape (hashtable_new dtor)"
  by (simp add: table_shape_def hashtable_new_def INITIAL_SIZE_def no_entry_def)

lemma rehash_loop_shape:
  assumes "\<And>t k v t' st. put t k v = Inr (t', st) \<Longrightarrow> table_shape t \<Longrightarrow> table_shape t'"
    and "rehash_loop put t es = Inr (t', st)" and "table_shape t"
  shows "table_shape t'"
  using assms(2,3)
proof (induction es arbitrary: t)
  case (Cons e es)
  then show ?case by (auto split: if_splits option.splits dest: assms(1))
qed simp

lemma hashtable_put_shape: "hashtable_put m f t k v = Inr (t', st) \<Longrightarrow> table_shape t \<Longrightarrow> table_shape t'"
proof (induction f arbitrary: t k v t' st)
  case (Suc f)
  from Suc.prems obtain i where i: "hashtable_hash t k = Inr i" by auto
  show ?case
  proof (cases "i = - HASHTABLE_FULL")
    case True
    with Suc.prems i obtain t1 st1 where r: "hashtable_rehash m (hashtable_put m f) t = Inr (t1, st1)"
      "(if st1 = - HASHTABLE_ERR then Inr (t1, - HASHTABLE_ERR) else hashtable_put m f t1 k v) = Inr (t', st)" by auto
    have t0: "table_shape (Tdb_Hashtable.grown t)" using Suc.prems(2) by (simp add: table_shape_def no_entry_def)
    have "t1 = t \<or> rehash_loop (hashtable_put m f) (Tdb_Hashtable.grown t) (ht_entries t) = Inr (t1, st1)"
      using r(1) unfolding hashtable_rehash_def by (cases "2 * table_size t > m") simp_all
    then have "table_shape t1"
    proof
      assume "rehash_loop (hashtable_put m f) (Tdb_Hashtable.grown t) (ht_entries t) = Inr (t1, st1)"
      from rehash_loop_shape [OF Suc.IH this t0] show ?thesis .
    qed (use Suc.prems(2) in simp)
    then show ?thesis using r(2) Suc.IH [of t1 k v t' st] by (cases "st1 = - HASHTABLE_ERR") simp_all
  next
    case False
    then have "ht_entries t' = (ht_entries t)[nat i := new_entry k v]" "table_size t' = table_size t"
      using Suc.prems(1) i by (auto simp: entry_at_def Let_def split: if_splits)
    then show ?thesis using Suc.prems(2) set_update_subset_insert [of "ht_entries t" "nat i" "new_entry k v"]
      by (auto simp: table_shape_def)
  qed
qed simp

lemma find_probe_returns:
  "table_shape t \<Longrightarrow> cur < table_size t \<Longrightarrow>
     \<exists>r. find_probe t key cur n = Inr r \<and> (\<forall>i. r = Some i \<longrightarrow> i < length (ht_entries t) \<and> he_taken (ht_entries t ! i))"
proof (induction n arbitrary: cur)
  case (Suc n)
  let ?e = "ht_entries t ! cur"
  have cur: "cur < length (ht_entries t)" "(cur + 1) mod table_size t < table_size t" using Suc.prems by (simp_all add: table_shape_def)
  have key: "he_taken ?e \<Longrightarrow> he_key ?e \<noteq> None" using Suc.prems(1) cur(1) by (simp add: table_shape_def)
  show ?case using Suc.IH [OF Suc.prems(1) cur(2)] cur(1) key by (auto simp: entry_at_def)
qed simp

text \<open>
  The table of databases is the one with the default database; the values in the table of clients are
  live clients, none twice.
\<close>

definition tables_ok :: "addr \<Rightarrow> triedb \<Rightarrow> bool" where
  "tables_ok d s \<longleftrightarrow>
     tr_dbs s = store_entry (hashtable_new database_destructor) (hashtable_hash_int 4 (lit ''db0'')) (lit ''db0'') (Some d) \<and>
     ht_destructor (tr_clients s) = client_destructor \<and> table_shape (tr_clients s) \<and>
     (\<forall>x. count (entry_vals (ht_entries (tr_clients s))) x \<le> 1) \<and>
     (\<forall>x \<in># entry_vals (ht_entries (tr_clients s)). \<exists>a. x = Some a \<and> tr_client_heap s a \<noteq> None)"

lemma tables_same:
  assumes "tables_ok d s" and "tr_dbs s' = tr_dbs s" and "tr_clients s' = tr_clients s"
    and "dom (tr_client_heap s) \<subseteq> dom (tr_client_heap s')"
  shows "tables_ok d s'"
  using assms unfolding tables_ok_def by (simp add: dom_def) blast

lemma tables_start:
  assumes "start_state en cf = Inr s"
  shows "tables_ok (en_db en) s"
proof -
  have cl: "tr_clients s = hashtable_new client_destructor" using assms by (auto simp: start_state_def)
  from assms obtain dbs st where put: "hashtable_put (en_calloc_max en) (en_fuel en) (hashtable_new database_destructor)
      (lit ''db0'') (Some (en_db en)) = Inr (dbs, st)" "tr_dbs s = dbs" by (auto simp: start_state_def)
  then obtain f where "en_fuel en = Suc f" by (cases "en_fuel en") auto
  with put have "tr_dbs s = store_entry (hashtable_new database_destructor) (hashtable_hash_int 4 (lit ''db0''))
      (lit ''db0'') (Some (en_db en))"
    using first_put_table(1) [of "en_calloc_max en" f database_destructor "lit ''db0''" "Some (en_db en)"]
    by (simp del: hashtable_put.simps)
  then show ?thesis using table_shape_new [of client_destructor] by (simp add: tables_ok_def cl) (simp add: hashtable_new_def)
qed

lemma tables_accept:
  assumes "tables_ok d s" and "accept_client en c fd uuid s = Inr s'" and "tr_client_heap s c = None"
  shows "tables_ok d s'"
proof -
  from assms(2) obtain t st cl where t: "hashtable_put (en_calloc_max en) (en_fuel en) (tr_clients s) uuid (Some c) = Inr (t, st)"
    "tr_clients s' = t" "tr_dbs s' = tr_dbs s" "tr_client_heap s' = (tr_client_heap s)(c \<mapsto> cl)"
    by (auto simp: accept_client_def Let_def)
  let ?v = "entry_vals (ht_entries (tr_clients s))"
  note p = hashtable_put_vals [OF t(1)]
  have new: "count ?v (Some c) = 0" using assms(1,3) by (force simp: tables_ok_def simp flip: not_in_iff)
  have le: "count (entry_vals (ht_entries t)) x \<le> count (add_mset (Some c) ?v) x" for x
    using p by (auto dest!: mset_subset_eq_count [where a = x])
  have "count (entry_vals (ht_entries t)) x \<le> 1" for x
    using le [of x] new assms(1) by (cases "x = Some c") (auto simp: tables_ok_def intro: order_trans)
  moreover have "\<exists>a. x = Some a \<and> tr_client_heap s' a \<noteq> None" if "x \<in># entry_vals (ht_entries t)" for x
  proof (cases "x = Some c")
    case False
    with mset_subset_eqD [OF conjunct1 [OF p] that] have "x \<in># ?v" by simp
    with assms(1) obtain a where "x = Some a" "tr_client_heap s a \<noteq> None" by (auto simp: tables_ok_def)
    with False t(4) show ?thesis by simp
  qed (use t(4) in simp)
  moreover have "table_shape t" using hashtable_put_shape [OF t(1)] assms(1) by (simp add: tables_ok_def)
  ultimately show ?thesis using assms(1) p t(2,3) by (simp add: tables_ok_def)
qed


lemma tables_step:
  assumes "server_step conf conf'" and "conf_inv d conf" and "tables_ok d (fst conf)"
  shows "tables_ok d (fst conf')"
  using assms(1)
proof cases
  case (accept en c fd uuid s s' evs outs)
  then show ?thesis using tables_accept [OF _ accept(3,4)] assms(3) by simp
next
  case (request en c buf sk s pkt buf' sk' s' evs outs)
  then have "srv_inv d s" using assms(2) by (simp add: conf_inv_def)
  from io_read_keeps [OF this request(3)] show ?thesis using request(1,2) assms(3) tables_same [of d s s'] by simp
next
  case (malformed en c buf sk s buf' sk' s' evs outs)
  then have "srv_inv d s" using assms(2) by (simp add: conf_inv_def)
  from io_read_keeps [OF this malformed(3)] show ?thesis using malformed(1,2) assms(3) tables_same [of d s s'] by simp
next
  case (work en c pkt s reply s' evs evs' outs)
  then have "srv_inv d s" "tr_client_heap s c \<noteq> None" "wire_request pkt" using assms(2) by (auto simp: conf_inv_def)
  from worker_keeps [OF this work(4,3)] show ?thesis
    using work(1,2) assms(3) tables_same [of d s s'] by (simp add: keeps_def)
next
  case (reply c r ws s out s' evs outs outs')
  then have "srv_inv d s" using assms(2) by (simp add: conf_inv_def)
  from io_write_keeps [OF this reply(3)] show ?thesis
    using reply(1,2) assms(3) tables_same [of d s s'] by (simp add: keeps_def)
next
  case (timer now s s' evs outs)
  then have "v_size (tr_expiring_keys s) = 0" using assms(2) by (auto simp: conf_inv_def srv_inv_def)
  then show ?thesis using timer expire_idle [of s now] assms(3) by simp
next
  case (bus dgram buf s buf' s' evs outs)
  from bus(3) obtain i where "s' = s\<lparr> tr_info := i \<rparr>" by (auto simp: bus_event_def Let_def split: option.splits)
  then show ?thesis using bus(1,2) assms(3) tables_same [of d s s'] by simp
next
  case (hangup s evs outs fd)
  then show ?thesis using assms(3) tables_same [of d s "s\<lparr> tr_closed := tr_closed s @ [fd] \<rparr>"] by simp
qed

lemma reachable_tables: "reachable en cf conf \<Longrightarrow> tables_ok (en_db en) (fst conf)"
proof (induction rule: reachable.induct)
  case (start s)
  then show ?case using tables_start by simp
next
  case (started s t n)
  let ?s = "s\<lparr> tr_info := (tr_info s)\<lparr> nnodes := n, start_time := t \<rparr> \<rparr>"
  show ?case using tables_same [OF tables_start [OF started], of ?s] by simp
next
  case (step conf conf')
  then show ?case using tables_step reachable_inv by blast
qed

text \<open>In every reachable configuration the removal of a client from the table succeeds.\<close>

lemma clients_del_returns:
  assumes "tables_ok d s"
  shows "\<exists>r. hashtable_del (tr_clients s) key (tr_client_heap s) = Inr r"
proof -
  let ?t = "tr_clients s"
  have shape: "table_shape ?t" "ht_destructor ?t = client_destructor" using assms by (simp_all add: tables_ok_def)
  have "hashtable_hash_int (table_size ?t) key < table_size ?t"
    using shape(1) by (simp add: table_shape_def hashtable_hash_int_def Let_def)
  from find_probe_returns [OF shape(1) this] obtain r where r:
    "find_probe ?t key (hashtable_hash_int (table_size ?t) key) MAX_CHAIN_LENGTH = Inr r"
    "\<And>i. r = Some i \<Longrightarrow> i < length (ht_entries ?t) \<and> he_taken (ht_entries ?t ! i)" by blast
  show ?thesis
  proof (cases r)
    case None
    then show ?thesis using r(1) by (simp add: hashtable_del_def)
  next
    case (Some i)
    note i = r(2) [OF Some]
    then have "he_val (ht_entries ?t ! i) \<in># entry_vals (ht_entries ?t)" by (auto simp: entry_vals_def)
    then obtain a cl where "he_val (ht_entries ?t ! i) = Some a" "tr_client_heap s a = Some cl"
      using assms by (auto simp: tables_ok_def)
    then show ?thesis using r(1) Some i shape(2)
      by (simp add: hashtable_del_def entry_at_def client_destructor_def obj_free_Some Let_def)
  qed
qed

subsection \<open>The release of the tables\<close>

lemma first_put_destroy:
  fixes dtor :: "'v hashtable_entry \<Rightarrow> 'h \<Rightarrow> (int \<times> 'h) cres"
  shows "hashtable_destroy (store_entry (hashtable_new dtor) (hashtable_hash_int 4 k) k v) h =
    bindE (dtor (new_entry k v) h) (\<lambda>(status, h'). Inr h')"
proof -
  let ?i = "hashtable_hash_int 4 k" and ?n = "hashtable_new dtor"
  have new: "table_size ?n = 4" "ht_size ?n = 0" "ht_destructor ?n = dtor"
    "ht_entries ?n = [no_entry, no_entry, no_entry, no_entry]"
    by (simp_all add: hashtable_new_def INITIAL_SIZE_def numeral_eq_Suc)
  have free: "\<not> he_taken (no_entry :: 'v hashtable_entry)" by (simp add: no_entry_def)
  have "?i < 4" by (rule first_put_table(2))
  then consider "?i = 0" | "?i = 1" | "?i = 2" | "?i = 3" by linarith
  then show ?thesis
    by cases (cases "dtor (new_entry k v) h"; simp add: hashtable_destroy_def hashtable_map_def new free bindE_assoc split: prod.split)+
qed

lemma destroy_databases_ok:
  assumes "tables_ok d s" and "tr_db_heap s = [d \<mapsto> db]" and "db_sound db (tr_items s)"
  shows "destroy_databases s = Inr (s\<lparr> tr_db_heap := Map.empty,
    tr_items := tr_items s |` (- ran (trie_map (db_data db))) \<rparr>)"
proof -
  let ?t = "db_data db"
  note t = db_soundD(1,2) [OF assms(3)]
  from t(1) obtain root where root: "t_root ?t = Some root" "trie_node_inv root" "trie_map ?t = trie_node_search root"
    by (rule trie_invE)
  have "inj_on (trie_node_search root) (dom (trie_node_search root))" using t(2) root(3) by (simp add: trie_owns_def)
  note rel = trie_released_ok [OF root(2) this]
  have "\<forall>a \<in> set (trie_released root). tr_items s a \<noteq> None" using t(2) rel(2) root(3) by (auto simp: trie_owns_def dom_def)
  from trie_node_destroy_sound(1) [OF rel(1) this] have "trie_destroy ?t (tr_items s) = Inr (tr_items s |` (- ran (trie_map ?t)))"
    using root(1,3) rel(2) assms(3) by (simp add: trie_destroy_def db_sound_def free_all_def)
  then have del: "database_destructor (new_entry (lit ''db0'') (Some d)) (tr_db_heap s, tr_items s) =
      Inr (HASHTABLE_OK, Map.empty, tr_items s |` (- ran (trie_map ?t)))"
    using assms(2) by (simp add: database_destructor_def obj_read_def obj_free_def)
  have "tr_dbs s = store_entry (hashtable_new database_destructor) (hashtable_hash_int 4 (lit ''db0'')) (lit ''db0'') (Some d)"
    using assms(1) unfolding tables_ok_def by (rule conjunct1)
  then have "hashtable_destroy (tr_dbs s) h =
      bindE (database_destructor (new_entry (lit ''db0'') (Some d)) h) (\<lambda>(status, h'). Inr h')" for h
    by (simp only: first_put_destroy)
  with del show ?thesis by (simp add: destroy_databases_def)
qed

lemma map_loop_clients:
  assumes "\<forall>x. count (entry_vals es) x \<le> 1" and "\<forall>x \<in># entry_vals es. \<exists>a. x = Some a \<and> h a \<noteq> None"
  shows "map_loop client_destructor es h = Inr (HASHTABLE_OK, h |` (- {a. Some a \<in># entry_vals es}))"
  using assms
proof (induction es arbitrary: h)
  case (Cons e es)
  show ?case
  proof (cases "he_taken e")
    case True
    with Cons.prems(2) obtain a where a: "he_val e = Some a" "h a \<noteq> None" by auto
    let ?h = "h(a := None)"
    have cnt: "count (entry_vals es) x \<le> 1" for x
      using spec [OF Cons.prems(1), of x] True by (simp split: if_splits)
    have "count (entry_vals es) (Some a) = 0" using spec [OF Cons.prems(1), of "Some a"] True a(1) by simp
    then have new: "Some a \<notin># entry_vals es" by (simp add: not_in_iff)
    have live: "\<forall>x \<in># entry_vals es. \<exists>b. x = Some b \<and> ?h b \<noteq> None"
      using Cons.prems(2) True new by fastforce
    have "map_loop client_destructor es ?h = Inr (HASHTABLE_OK, ?h |` (- {b. Some b \<in># entry_vals es}))"
      by (rule Cons.IH) (use cnt live in auto)
    moreover have "client_destructor e h = Inr (HASHTABLE_OK, ?h)" using a by (auto simp: client_destructor_def obj_free_def)
    moreover have "?h |` (- {b. Some b \<in># entry_vals es}) = h |` (- {b. Some b \<in># entry_vals (e # es)})"
      using True a(1) by (auto simp: fun_eq_iff restrict_map_def)
    ultimately show ?thesis using True by (simp only: map_loop.simps bindE.simps split refl simp_thms if_True if_False)
  qed (use Cons in simp)
qed (simp add: restrict_map_def)


subsection \<open>The release of the ring\<close>

lemma destroy_ring:
  assumes "chain nh p as" and "distinct as" and "\<forall>a \<in> set as. live_node (nh, dh) a" and "inj_on (data_of nh) (set as)"
  shows "destroy_nodes (length as) (free_node True) p (nh, dh) =
    Inr (nh |` (- set as), dh |` (- {d. \<exists>a \<in> set as. data_of nh a = Some d}))"
  using assms
proof (induction as arbitrary: p nh dh)
  case (Cons a as)
  from Cons.prems(1) obtain n where n: "p = Some a" "nh a = Some n" "chain nh (ln_next n) as" by (rule path_ConsE)
  from Cons.prems(3) n(2) obtain d where d: "ln_data n = Some d" "dh d \<noteq> None" by (auto elim!: live_nodeE)
  let ?nh = "nh(a := None)" and ?dh = "dh(d := None)"
  have same: "data_of ?nh x = data_of nh x \<and> data_of nh x \<noteq> Some d" if "x \<in> set as" for x
  proof -
    have "data_of nh a \<noteq> data_of nh x" using Cons.prems(2,4) that by (auto simp: inj_on_def)
    then show ?thesis using Cons.prems(2) that n(2) d(1) by (auto simp: data_of_def)
  qed
  have live: "live_node (?nh, ?dh) x" if "x \<in> set as" for x
  proof -
    from Cons.prems(3) that obtain m e where "nh x = Some m" "ln_data m = Some e" "dh e \<noteq> None" by (auto elim!: live_nodeE)
    then show ?thesis using same [OF that] Cons.prems(2) that by (auto simp: live_node_def data_of_def)
  qed
  have inj: "inj_on (data_of ?nh) (set as)" using Cons.prems(4) same by (auto simp: inj_on_def)
  have ch': "chain ?nh (ln_next n) as" using n(3) Cons.prems(2) by simp
  have "destroy_nodes (length as) (free_node True) (ln_next n) (?nh, ?dh) =
      Inr (?nh |` (- set as), ?dh |` (- {d. \<exists>a \<in> set as. data_of ?nh a = Some d}))"
    by (rule Cons.IH [OF ch' _ _ inj]) (use Cons.prems(2) in simp, use live in blast)
  moreover have "free_node True a (nh, dh) = Inr (?nh, ?dh)" using n(2) d by (auto simp: free_node_def obj_read_def obj_free_def)
  moreover have "?nh |` (- set as) = nh |` (- set (a # as))" by (auto simp: fun_eq_iff restrict_map_def)
  moreover have "?dh |` (- {d. \<exists>a \<in> set as. data_of ?nh a = Some d}) = dh |` (- {d. \<exists>b \<in> set (a # as). data_of nh b = Some d})"
    using same n(2) d(1) by (auto simp: fun_eq_iff restrict_map_def data_of_def)
  ultimately show ?case
    using n(1,2) by (simp only: destroy_nodes.simps list.size(4) add_Suc_right add_0_right option.case obj_read_def
        fst_conv bindE.simps)
qed (simp add: restrict_map_def)

lemma list_destroy_ring:
  assumes "ring_ok cl ring as"
  shows "list_destroy (cl_nodes cl) True ring =
    Inr (fst ring |` (- set as), snd ring |` (- {d. \<exists>a \<in> set as. data_of (fst ring) a = Some d}))"
  using assms destroy_ring [of "fst ring" "l_head (cl_nodes cl)" as "snd ring"] by (simp add: ring_ok_def list_destroy_def)

lemma destroy_expiring_ok: "v_size (tr_expiring_keys s) = 0 \<Longrightarrow> destroy_expiring s = Inr s"
  by (simp add: destroy_expiring_def vector_destroy_def)

lemma destroy_clients_ok:
  assumes "tables_ok d s"
  shows "\<exists>h. destroy_clients s = Inr (s\<lparr> tr_client_heap := h \<rparr>)"
proof (cases "ht_size (tr_clients s) \<le> 0")
  case True
  then have "destroy_clients s = Inr (s\<lparr> tr_client_heap := tr_client_heap s \<rparr>)"
    by (simp add: destroy_clients_def hashtable_destroy_def hashtable_map_def)
  then show ?thesis by blast
next
  case False
  let ?es = "ht_entries (tr_clients s)" let ?n = "table_size (tr_clients s)"
  have "entry_vals (take ?n ?es) + entry_vals (drop ?n ?es) = entry_vals ?es" by (simp flip: entry_vals_simps(3))
  then have sub: "entry_vals (take ?n ?es) \<subseteq># entry_vals ?es" by (metis mset_subset_eq_add_left)
  have "count (entry_vals (take ?n ?es)) x \<le> 1" for x
    using assms mset_subset_eq_count [OF sub, of x] by (auto simp: tables_ok_def intro: order_trans)
  moreover have "\<forall>x \<in># entry_vals (take ?n ?es). \<exists>a. x = Some a \<and> tr_client_heap s a \<noteq> None"
    using assms mset_subset_eqD [OF sub] by (auto simp: tables_ok_def)
  ultimately have "map_loop client_destructor (take ?n ?es) (tr_client_heap s) =
      Inr (HASHTABLE_OK, tr_client_heap s |` (- {a. Some a \<in># entry_vals (take ?n ?es)}))"
    by (intro map_loop_clients) auto
  then show ?thesis
    using assms False by (auto simp: destroy_clients_def hashtable_destroy_def hashtable_map_def tables_ok_def)
qed

lemma shutdown_ok:
  assumes "srv_inv d (nd_triedb n)" and "tables_ok d (nd_triedb n)" and "ring_ok (nd_cluster n) (nd_ring n) as"
    and "tr_db_heap (nd_triedb n) = [d \<mapsto> db]"
  shows "\<exists>n'. shutdown n = Inr n' \<and> tr_db_heap (nd_triedb n') = Map.empty \<and>
    tr_items (nd_triedb n') = tr_items (nd_triedb n) |` (- ran (trie_map (db_data db))) \<and>
    nd_ring n' = (fst (nd_ring n) |` (- set as), snd (nd_ring n) |` (- {d. \<exists>a \<in> set as. data_of (fst (nd_ring n)) a = Some d}))"
proof -
  let ?s = "nd_triedb n"
  from assms(1,4) obtain db' where "[d \<mapsto> db'] = [d \<mapsto> db]" "db_sound db' (tr_items ?s)" and e0: "v_size (tr_expiring_keys ?s) = 0"
    by (auto simp: srv_inv_def db_good_def)
  moreover from this(1) have "db' = db" by (metis fun_upd_same option.inject)
  ultimately have db: "db_sound db (tr_items ?s)" "v_size (tr_expiring_keys ?s) = 0" by simp_all
  let ?s1 = "?s\<lparr> tr_db_heap := Map.empty, tr_items := tr_items ?s |` (- ran (trie_map (db_data db))) \<rparr>"
  have "tables_ok d ?s1" by (rule tables_same [OF assms(2)]) simp_all
  then obtain h where h: "destroy_clients ?s1 = Inr (?s1\<lparr> tr_client_heap := h \<rparr>)" using destroy_clients_ok by blast
  have "destroy_expiring (?s1\<lparr> tr_client_heap := h \<rparr>) = Inr (?s1\<lparr> tr_client_heap := h \<rparr>)"
    by (rule destroy_expiring_ok) (simp add: db(2))
  then show ?thesis
    using destroy_databases_ok [OF assms(2,4) db(1)] h list_destroy_ring [OF assms(3)] by (simp add: shutdown_def)
qed


subsection \<open>Joining a cluster\<close>

lemma parse_int_loop_foldl:
  "\<forall>c \<in> set ds. isdigit c \<Longrightarrow> parse_int_loop n ds = Inr v \<Longrightarrow> foldl (\<lambda>n d. 10 * n + (uint d - 48)) n ds = v"
proof (induction ds arbitrary: n)
  case (Cons d ds)
  from Cons.prems have "parse_int_loop (10 * n + (uint d - 48)) ds = Inr v"
    by (auto simp: c_int_def mult.commute split: if_splits)
  with Cons show ?case by simp
qed simp

lemma atoi_digits:
  assumes "int p \<le> INT_MAX"
  shows "atoi (dec_digits p) = Inr (int p)"
proof -
  let ?s = "dec_digits p"
  have d: "\<forall>c \<in> set ?s. isdigit c" by (rule dec_digits_isdigit)
  have "?s \<noteq> []" by (subst dec_digits.simps) simp
  then have h: "isdigit (hd ?s)" using d by simp
  then have "\<not> isspace (hd ?s)" "hd ?s \<noteq> 45" "hd ?s \<noteq> 43" by (auto simp: isdigit_def isspace_def word_le_nat_alt)
  moreover have "dropWhile isspace ?s = ?s" using \<open>\<not> isspace (hd ?s)\<close> \<open>?s \<noteq> []\<close> by (cases ?s) auto
  moreover have "takeWhile isdigit ?s = ?s" using d by (simp add: takeWhile_eq_all_conv)
  moreover have "foldl (\<lambda>n d. 10 * n + (uint d - 48)) 0 ?s = int p"
    by (rule parse_int_loop_foldl [OF d parse_dec_digits [OF assms]])
  moreover have "c_int (int p) = Inr (int p)" using assms by (simp add: c_int_def INT_MIN_def)
  ultimately show ?thesis by (simp only: atoi_def Let_def simp_thms if_False)
qed

lemma length_digits_5: "p < 100000 \<Longrightarrow> length (dec_digits p) \<le> 5"
proof -
  assume "p < 100000"
  then have "length (dec_digits p) \<le> length (dec_digits 99999)" by (intro length_dec_digits_mono) simp
  then show ?thesis by (simp add: dec_digits.simps)
qed

lemma bus_port_digits:
  assumes "p < 90000"
  shows "bus_port (dec_digits p) = Inr (dec_digits (p + 10000))"
proof -
  let ?w = "of_nat (p + 10000) :: u64"
  have n: "unat ?w = p + 10000" using assms by (simp only: unat_of_nat) simp
  then have "int (unat ?w) = int p + 10000" by simp
  with n have u: "uint ?w = int p + 10000" "unat ?w = p + 10000" by (simp_all only: uint_nat)
  have w: "u64_to_int ?w = int p + 10000" using u(1) assms by (subst u64_to_int_small) simp_all
  have "snprintf_d (number_len (of_int (int p + 10000))) (int p + 10000) [] = dec_digits (p + 10000)"
    using print_number [of ?w "[]" 0, unfolded w u(2)] u(1) assms by (simp add: Let_def)
  then show ?thesis
    using atoi_digits [of p] assms length_digits_5 [of "p + 10000"]
    by (simp add: bus_port_def INT_MAX_def INT_MIN_def c_int_def str_fits_def)
qed


text \<open>The nodes of the ring one member of the cluster contributes, with four replicas.\<close>

definition ring_member :: "int \<Rightarrow> cstring \<Rightarrow> cstring \<Rightarrow> bool \<Rightarrow> cluster_node multiset" where
  "ring_member fd addr port self =
     {# ring_node fd addr port self (addr @ port) False #} +
     mset (map (\<lambda>i. ring_node fd addr port self (sprintf_d (int i) @ addr @ port) True) [0..<4])"

lemma add_member:
  assumes "ring_ok cl ring as" and "alloc_ok (alloc @ alloc2) ring" and "cl_replicas cl = 4" and "4 < length alloc"
    and "length addr \<le> 16" and "length port \<le> 5" and "length as \<le> 5" and "11 < fuel" and "0 \<le> cl_size cl" and "cl_size cl \<le> 1"
  shows "\<exists>cl' ring' as'. cluster_add_new_node fuel cl fd addr port self alloc ring = Inr (cl', ring', 0) \<and>
    ring_ok cl' ring' as' \<and> length as' = length as + 5 \<and> alloc_ok alloc2 ring' \<and> cl_replicas cl' = 4 \<and>
    cl_size cl' = cl_size cl + 1 \<and> mset (ring_view ring' as') = mset (ring_view ring as) + ring_member fd addr port self"
proof -
  have al: "alloc_ok alloc ring" using assms(2) by (auto simp: alloc_ok_def)
  have "cl_replicas cl = int 4" using assms(3) by simp
  from cluster_add_new_node_spec [OF assms(1) al this assms(4) _ assms(5,6), of fuel fd self] assms(3,7-10)
  obtain cl' ring' as' where r: "cluster_add_new_node fuel cl fd addr port self alloc ring = Inr (cl', ring', 0)"
    "ring_ok cl' ring' as'" "length as' = length as + 4 + 1" "grown alloc ring ring'" "cl_replicas cl' = cl_replicas cl"
    "cl_size cl' = cl_size cl + 1"
    "mset (ring_view ring' as') = mset (ring_view ring as) + {# ring_node fd addr port self (addr @ port) False #} +
      mset (map (\<lambda>i. ring_node fd addr port self (sprintf_d (int i) @ addr @ port) True) [0..<4])"
    by (auto simp: INT_MAX_def)
  then show ?thesis
    using grown_alloc_ok [OF r(4) assms(2)] assms(3) unfolding ring_member_def by auto
qed

lemma start_state_ok:
  assumes "0 < en_fuel en"
  shows "\<exists>s. start_state en cf = Inr s \<and> tr_conf s = cf \<and> nnodes (tr_info s) = 0"
proof -
  from assms obtain f where "en_fuel en = Suc f" by (cases "en_fuel en") auto
  then show ?thesis
    using first_put_table(1) [of "en_calloc_max en" f database_destructor "lit ''db0''" "Some (en_db en)"]
    by (simp add: start_state_def init_info_def del: hashtable_put.simps)
qed

lemma join_message: "pack_ack 0xF0 0 = Inr [0xF0, 1, 0]"
  by code_simp

subsection \<open>Properties\<close>

text \<open>
  C40. Starting in cluster mode with a seed node: on ports below 90000 and with addresses that fit,
  \<^verbatim>\<open>start_server\<close> sends a JOIN of three bytes and ends with the default database in a reachable
  configuration and with a sorted ring that holds exactly two members, each with a node and four replicas:
  this server at its bus port, 10000 above its own, and the seed node.
\<close>

theorem cluster_start_correct:
  assumes "cf_mode cf = CLUSTER" and "p < 90000" and "q < 100000" and "length addr \<le> 16"
    and "sn_connect seed" and "sn_port seed = dec_digits q" and "length (sn_addr seed) \<le> 16"
    and "alloc_ok (bt_bus_alloc bt @ bt_seed_alloc bt) (Map.empty, Map.empty)"
    and "4 < length (bt_bus_alloc bt)" and "4 < length (bt_seed_alloc bt)" and "11 < bt_fuel bt" and "0 < en_fuel en"
  shows "\<exists>n as. start_server en bt cf addr (dec_digits p) seed = Inr ([0xF0, 1, 0], n) \<and>
    reachable en cf (nd_triedb n, [], []) \<and> nnodes (tr_info (nd_triedb n)) = 1 \<and>
    ring_ok (nd_cluster n) (nd_ring n) as \<and> cl_size (nd_cluster n) = 2 \<and>
    mset (ring_view (nd_ring n) as) =
      ring_member (bt_busfd bt) addr (dec_digits (p + 10000)) True +
      ring_member (bt_sockfd bt) (sn_addr seed) (dec_digits q) False"
proof -
  obtain s where s: "start_state en cf = Inr s" "tr_conf s = cf" "nnodes (tr_info s) = 0"
    using start_state_ok [OF assms(12)] by blast
  let ?cl = "\<lparr> cl_size = 0, cl_replicas = 4, cl_nodes = list_new None \<rparr>"
  have r0: "ring_ok ?cl (Map.empty, Map.empty) []" by (simp add: ring_ok_def list_new_def)
  obtain cl1 ring1 as1 where r1:
    "cluster_add_new_node (bt_fuel bt) ?cl (bt_busfd bt) addr (dec_digits (p + 10000)) True (bt_bus_alloc bt) (Map.empty, Map.empty) = Inr (cl1, ring1, 0)"
    "ring_ok cl1 ring1 as1" "length as1 = 5" "alloc_ok (bt_seed_alloc bt) ring1" "cl_replicas cl1 = 4" "cl_size cl1 = 1"
    "mset (ring_view ring1 as1) = ring_member (bt_busfd bt) addr (dec_digits (p + 10000)) True"
    using add_member [OF r0 assms(8) _ assms(9,4) length_digits_5, of "p + 10000" "bt_fuel bt" "bt_busfd bt" True] assms(2,11)
    by (auto simp: ring_view_def)
  have "alloc_ok (bt_seed_alloc bt @ []) ring1" using r1(4) by simp
  from add_member [OF r1(2) this r1(5) assms(10,7) length_digits_5 [OF assms(3)], of "bt_fuel bt" "bt_sockfd bt" False] r1(3,6) assms(11)
  obtain cl2 ring2 as2 where r2:
    "cluster_add_new_node (bt_fuel bt) cl1 (bt_sockfd bt) (sn_addr seed) (dec_digits q) False (bt_seed_alloc bt) ring1 = Inr (cl2, ring2, 0)"
    "ring_ok cl2 ring2 as2" "cl_size cl2 = 2"
    "mset (ring_view ring2 as2) = mset (ring_view ring1 as1) + ring_member (bt_sockfd bt) (sn_addr seed) (dec_digits q) False"
    by auto
  have "c_int (int q + 10000) = Inr (int q + 10000)" "atoi (dec_digits q) = Inr (int q)"
    using assms(3) by (simp_all add: c_int_def INT_MAX_def INT_MIN_def atoi_digits)
  then have "start_server en bt cf addr (dec_digits p) seed = Inr ([0xF0, 1, 0],
      \<lparr> nd_triedb = s\<lparr> tr_info := (tr_info s)\<lparr> nnodes := 1, start_time := of_int (bt_now bt) \<rparr> \<rparr>,
        nd_cluster = cl2, nd_ring = ring2 \<rparr>)"
    using s r1(1) r2(1) assms(1,5,6) bus_port_digits [OF assms(2)] join_message
    by (simp add: start_server_def join_bus_def join_seed_def Let_def)
  moreover note reachable.started [OF s(1), of "of_int (bt_now bt)" 1]
  ultimately show ?thesis using r1(7) r2(2-4) by (intro exI conjI) (assumption, simp_all)
qed

text \<open>
  C11. Shutting down after any run: in every reachable configuration, with a well-formed ring, the release
  of all resources meets no fault, so nothing is released twice; afterwards there is no database, no item
  a key of it pointed to, and no node of the ring.
\<close>

theorem shutdown_correct:
  assumes "reachable en cf (nd_triedb n, evs, outs)" and "ring_ok (nd_cluster n) (nd_ring n) as"
  shows "\<exists>n'. shutdown n = Inr n' \<and> tr_db_heap (nd_triedb n') = Map.empty \<and>
    (\<forall>db k a. tr_db_heap (nd_triedb n) (en_db en) = Some db \<and> trie_find (db_data db) k = Inr (Some a) \<longrightarrow>
      tr_items (nd_triedb n') a = None) \<and>
    (\<forall>a \<in> set as. fst (nd_ring n') a = None)"
proof -
  have inv: "srv_inv (en_db en) (nd_triedb n)" using reachable_inv [OF assms(1)] by (simp add: conf_inv_def)
  have tab: "tables_ok (en_db en) (nd_triedb n)" using reachable_tables [OF assms(1)] by simp
  from inv obtain db where db: "tr_db_heap (nd_triedb n) = [en_db en \<mapsto> db]" "db_sound db (tr_items (nd_triedb n))"
    by (auto simp: srv_inv_def db_good_def)
  from shutdown_ok [OF inv tab assms(2) db(1)] obtain n' where n': "shutdown n = Inr n'" "tr_db_heap (nd_triedb n') = Map.empty"
    "tr_items (nd_triedb n') = tr_items (nd_triedb n) |` (- ran (trie_map (db_data db)))" "fst (nd_ring n') = fst (nd_ring n) |` (- set as)"
    by auto
  have "tr_items (nd_triedb n') a = None" if "trie_find (db_data db) k = Inr (Some a)" for k a
  proof -
    have "a \<in> ran (trie_map (db_data db))" using that trie_find_map [OF db_soundD(1) [OF db(2)]] by (auto simp: ran_def)
    then show ?thesis using n'(3) by simp
  qed
  then show ?thesis using n' db(1) by auto
qed

text \<open>
  Joining a cluster on the command line: the operand in front of the host and the port is not looked at, any
  word acts as \<^verbatim>\<open>join\<close>; and the host is not looked at either, the seed node gets the server's own address.
\<close>

theorem join_operands_ignored:
  assumes "length addr \<le> 16" and "q < 100000"
  shows "seed_of_operands addr [cmd, host, dec_digits q] =
    Inr \<lparr> sn_connect = True, sn_addr = addr, sn_port = dec_digits q, sn_fulladdr = addr @ dec_digits q \<rparr>"
proof -
  have "c_int (int q + 10000) = Inr (int q + 10000)" "atoi (dec_digits q) = Inr (int q)"
    using assms(2) by (simp_all add: c_int_def INT_MAX_def INT_MIN_def atoi_digits)
  then show ?thesis
    using assms(1) length_digits_5 [OF assms(2)] by (simp add: seed_of_operands_def str_fits_def Let_def)
qed

theorem join_operands_ignored_witness:
  "seed_of_operands (lit ''127.0.0.1'') [lit ''leave'', lit ''10.0.0.7'', dec_digits 9091] =
    Inr \<lparr> sn_connect = True, sn_addr = lit ''127.0.0.1'', sn_port = dec_digits 9091,
          sn_fulladdr = lit ''127.0.0.1'' @ dec_digits 9091 \<rparr>"
  using join_operands_ignored [of "lit ''127.0.0.1''" 9091 "lit ''leave''" "lit ''10.0.0.7''"] by (simp add: lit_def)

definition demo_boot :: boot where
  "demo_boot = \<lparr> bt_busfd = 8, bt_sockfd = 9, bt_bus_alloc = [(1, 1), (2, 2), (3, 3), (4, 4), (5, 5)],
     bt_seed_alloc = [(6, 6), (7, 7), (8, 8), (9, 9), (10, 10)], bt_now = 0, bt_fuel = 12 \<rparr>"

definition demo_seed :: seednode where
  "demo_seed = \<lparr> sn_connect = True, sn_addr = lit ''127.0.0.1'', sn_port = dec_digits 9091, sn_fulladdr = [] \<rparr>"

theorem cluster_start_correct_witness:
  "\<exists>n as. start_server (demo_env 0 0) demo_boot (demo_config\<lparr> cf_mode := CLUSTER \<rparr>) (lit ''127.0.0.1'') (dec_digits 9090)
      demo_seed = Inr ([0xF0, 1, 0], n) \<and> ring_ok (nd_cluster n) (nd_ring n) as \<and> cl_size (nd_cluster n) = 2"
proof -
  have "alloc_ok (bt_bus_alloc demo_boot @ bt_seed_alloc demo_boot) (Map.empty, Map.empty)"
    by (simp add: alloc_ok_def demo_boot_def)
  from cluster_start_correct [OF _ _ _ _ _ _ _ this, of "demo_config\<lparr> cf_mode := CLUSTER \<rparr>" 9090 9091 "lit ''127.0.0.1''" demo_seed "demo_env 0 0"]
  show ?thesis by (auto simp: demo_boot_def demo_seed_def demo_env_def lit_def)
qed

theorem shutdown_correct_witness:
  "\<exists>n n'. reachable (demo_env 0 0) demo_config (nd_triedb n, [], []) \<and> shutdown n = Inr n' \<and> tr_db_heap (nd_triedb n') = Map.empty"
proof -
  obtain s where s: "reachable (demo_env 0 0) demo_config (s, [], [])" using demo_server by blast
  let ?n = "\<lparr> nd_triedb = s, nd_cluster = empty_cluster 4, nd_ring = (Map.empty, Map.empty) \<rparr>"
  have "ring_ok (nd_cluster ?n) (nd_ring ?n) []" using empty_cluster_ok by simp
  from shutdown_correct [OF _ this, of "demo_env 0 0" demo_config "[]" "[]"] s obtain n' where
    "shutdown ?n = Inr n'" "tr_db_heap (nd_triedb n') = Map.empty" by auto
  then show ?thesis using s by (intro exI [of _ ?n] exI [of _ n']) simp
qed


text \<open>
  The command line with nothing but a mode and an operand list: without a configuration file \<^verbatim>\<open>main\<close> starts
  a server on 127.0.0.1, port 9090, in the mode \<^verbatim>\<open>-m\<close> names, in a reachable configuration. It is alone
  on an empty ring when the mode is not the cluster mode.
\<close>

theorem main_start_standalone:
  assumes "files (lit ''/etc/triedb/triedb.conf'') = None" and "\<not> STREQ mode (lit ''CLUSTER'') 7" and "0 < en_fuel en"
  shows "\<exists>cf n. main_start SOMAXCONN efd files en bt [OptM mode] [] = Inr (Some ([], n)) \<and>
    reachable en cf (nd_triedb n, [], []) \<and> tr_conf (nd_triedb n) = cf \<and> cf_mode cf = STANDALONE \<and>
    cf_hostname cf = lit ''127.0.0.1'' \<and> cf_port cf = lit ''9090'' \<and> cf_max_request_size cf = 2 * 1024 * 1024 \<and>
    ring_ok (nd_cluster n) (nd_ring n) []"
proof -
  have d: "read_memory_with_mul (lit ''4GB'') = Inr 4294967296" "read_time_with_mul (lit ''1d'') = Inr 86400"
    "read_memory_with_mul (lit ''2MB'') = Inr 2097152" by code_simp+
  obtain cf where cf: "config_set_default SOMAXCONN efd = Inr cf" "cf_hostname cf = lit ''127.0.0.1''" "cf_port cf = lit ''9090''"
    "cf_max_request_size cf = 2 * 1024 * 1024" by (simp add: config_set_default_def d)
  let ?cf = "cf\<lparr> cf_mode := STANDALONE, cf_loglevel := WARNING \<rparr>"
  obtain s where s: "start_state en ?cf = Inr s" "tr_conf s = ?cf" using start_state_ok [OF assms(3)] by blast
  let ?n = "\<lparr> nd_triedb = s\<lparr> tr_info := (tr_info s)\<lparr> start_time := of_int (bt_now bt) \<rparr> \<rparr>,
    nd_cluster = \<lparr> cl_size = 0, cl_replicas = 4, cl_nodes = list_new None \<rparr>, nd_ring = (Map.empty, Map.empty) \<rparr>"
  have "main_start SOMAXCONN efd files en bt [OptM mode] [] = Inr (Some ([], ?n))"
    using cf(1) s assms(1,2)
    by (simp add: main_start_def main_config_def config_load_def seed_of_operands_def str_fits_def lit_def Let_def
        start_server_def join_bus_def join_seed_def STANDALONE_def CLUSTER_def)
  moreover have "reachable en ?cf (nd_triedb ?n, [], [])"
    using reachable.started [OF s(1), of "of_int (bt_now bt)" "nnodes (tr_info s)"] by simp
  moreover have "ring_ok (nd_cluster ?n) (nd_ring ?n) []" by (simp add: ring_ok_def list_new_def)
  ultimately show ?thesis using cf(2-4) s(2) by (intro exI [of _ ?cf] exI [of _ ?n]) simp
qed

theorem main_start_standalone_witness:
  "\<exists>n. main_start 128 5 (\<lambda>_. None) (demo_env 0 0) demo_boot [OptM (lit ''single'')] [] = Inr (Some ([], n)) \<and>
     cf_mode (tr_conf (nd_triedb n)) = STANDALONE"
proof -
  have "\<not> STREQ (lit ''single'') (lit ''CLUSTER'') 7" by code_simp
  from main_start_standalone [OF _ this, of "\<lambda>_. None" "demo_env 0 0" 128 5 demo_boot] show ?thesis
    by (auto simp: demo_env_def)
qed

text \<open>
  C28. No disconnection is survived. In every reachable configuration, when a client has closed its connection or announces a
  packet above the configured limit, the I/O thread removes the client from the table and releases it, the payload and
  the event, all without a fault, and then goes through the released event to record the time of the last action.
\<close>

theorem disconnect_use_after_free:
  assumes "reachable en cf (s, evs, outs)" and "tr_client_heap s c = Some cl"
    and "recv_packet (cf_max_request_size (tr_conf s)) buf sk = Inr r"
    and "rc_nbytes r = - ERRCLIENTDC \<or> rc_nbytes r = - ERRMAXREQSIZE"
  shows "io_read en' c buf sk s = Inl UseAfterFree"
proof -
  from assms(3,4) obtain s1 where rd: "read_data (c_fd cl) buf sk s = Inr (- ERRCLIENTDC, None, rc_buffer r, rc_socket r, s1)"
    by (auto simp: read_data_def Let_def)
  note s1 = read_data_state [OF rd]
  obtain x where "hashtable_del (tr_clients s) (c_uuid cl) (tr_client_heap s) = Inr x"
    using clients_del_returns reachable_tables [OF assms(1)] by (metis fst_conv)
  then have "\<exists>y. io_disconnect (io_event_new c) [0 \<mapsto> ()] s1 = Inr y"
    using assms(2) by (cases x) (simp add: io_disconnect_def io_event_new_def obj_read_Some obj_free_Some s1)
  then show ?thesis using rd by (auto simp: io_read_eq [OF assms(2)])
qed

theorem disconnect_use_after_free_witness:
  "\<exists>s. reachable (demo_env 0 0) demo_config (s, [], []) \<and>
     io_read (demo_env 3 5) 7 [0, 0, 0, 0] [IoBytes []] s = Inl UseAfterFree"
proof -
  obtain s cl where s: "reachable (demo_env 0 0) demo_config (s, [], [])" "tr_client_heap s 7 = Some cl"
    "tr_conf s = demo_config" using demo_server by blast
  have "cf_max_request_size demo_config = 1024" by code_simp
  then show ?thesis
    using disconnect_use_after_free [OF s(1,2), of "[0, 0, 0, 0]" "[IoBytes []]"] s(1,3) demo_recv(2)
    by (auto simp: ERRCLIENTDC_def)
qed

end
