(* ===== verification/Tdb_Expiry.thy ===== *)
theory Tdb_Expiry
  imports Tdb_Server
begin

text \<open>
  Keys with a time to live: the vector of expiring keys of \<^verbatim>\<open>src/server.c\<close>, which \<^verbatim>\<open>ttl_handler\<close> fills and
  sorts and \<^verbatim>\<open>expire_keys\<close> empties, together with the lazy expiration of \<^verbatim>\<open>get_handler\<close>.
\<close>

subsection \<open>The order of the vector\<close>

interpretation ttl_order: total_preorder "compare_ttl now items" for now items
  by unfold_locales (auto simp: compare_ttl_def)

text \<open>A vector whose expiring keys are \<open>xs\<close>, in this order.\<close>

abbreviation ek_list :: "triedb \<Rightarrow> expiring_key list \<Rightarrow> bool" where
  "ek_list s xs \<equiv> sort_state (tr_expiring_keys s) (tr_eks s) xs"

lemma sort_state_nth:
  assumes "sort_state v h xs" and "i < length xs"
  shows "vector_slot v (int i) = Inr (vlist v ! i)" "h (vlist v ! i) = Some (xs ! i)"
proof -
  have v: "vector_inv v" "map h (vlist v) = map Some xs" using assms(1) by (auto simp: sort_state_def)
  have i: "i < v_size v" using sort_state_len [OF assms(1)] assms(2) by simp
  then show "vector_slot v (int i) = Inr (vlist v ! i)" using vector_get_ok [OF v(1)] by (simp add: vector_slot_def)
  have "map h (vlist v) ! i = map Some xs ! i" by (simp only: v(2))
  then show "h (vlist v ! i) = Some (xs ! i)" using i assms(2) v(1) by simp
qed

lemma sort_state_fresh:
  assumes "sort_state v h xs" and "h e = None"
  shows "e \<notin> set (vlist v)"
proof
  assume "e \<in> set (vlist v)"
  then have "h e \<in> set (map h (vlist v))" by simp
  moreover have "map h (vlist v) = map Some xs" using assms(1) by (simp add: sort_state_def)
  ultimately show False using assms(2) by auto
qed

lemma sort_state_append:
  assumes "sort_state v h xs" and "h e = None" and "vector_append v e = Inr v'"
  shows "sort_state v' (h(e \<mapsto> x)) (xs @ [x])"
proof -
  have v: "vector_inv v" "distinct (vlist v)" "map h (vlist v) = map Some xs" using assms(1) by (auto simp: sort_state_def)
  from vector_append_ok [OF v(1), of e] assms(3) have v': "vector_inv v'" "vlist v' = vlist v @ [e]" by auto
  show ?thesis using v v' sort_state_fresh [OF assms(1,2)] by (auto simp: sort_state_def)
qed


subsection \<open>Setting a TTL\<close>

lemma ek_items_alive_ok:
  assumes "sort_state v eks xs" and "\<forall>x \<in> set xs. items (ek_item x) \<noteq> None"
  shows "ek_items_alive v eks items = Inr ()"
proof -
  have len: "length xs = v_size v" using assms(1) by (rule sort_state_len)
  let ?f = "\<lambda>_ i. bindE (vector_slot v (int i)) (\<lambda>e. bindE (obj_read eks e) (\<lambda>ek.
    bindE (obj_read items (ek_item ek)) (\<lambda>_. Inr ())))"
  have "?f u i = Inr ()" if i: "i < length xs" for u i
  proof -
    obtain item where "items (ek_item (xs ! i)) = Some item" using assms(2) nth_mem [OF i] by blast
    then show ?thesis using sort_state_nth [OF assms(1) i] by (simp add: obj_read_Some)
  qed
  then have "foldE ?f () js = Inr ()" if "set js \<subseteq> {..<length xs}" for js
    using that by (induction js) auto
  from this [of "[0..<v_size v]"] show ?thesis using len by (simp add: ek_items_alive_def subset_iff)
qed

lemma deadline_upd: "ek_deadline (items(a \<mapsto> i)) x = (if ek_item x = a then di_ctime i + di_ttl i else ek_deadline items x)"
  by (simp add: ek_deadline_def)

lemma view_upd:
  assumes "db_sound db h" and "trie_map (db_data db) k = Some a"
  shows "db_view db (h(a \<mapsto> i)) = (db_view db h)(k \<mapsto> i)"
proof
  fix k'
  have "trie_map (db_data db) k' = Some a \<Longrightarrow> k' = k"
    using trie_owns_inj [OF db_soundD(2) [OF assms(1)] _ assms(2)] by blast
  then show "db_view db (h(a \<mapsto> i)) k' = ((db_view db h)(k \<mapsto> i)) k'"
    using assms(2) by (cases "trie_map (db_data db) k'") (auto simp: db_view_def)
qed

lemma sound_upd: "db_sound db h \<Longrightarrow> trie_map (db_data db) k = Some a \<Longrightarrow> db_sound db (h(a \<mapsto> i))"
  by (auto simp: db_sound_def trie_owns_def)

abbreviation retimed :: "env \<Rightarrow> int \<Rightarrow> db_item \<Rightarrow> db_item" where
  "retimed en ttl item \<equiv> item\<lparr> di_ttl := c_short ttl, di_ctime := en_now en, di_lstime := en_now en \<rparr>"

lemma ttl_handler_ok:
  assumes "serves s c d db" and "ek_list s xs" and "\<forall>x \<in> set xs. tr_items s (ek_item x) \<noteq> None"
    and "trie_map (db_data db) (c_string key) = Some a" and "tr_items s a = Some item"
    and "tr_eks s (en_ek en) = None" and "Suc (length xs) < en_depth en"
    and "new = \<lparr> ek_data_ptr = d, ek_item = a, ek_key = c_string key \<rparr>"
  shows "\<exists>s' ys. ttl_handler en c (ReqTtl hdr ttl key) s = Inr (0, Some [0, 1, 0], s') \<and> ek_list s' ys \<and>
    mset ys = mset xs + (if di_ttl item < 0 then {#new#} else {#}) \<and>
    sorted_wrt (\<lambda>x y. ek_deadline (tr_items s') x \<le> ek_deadline (tr_items s') y) ys \<and>
    tr_items s' = (tr_items s)(a \<mapsto> retimed en ttl item) \<and> tr_db_heap s' = tr_db_heap s \<and>
    tr_client_heap s' = tr_client_heap s"
proof -
  note c = servesD [OF assms(1)]
  let ?items = "(tr_items s)(a \<mapsto> retimed en ttl item)" and ?eks = "(tr_eks s)(en_ek en \<mapsto> new)"
  note e = sort_state_fresh [OF assms(2,6)]
  obtain v xs' where v: "(if \<not> di_ttl item < 0 then Inr (tr_expiring_keys s) else vector_append (tr_expiring_keys s) (en_ek en)) = Inr v"
    "sort_state v ?eks xs'" "mset xs' = mset xs + (if di_ttl item < 0 then {#new#} else {#})" "length xs' \<le> Suc (length xs)"
  proof (cases "di_ttl item < 0")
    case True
    obtain v where "vector_append (tr_expiring_keys s) (en_ek en) = Inr v"
      using vector_append_ok [of "tr_expiring_keys s" "en_ek en"] assms(2) by (auto simp: sort_state_def)
    then show thesis using that [of v "xs @ [new]"] sort_state_append [OF assms(2,6)] True by simp
  next
    case False
    have "sort_state (tr_expiring_keys s) ?eks xs" using assms(2) e by (simp add: sort_state_def map_fun_upd)
    then show thesis using that [of "tr_expiring_keys s" xs] False by simp
  qed
  have "set xs' \<subseteq> insert new (set xs)" using arg_cong [OF v(3), of set_mset] by (auto split: if_splits)
  then have "\<forall>x \<in> set xs'. ?items (ek_item x) \<noteq> None" using assms(3,8) by auto
  from ek_items_alive_ok [OF v(2) this] have alive: "ek_items_alive v ?eks ?items = Inr ()" .
  from ttl_order.vector_qsort_ok [OF v(2), of "en_depth en" "en_now en" ?items] v(4) assms(7) obtain ys eks' where q:
    "vector_qsort (en_depth en) v (compare_ttl (en_now en) ?items) ?eks = Inr eks'" "sort_state v eks' ys"
    "mset ys = mset xs'" "sorted_wrt (compare_ttl (en_now en) ?items) ys" by auto
  let ?s = "s\<lparr> tr_items := ?items, tr_eks := eks', tr_expiring_keys := v \<rparr>"
  have "ttl_handler en c (ReqTtl hdr ttl key) s = Inr (0, Some [0, 1, 0], ?s)"
    using c(1) assms(4,5,8) v(1) alive q(1) db_soundD(1) [OF c(2)]
    by (simp add: ttl_handler_def trie_find_map obj_read_Some Let_def ack_reply_eq)
  moreover have "sorted_wrt (\<lambda>x y. ek_deadline ?items x \<le> ek_deadline ?items y) ys"
    using q(4) by (rule sorted_wrt_mono_rel [rotated]) (simp add: compare_ttl_def)
  ultimately show ?thesis using q(2,3) v(3) by (intro exI [of _ ?s] exI [of _ ys]) simp
qed

subsection \<open>The timer\<close>







lemma expire_dead:
  assumes "ek_list s (x # xs)" and "tr_items s (ek_item x) = None"
  shows "expire_keys now s = Inl UseAfterFree"
proof -
  have "0 < v_size (tr_expiring_keys s)" unfolding sort_state_len [OF assms(1), symmetric] by simp
  then show ?thesis
    using sort_state_nth [OF assms(1), of 0] assms(2)
    by (subst expire_keys_def, subst expire_loop.simps) (simp add: vector_size_def obj_read_def)
qed

subsection \<open>A database with expiring keys\<close>

lemma demo_state:
  "\<exists>s db a1 a2. serves s 7 0 db \<and> v_size (tr_expiring_keys s) = 0 \<and> ek_list s [] \<and> tr_eks s = Map.empty \<and>
     trie_map (db_data db) (lit ''a1'') = Some a1 \<and> trie_map (db_data db) (lit ''b'') = Some a2 \<and>
     (\<exists>i. tr_items s a1 = Some i \<and> di_ttl i = -1 \<and> di_ctime i = 0) \<and>
     (\<exists>i. tr_items s a2 = Some i \<and> di_ttl i = -1 \<and> di_ctime i = 0)"
proof -
  obtain db h where db: "sample_db = Inr (db, h)" "db_ok db h" and
    e: "db_entry (db, h) = [lit ''a1'' \<mapsto> (Some (lit ''9''), -1, 0), lit ''ab'' \<mapsto> (Some (lit ''x''), -1, 0),
       lit ''b'' \<mapsto> (Some (lit ''9''), -1, 0)]"
    using sample_db_ok by blast
  have entry: "\<exists>a i. trie_map (db_data db) k = Some a \<and> h a = Some i \<and> di_ttl i = t \<and> di_ctime i = ct"
    if "db_entry (db, h) k = Some (v, t, ct)" for k v t ct
    using that by (auto simp: db_entry_def db_view_def split: option.splits)
  have "lit ''a1'' \<noteq> lit ''b''" "lit ''ab'' \<noteq> lit ''b''" "lit ''a1'' \<noteq> lit ''ab''" by (simp_all add: lit_def)
  with e have "db_entry (db, h) (lit ''a1'') = Some (Some (lit ''9''), -1, 0)"
    "db_entry (db, h) (lit ''b'') = Some (Some (lit ''9''), -1, 0)" by simp_all
  with entry obtain a1 i1 a2 i2 where a: "trie_map (db_data db) (lit ''a1'') = Some a1" "h a1 = Some i1" "di_ttl i1 = -1" "di_ctime i1 = 0"
    "trie_map (db_data db) (lit ''b'') = Some a2" "h a2 = Some i2" "di_ttl i2 = -1" "di_ctime i2 = 0" by meson
  define s where "s = \<lparr> tr_clients = hashtable_new client_destructor, tr_dbs = hashtable_new database_destructor,
    tr_expiring_keys = vector_new, tr_keyspace_size = 3,
    tr_client_heap = [7 \<mapsto> \<lparr> c_fd = 9, c_last_action_time = 0, c_uuid = lit ''u'', c_db = Some 0 \<rparr>],
    tr_db_heap = [0 \<mapsto> db], tr_items = h, tr_eks = Map.empty, tr_info = undefined, tr_conf = undefined, tr_closed = [] \<rparr>"
  have "serves s 7 0 db" using db_ok_sound [OF db(2)] by (simp add: serves_def s_def)
  moreover have "ek_list s []" using vector_new_inv by (simp add: sort_state_def s_def)
  ultimately show ?thesis
    using a by (intro exI [of _ s] exI [of _ db] exI [of _ a1] exI [of _ a2]) (simp add: s_def vector_new_def)
qed

definition demo_ttl_env :: env where
  "demo_ttl_env =
     \<lparr> en_time = 10, en_now = 10, en_clk = \<lambda>_. 10, en_item = 99, en_db = 99, en_ek = 1, en_depth = 8,
       en_calloc_max = 64, en_fuel = 1 \<rparr>"

subsection \<open>Properties\<close>

text \<open>
  C19. The TTL command. On a key of the client's database, with every expiring key still having its item and a
  stack deep enough for the sort, \<^verbatim>\<open>ttl_handler\<close> succeeds: the item gets the TTL, truncated to 16
  bits, and counts from now; an entry for the key joins the expiring keys exactly when the old TTL was negative, whether
  or not there is one already, so a key stored with a TTL gets none; and the vector is then sorted by the time the keys
  expire.
\<close>

theorem ttl_handler_correct:
  assumes "serves s c d db" and "ek_list s xs" and "\<forall>x \<in> set xs. tr_items s (ek_item x) \<noteq> None"
    and "trie_map (db_data db) (c_string key) = Some a" and "tr_items s a = Some item"
    and "tr_eks s (en_ek en) = None" and "Suc (length xs) < en_depth en"
  shows "\<exists>s' ys. ttl_handler en c (ReqTtl hdr ttl key) s = Inr (0, Some [0, 1, 0], s') \<and> ek_list s' ys \<and>
    mset ys = mset xs + (if di_ttl item < 0 then {#\<lparr> ek_data_ptr = d, ek_item = a, ek_key = c_string key \<rparr>#} else {#}) \<and>
    sorted_wrt (\<lambda>x y. ek_deadline (tr_items s') x \<le> ek_deadline (tr_items s') y) ys \<and>
    db_view db (tr_items s') = (db_view db (tr_items s))(c_string key \<mapsto>
      item\<lparr> di_ttl := c_short ttl, di_ctime := en_now en, di_lstime := en_now en \<rparr>)"
proof -
  from ttl_handler_ok [OF assms refl, of hdr ttl] obtain s' ys where
    "ttl_handler en c (ReqTtl hdr ttl key) s = Inr (0, Some [0, 1, 0], s')" "ek_list s' ys"
    "mset ys = mset xs + (if di_ttl item < 0 then {#\<lparr> ek_data_ptr = d, ek_item = a, ek_key = c_string key \<rparr>#} else {#})"
    "sorted_wrt (\<lambda>x y. ek_deadline (tr_items s') x \<le> ek_deadline (tr_items s') y) ys"
    "tr_items s' = (tr_items s)(a \<mapsto> retimed en ttl item)" by blast
  then show ?thesis using view_upd [OF servesD(2) [OF assms(1)] assms(4)] by (intro exI [of _ s'] exI [of _ ys]) simp
qed

theorem ttl_handler_correct_witness:
  "\<exists>s s' y. ttl_handler demo_ttl_env 7 (ReqTtl 0x40 60 (lit ''b'')) s = Inr (0, Some [0, 1, 0], s') \<and> ek_list s' [y] \<and>
     ek_key y = lit ''b'' \<and> ek_deadline (tr_items s') y = 70"
proof -
  obtain s db a2 i where s: "serves s 7 0 db" "ek_list s []" "tr_eks s = Map.empty" "trie_map (db_data db) (lit ''b'') = Some a2"
    "tr_items s a2 = Some i" "di_ttl i = -1" using demo_state by blast
  have k: "c_string (lit ''b'') = lit ''b''" "c_short 60 = 60" "lit ''b'' = [98]" by code_simp+
  from ttl_handler_correct [OF s(1,2) _ _ s(5), of "lit ''b''" demo_ttl_env "0x40" 60] s(3,4,6) obtain s' ys where
    r: "ttl_handler demo_ttl_env 7 (ReqTtl 0x40 60 (lit ''b'')) s = Inr (0, Some [0, 1, 0], s')" "ek_list s' ys"
    "mset ys = {#\<lparr> ek_data_ptr = 0, ek_item = a2, ek_key = lit ''b'' \<rparr>#}"
    "db_view db (tr_items s') (lit ''b'') = Some (i\<lparr> di_ttl := 60, di_ctime := 10, di_lstime := 10 \<rparr>)"
    by (auto simp: k(1,2) demo_ttl_env_def)
  let ?y = "\<lparr> ek_data_ptr = 0, ek_item = a2, ek_key = lit ''b'' \<rparr>"
  have "ys = [?y]" using r(3) by simp
  then show ?thesis
    using r s(4) by (intro exI [of _ s] exI [of _ s'] exI [of _ ?y]) (simp add: db_view_def ek_deadline_def)
qed



text \<open>
  C20. An item can be released while its expiring key stays. When a key gets its first TTL by the TTL
  command and is then deleted by DEL, the next run of the timer reads the released item.
\<close>

theorem ttl_del_timer_faults:
  assumes "serves s c d db" and "ek_list s []" and "trie_map (db_data db) (c_string key) = Some a"
    and "tr_items s a = Some item" and "di_ttl item < 0" and "c_string key \<noteq> []"
    and "tr_eks s (en_ek en) = None" and "1 < en_depth en" and "\<not> hdr_prefix hdr'"
  shows "\<exists>s1 r s2. ttl_handler en c (ReqTtl hdr ttl key) s = Inr (0, Some [0, 1, 0], s1) \<and>
    del_handler en' c (ReqGet hdr' key) s1 = Inr (0, Some [0, 1, r], s2) \<and> expire_keys now s2 = Inl UseAfterFree"
proof -
  let ?x = "\<lparr> ek_data_ptr = d, ek_item = a, ek_key = c_string key \<rparr>"
  from ttl_handler_ok [OF assms(1,2) _ assms(3,4,7) _ refl, of hdr ttl] assms(5,8) obtain s1 where s1:
    "ttl_handler en c (ReqTtl hdr ttl key) s = Inr (0, Some [0, 1, 0], s1)" "ek_list s1 [?x]"
    "tr_items s1 = (tr_items s)(a \<mapsto> retimed en ttl item)" "tr_db_heap s1 = tr_db_heap s"
    "tr_client_heap s1 = tr_client_heap s" by auto
  have ser: "serves s1 c d db"
    using assms(1) s1(3-5) sound_upd [OF servesD(2) [OF assms(1)] assms(3)] by (simp add: serves_def)
  let ?h = "(tr_items s1) |` (- {a})"
  from trie_delete_sound [OF db_soundD [OF servesD(2) [OF ser]], of "c_string key"] assms(3,6) obtain b t where
    t: "trie_delete (db_data db) (c_string key) (tr_items s1) = Inr (b, t, ?h)" by auto
  let ?s2 = "with_db s1 d (db\<lparr> db_data := t \<rparr>) ?h (tr_keyspace_size s1 - (if b then 1 else 0))"
  have "del_handler en' c (ReqGet hdr' key) s1 = Inr (0, Some [0, 1, if b then 0 else 1], ?s2)"
    using servesD(1) [OF ser] t assms(9)
    by (simp add: del_handler_def get_key_def database_remove_def ack_reply_eq Let_def)
  moreover have "expire_keys now ?s2 = Inl UseAfterFree"
    using s1(2) by (intro expire_dead [where x = ?x and xs = "[]"]) simp_all
  ultimately show ?thesis using s1(1) by blast
qed

theorem ttl_del_timer_faults_witness:
  "\<exists>s s1 r s2. ttl_handler demo_ttl_env 7 (ReqTtl 0x40 60 (lit ''b'')) s = Inr (0, Some [0, 1, 0], s1) \<and>
     del_handler demo_ttl_env 7 (ReqGet 0x30 (lit ''b'')) s1 = Inr (0, Some [0, 1, r], s2) \<and>
     expire_keys 11 s2 = Inl UseAfterFree"
proof -
  obtain s db a2 i where s: "serves s 7 0 db" "ek_list s []" "tr_eks s = Map.empty" "trie_map (db_data db) (lit ''b'') = Some a2"
    "tr_items s a2 = Some i" "di_ttl i = -1" using demo_state by blast
  have k: "c_string (lit ''b'') = lit ''b''" "lit ''b'' \<noteq> []" "\<not> hdr_prefix 0x30" by code_simp+
  show ?thesis
    using ttl_del_timer_faults [OF s(1,2) _ s(5), of "lit ''b''" demo_ttl_env "0x30" "0x40" 60 demo_ttl_env 11] s(3,4,6) k
    by (auto simp: demo_ttl_env_def)
qed

end
