(* ===== verification/Tdb_Log.thy ===== *)
theory Tdb_Log
  imports Tdb_Config Tdb_Cluster
begin

text \<open>
  Logging: \<^verbatim>\<open>t_log\<close> of \<^verbatim>\<open>src/util.c\<close> with its buffer and its two streams, and the two functions that use it to
  report something, \<^verbatim>\<open>config_print\<close> of \<^verbatim>\<open>src/config.c\<close> and \<^verbatim>\<open>log_cluster_ring\<close> of \<^verbatim>\<open>src/cluster.c\<close>. A call of
  \<^verbatim>\<open>t_log\<close> is given the text its format and arguments stand for; the clock is an argument.
\<close>

subsection \<open>The logger\<close>

definition MAX_LOG_SIZE :: nat where "MAX_LOG_SIZE = 119"

text \<open>The static \<^verbatim>\<open>fh\<close>: never opened, open with what the file contains, or closed and still set.\<close>

datatype log_file = NoFile | OpenFile bytes | ClosedFile bytes

record logger =
  lg_stdout :: bytes
  lg_file :: log_file

text \<open>\<^verbatim>\<open>t_log_init\<close>: \<open>content\<close> is what the file holds, \<open>None\<close> if it cannot be opened.\<close>

definition t_log_init :: "bytes option \<Rightarrow> nat \<Rightarrow> cstring option \<Rightarrow> logger \<Rightarrow> logger cres" where
  "t_log_init content now logfile lg =
     (case logfile of
        None \<Rightarrow> Inl AssertFailed
      | Some fname \<Rightarrow>
          (case content of
             None \<Rightarrow> Inr (lg\<lparr> lg_file := NoFile, lg_stdout := lg_stdout lg @ dec_digits now @
               lit '' * WARNING: Unable to open file '' @ fname @ [10] \<rparr>)
           | Some bs \<Rightarrow> Inr (lg\<lparr> lg_file := OpenFile bs \<rparr>)))"

definition t_log_close :: "logger \<Rightarrow> logger cres" where
  "t_log_close lg =
     (case lg_file lg of
        NoFile \<Rightarrow> Inr lg
      | OpenFile bs \<Rightarrow> Inr (lg\<lparr> lg_file := ClosedFile bs \<rparr>)
      | ClosedFile bs \<Rightarrow> Inl UseAfterFree)"

text \<open>
  The array \<^verbatim>\<open>msg\<close> of \<^verbatim>\<open>MAX_LOG_SIZE + 4\<close> bytes, which holds \<open>stack\<close> at first: \<^verbatim>\<open>vsnprintf\<close> stores the text and a
  NUL, then three dots and a NUL are written at the end. What is printed is the string in it.
\<close>

definition log_message :: "bytes \<Rightarrow> cstring \<Rightarrow> cstring" where
  "log_message stack text0 =
     (let written = take (MAX_LOG_SIZE + 3) text0 @ [0];
          msg = written @ drop (length written) stack
      in c_string (take MAX_LOG_SIZE msg @ lit ''...'' @ [0]))"

definition log_mark :: cstring where
  "log_mark = lit ''#i*!'' @ [0]"

definition log_line :: "nat \<Rightarrow> byte \<Rightarrow> cstring \<Rightarrow> bytes" where
  "log_line now level msg = dec_digits now @ [32, log_mark ! unat level, 32] @ msg @ [10]"

definition t_log :: "config \<Rightarrow> bytes \<Rightarrow> nat \<times> nat \<Rightarrow> byte \<Rightarrow> cstring \<Rightarrow> logger \<Rightarrow> logger cres" where
  "t_log conf stack clk level text0 lg =
     (if level < cf_loglevel conf then Inr lg
      else if \<not> unat level < length log_mark then Inl OutOfBounds
      else
        let msg = log_message stack text0; out = lg_stdout lg @ log_line (fst clk) level msg in
        case lg_file lg of
          NoFile \<Rightarrow> Inr (lg\<lparr> lg_stdout := out \<rparr>)
        | OpenFile bs \<Rightarrow> Inr (lg\<lparr> lg_stdout := out, lg_file := OpenFile (bs @ log_line (snd clk) level msg) \<rparr>)
        | ClosedFile bs \<Rightarrow> Inl UseAfterFree)"

text \<open>\<^verbatim>\<open>generate_uuid\<close>: \<open>uuid\<close> is the text \<^verbatim>\<open>uuid_unparse\<close> makes of a random number; it is stored with a NUL.\<close>

definition generate_uuid :: "cstring \<Rightarrow> bytes \<Rightarrow> (int \<times> bytes) cres" where
  "generate_uuid uuid placeholder =
     (if length uuid + 1 \<le> length placeholder then Inr (0, uuid @ [0] @ drop (length uuid + 1) placeholder)
      else Inl OutOfBounds)"

subsection \<open>The report of the configuration\<close>

text \<open>The loop over the first four names of \<^verbatim>\<open>lmap\<close>: the last match counts.\<close>

fun level_name :: "(cstring \<times> byte) list \<Rightarrow> byte \<Rightarrow> cstring option \<Rightarrow> cstring option" where
  "level_name [] level llevel = llevel"
| "level_name ((lname, l) # ls) level llevel = level_name ls level (if l = level then Some lname else llevel)"

text \<open>The texts \<^verbatim>\<open>config_print\<close> passes to \<^verbatim>\<open>tinfo\<close>, in order; a level without a name is a NULL pointer for \<^verbatim>\<open>%s\<close>.\<close>

definition config_report :: "config \<Rightarrow> cstring list cres" where
  "config_report conf =
     (let sfamily = (if cf_socket_family conf = UNIX then lit ''Unix'' else lit ''Tcp'');
          address = (if cf_socket_family conf = UNIX then [9 # lit ''Unix socket: '' @ cf_hostname conf]
                     else [9 # lit ''Address: '' @ cf_hostname conf, 9 # lit ''Port: '' @ cf_port conf,
                           9 # lit ''Tcp backlog: '' @ sprintf_d (cf_tcp_backlog conf)])
      in case level_name (take 4 lmap) (cf_loglevel conf) None of
           None \<Rightarrow> Inl NullDeref
         | Some llevel \<Rightarrow>
             Inr ([lit ''TrieDB v'' @ cf_version conf @ lit '' is starting'',
                   lit ''Mode: '' @ (if cf_mode conf = STANDALONE then lit ''standalone'' else lit ''cluster''),
                   lit ''Network settings:'', 9 # lit ''Socket family: '' @ sfamily] @ address @
                  [9 # lit ''Max request size: '' @ memory_to_string (cf_max_request_size conf), lit ''Logging:'',
                   9 # lit ''level: '' @ llevel, 9 # lit ''logpath: '' @ cf_logpath conf,
                   lit ''Max memory: '' @ memory_to_string (cf_max_memory conf),
                   lit ''Memory reclaim time: '' @ time_to_string (cf_mem_reclaim_time conf)]))"

definition config_print :: "bytes \<Rightarrow> (nat \<Rightarrow> nat \<times> nat) \<Rightarrow> config \<Rightarrow> logger \<Rightarrow> logger cres" where
  "config_print stack clk conf lg =
     (if cf_loglevel conf < WARNING then
        bindE (config_report conf) (\<lambda>texts.
          foldE (\<lambda>lg (i, text0). t_log conf stack (clk i) INFORMATION text0 lg) lg (enumerate 0 texts))
      else Inr lg)"

subsection \<open>The report of the ring\<close>

text \<open>
  \<^verbatim>\<open>log_cluster_ring\<close>: the format has \<^verbatim>\<open>%s\<close> for the number \<^verbatim>\<open>upper_bound\<close>, which is read as an address as soon
  as the message is formatted.
\<close>

fun log_ring_nodes :: "nat \<Rightarrow> config \<Rightarrow> ring_heap \<Rightarrow> addr option \<Rightarrow> logger \<Rightarrow> logger cres" where
  "log_ring_nodes 0 conf s cur lg = Inl StackExhausted"
| "log_ring_nodes (Suc fuel) conf s cur lg =
     (if cur = None then Inr lg
      else
        bindE (deref_node (fst s) cur) (\<lambda>n.
        bindE (read_node (snd s) (ln_data n)) (\<lambda>cnode.
          if DEBUG < cf_loglevel conf then log_ring_nodes fuel conf s (ln_next n) lg else Inl NullDeref)))"

definition log_cluster_ring :: "nat \<Rightarrow> config \<Rightarrow> ring_heap \<Rightarrow> cluster \<Rightarrow> logger \<Rightarrow> logger cres" where
  "log_cluster_ring fuel conf s cluster lg = log_ring_nodes fuel conf s (l_head (cl_nodes cluster)) lg"

subsection \<open>What is logged\<close>

lemma generate_uuid_ok:
  assumes "length uuid = 36" and "0 \<notin> set uuid" and "length placeholder = 37"
  shows "\<exists>buf. generate_uuid uuid placeholder = Inr (0, buf) \<and> c_string buf = uuid \<and> length buf = 37"
  using assms c_string_append_nul [OF assms(2), of "[]"] by (simp add: generate_uuid_def)

lemma lit_no_nul: "lit ''...'' = [46, 46, 46]"
  by (simp add: lit_def)

lemma log_message_eq:
  assumes "0 \<notin> set text0"
  shows "log_message stack text0 =
    (if length text0 < MAX_LOG_SIZE then text0 else take MAX_LOG_SIZE text0 @ lit ''...'')"
proof (cases "length text0 < MAX_LOG_SIZE")
  case True
  let ?r = "take (MAX_LOG_SIZE - length text0 - 1) (drop (length text0 + 1) stack) @ lit ''...'' @ [0]"
  have "take (MAX_LOG_SIZE + 3) text0 = text0" using True by simp
  moreover have "take MAX_LOG_SIZE (text0 @ [0] @ drop (length text0 + 1) stack) @ lit ''...'' @ [0] = text0 @ 0 # ?r"
    using True by (simp add: take_Cons' less_imp_le)
  ultimately show ?thesis using True c_string_append_nul [OF assms] by (simp add: log_message_def Let_def)
next
  case False
  then have "take MAX_LOG_SIZE (take (MAX_LOG_SIZE + 3) text0 @ xs) = take MAX_LOG_SIZE text0" for xs
    by (simp add: take_append min_def)
  moreover have "0 \<notin> set (take MAX_LOG_SIZE text0 @ lit ''...'')"
    using assms by (auto simp: lit_no_nul dest: in_set_takeD)
  note c_string_append_nul [OF this, of "[]"]
  ultimately show ?thesis using False by (simp add: log_message_def Let_def)
qed

lemma log_message_length: "0 \<notin> set text0 \<Longrightarrow> length (log_message stack text0) \<le> MAX_LOG_SIZE + 3"
  by (auto simp: log_message_eq lit_no_nul)

lemma level_named: "level \<le> 3 \<Longrightarrow> level_name (take 4 lmap) level None \<noteq> None"
proof -
  assume "level \<le> 3"
  then have "unat level \<le> 3" by (simp add: word_le_nat_alt)
  then have "unat level \<in> {0, 1, 2, 3}" by auto
  then have "level \<in> {0, 1, 2, 3}" by (auto simp: unat_eq_0 intro!: word_unat_eq_iff [THEN iffD2])
  moreover have "\<forall>level \<in> {0, 1, 2, 3}. level_name (take 4 lmap) level None \<noteq> None" by code_simp
  ultimately show ?thesis by blast
qed

text \<open>A file that is not closed takes every line; a closed one is used after it was released.\<close>

definition log_append :: "nat \<times> nat \<Rightarrow> byte \<Rightarrow> cstring \<Rightarrow> logger \<Rightarrow> logger" where
  "log_append clk level msg lg =
     lg\<lparr> lg_stdout := lg_stdout lg @ log_line (fst clk) level msg,
         lg_file := (case lg_file lg of OpenFile bs \<Rightarrow> OpenFile (bs @ log_line (snd clk) level msg) | f \<Rightarrow> f) \<rparr>"

lemma log_mark_length: "length log_mark = 5"
  by (simp add: log_mark_def lit_def)

lemma t_log_eq:
  assumes "level \<le> 3" and "\<forall>bs. lg_file lg \<noteq> ClosedFile bs"
  shows "t_log conf stack clk level text0 lg =
    Inr (if level < cf_loglevel conf then lg else log_append clk level (log_message stack text0) lg)"
proof -
  have "unat level < length log_mark" using assms(1) by (simp add: word_le_nat_alt log_mark_length)
  then show ?thesis using assms(2) by (cases "lg_file lg") (auto simp: t_log_def log_append_def Let_def)
qed

lemma log_append_open: "\<forall>bs. lg_file lg \<noteq> ClosedFile bs \<Longrightarrow> \<forall>bs. lg_file (log_append clk level msg lg) \<noteq> ClosedFile bs"
  by (auto simp: log_append_def split: log_file.split)

lemma log_texts:
  assumes "\<forall>bs. lg_file lg \<noteq> ClosedFile bs" and "level \<le> 3" and "\<not> level < cf_loglevel conf"
  shows "foldE (\<lambda>lg (i, text0). t_log conf stack (clk i) level text0 lg) lg (enumerate n texts) =
    Inr (fold (\<lambda>(i, text0). log_append (clk i) level (log_message stack text0)) (enumerate n texts) lg)"
  using assms(1)
proof (induction texts arbitrary: lg n)
  case (Cons text0 texts)
  then show ?case using t_log_eq [OF assms(2) Cons.prems] assms(3) log_append_open [OF Cons.prems] by simp
qed simp

lemma log_cluster_ring_quiet:
  assumes "DEBUG < cf_loglevel conf" and "log_cluster_ring fuel conf s cluster lg = Inr lg'"
  shows "lg' = lg"
proof -
  have "log_ring_nodes fuel conf s cur lg = Inr lg' \<Longrightarrow> lg' = lg" for cur
    using assms(1) by (induction fuel arbitrary: cur) (auto split: if_splits)
  then show ?thesis using assms(2) by (simp add: log_cluster_ring_def)
qed

text \<open>With debug messages on, reporting a ring with a node faults.\<close>

lemma log_cluster_ring_faults:
  assumes "cf_loglevel conf = DEBUG" and "l_head (cl_nodes cluster) = Some a" and "fst s a = Some n"
    and "ln_data n = Some d" and "snd s d = Some c"
  shows "log_cluster_ring (Suc fuel) conf s cluster lg = Inl NullDeref"
  using assms by (simp add: log_cluster_ring_def deref_node_def read_node_def obj_read_Some)

subsection \<open>Properties\<close>

text \<open>
  \<^verbatim>\<open>t_log\<close> is filtered by the level and never writes outside its buffer: below the level of the
  configuration nothing happens; otherwise one line with the time, the mark of the level and the message goes to
  the standard output and to the file if there is one. A message below 119 bytes appears as it is, whatever
  the buffer held before; of a longer one the first 119 bytes appear, and three dots, even if it would
  have fitted.
\<close>

theorem t_log_correct:
  assumes "level \<le> 3" and "0 \<notin> set text0" and "lg_file lg \<in> insert NoFile (range OpenFile)"
  shows "t_log conf stack clk level text0 lg =
    Inr (if level < cf_loglevel conf then lg
         else log_append clk level (if length text0 < 119 then text0 else take 119 text0 @ lit ''...'') lg)"
proof -
  have "\<forall>bs. lg_file lg \<noteq> ClosedFile bs" using assms(3) by auto
  then show ?thesis using t_log_eq [OF assms(1)] log_message_eq [OF assms(2)] by (simp add: MAX_LOG_SIZE_def)
qed

theorem t_log_correct_witness:
  "\<forall>conf. cf_loglevel conf = 1 \<longrightarrow>
     t_log conf (replicate 123 88) (7, 8) 3 (replicate 119 97) \<lparr> lg_stdout = [], lg_file = OpenFile [] \<rparr> =
       Inr (log_append (7, 8) 3 (replicate 119 97 @ lit ''...'') \<lparr> lg_stdout = [], lg_file = OpenFile [] \<rparr>)"
proof (intro allI impI)
  fix conf :: config
  assume c: "cf_loglevel conf = 1"
  have "\<not> (3 :: byte) < 1" by simp
  with c t_log_correct [of 3 "replicate 119 97" "\<lparr> lg_stdout = [], lg_file = OpenFile [] \<rparr>" conf "replicate 123 88" "(7, 8)"]
  show "t_log conf (replicate 123 88) (7, 8) 3 (replicate 119 97) \<lparr> lg_stdout = [], lg_file = OpenFile [] \<rparr> =
       Inr (log_append (7, 8) 3 (replicate 119 97 @ lit ''...'') \<lparr> lg_stdout = [], lg_file = OpenFile [] \<rparr>)"
    by simp
qed

text \<open>
  \<^verbatim>\<open>config_print\<close> reports every setting, one line each and in the order of the source, if the level is DEBUG or
  INFORMATION, and nothing if it is higher; it never faults, since each of these levels has a name.
\<close>

theorem config_print_correct:
  assumes "lg_file lg \<in> insert NoFile (range OpenFile)"
  shows "\<exists>texts. (cf_loglevel conf < WARNING \<longrightarrow> config_report conf = Inr texts) \<and>
    config_print stack clk conf lg =
      Inr (if cf_loglevel conf < WARNING
           then fold (\<lambda>(i, text0). log_append (clk i) INFORMATION (log_message stack text0)) (enumerate 0 texts) lg else lg)"
proof (cases "cf_loglevel conf < WARNING")
  case True
  then have l: "cf_loglevel conf \<le> 3" "\<not> INFORMATION < cf_loglevel conf" "INFORMATION \<le> 3"
    by (simp_all add: WARNING_def INFORMATION_def word_less_nat_alt word_le_nat_alt)
  from level_named [OF l(1)] obtain texts where t: "config_report conf = Inr texts" by (auto simp: config_report_def Let_def)
  have "\<forall>bs. lg_file lg \<noteq> ClosedFile bs" using assms by auto
  from log_texts [OF this l(3,2), of stack clk 0 texts] True t show ?thesis by (intro exI [of _ texts]) (simp add: config_print_def)
qed (simp add: config_print_def)

end
