(* ===== verification/Spec2Isabelle.thy ===== *)
theory Spec2Isabelle
  imports Tdb_Range Tdb_Epoll Tdb_Main Tdb_Expiry Tdb_Log
begin

text \<open>
  \<^bold>\<open>Verification of TrieDB.\<close>

  TrieDB (\<^verbatim>\<open>src/src/\<close>) is a key-value server. Clients send binary packets over a socket; the main thread
  accepts connections, I/O threads read packets and write replies, worker threads execute the commands on
  a database that keeps its items in a trie, and a timer removes keys whose time to live is over. Several
  servers can form a hash ring.

  \<^bold>\<open>Conventions.\<close> The model is a shallow embedding. What C leaves undefined or aborts on is a value of
  \<open>c_fault\<close>, and an operation that can run into it returns a sum with the fault on the left; so a theorem
  that an operation returns \<open>Inr\<close> says that none of this happens. Unsigned integers are words of their
  width, signed ones are integers with a check for overflow. C strings are lists of bytes without the NUL.
  Objects that are shared by pointers (items, clients, databases, expiring keys, list and cluster nodes)
  live in heaps, maps from addresses, and following a pointer to a released object is a fault; what is
  owned by one pointer only (search trees, trie nodes, arrays) is a tree or a list. What the system
  provides is an argument: the time, new addresses, the descriptors, the outcome of every system call,
  and the returns of \<^verbatim>\<open>epoll_wait\<close>.

  \<^bold>\<open>Data structures.\<close>
  \<^item> \<open>Tdb_Prelude\<close>: types, faults, sequencing, heaps, and the lemmas on them all theories use.
  \<^item> \<open>Tdb_Bst\<close> (\<^verbatim>\<open>bst.c\<close>): the search trees of children, with the balancing code as the macros expand.
    Insertion keeps the order and the content (interpretation \<open>bst_children\<close> of the locale \<open>child_map\<close>, on
    which the trie is built); the trees are never balanced, and deletion loses nodes.
  \<^item> \<open>Tdb_Vector\<close> (\<^verbatim>\<open>vector.c\<close>): arrays with append, delete and quicksort, an instance of the locale
    \<open>sequence\<close>. The sort is correct for every order of the locale \<open>total_preorder\<close>, instantiated with the
    comparison of expiring keys.
  \<^item> \<open>Tdb_Trie\<close> (\<^verbatim>\<open>trie.c\<close>): each operation against the finite map the trie stands for, ownership of the
    data, and freedom from faults of arbitrary sequences of operations, for every destructor of the
    locale \<open>data_destructor\<close>.
  \<^item> \<open>Tdb_Hashtable\<close> (\<^verbatim>\<open>hashtable.c\<close>): open addressing with rehashing, against a map; the CRC table against
    the shift register it tabulates. \<open>Tdb_List\<close> (\<^verbatim>\<open>list.c\<close>): linked lists in a heap and their merge sort, for
    every order of the locale \<open>node_order\<close>.
  \<^item> \<open>Tdb_Util\<close> (\<^verbatim>\<open>util.c\<close>): numbers in strings, string comparison, the counting allocator. \<open>Tdb_Log\<close> (\<^verbatim>\<open>util.c\<close>,
    \<^verbatim>\<open>config.c\<close>, \<^verbatim>\<open>cluster.c\<close>): the logger with its buffer and streams, and what is reported through it.

  \<^bold>\<open>Components.\<close>
  \<^item> \<open>Tdb_Db\<close> (\<^verbatim>\<open>db.c\<close>): databases of items with a value, a time to live and a creation time; they
    implement the locale \<open>kv_store\<close> (interpretation \<open>db_store\<close>), and sequences of operations refine a map.
  \<^item> \<open>Tdb_Pack\<close> (\<^verbatim>\<open>pack.c\<close>) and \<open>Tdb_Protocol\<close> (\<^verbatim>\<open>protocol.c\<close>): byte formats, the length field, requests
    and responses; round trips, the exact content of replies, and the release of packets.
  \<^item> \<open>Tdb_Config\<close> (\<^verbatim>\<open>config.c\<close>): the configuration file and its defaults.
  \<^item> \<open>Tdb_Cluster\<close> (\<^verbatim>\<open>cluster.c\<close>): the ring, sorted and complete after every addition, and the owner of a hash value.
  \<^item> \<open>Tdb_Network\<close> (\<^verbatim>\<open>network.c\<close>): the loops that read and write all bytes a socket has or takes. \<open>Tdb_Socket\<close>
    (\<^verbatim>\<open>network.c\<close>): the rest of the file, creating, binding and accepting sockets on a table of open descriptors, and the
    registrations of an epoll instance, a table from descriptors to flags, data and whether they are armed.

  \<^bold>\<open>The server\<close> (\<^verbatim>\<open>server.c\<close>, \<^verbatim>\<open>triedb.c\<close>).
  \<^item> \<open>Tdb_Server\<close>: the record \<open>triedb\<close> with its heaps, every command handler, \<open>recv_packet\<close>, \<open>read_data\<close>, the
    branches of the threads (\<open>io_read\<close>, \<open>worker_event\<close>, \<open>io_write\<close>, \<open>bus_event\<close>), the destructors, \<open>expire_keys\<close>
    and the state at the start.
  \<^item> \<open>Tdb_Service\<close>: the server as the transition system \<open>server_step\<close> on a state, the requests waiting for
    a worker and the replies waiting to be written; the invariant of its reachable configurations, the
    map it implements, and the path of a request from the socket to the reply, with the packets that are cut or misread on it. \<open>Tdb_Replies\<close> adds the
    replies: PUT, DEL and GET of a key are answered as an abstract map says, and over whole runs (\<open>history\<close>) the
    replies are those of a map that executes the requests one after the other. \<open>Tdb_Range\<close> adds GET of a prefix, with
    the two situations in which it brings the server down.
  \<^item> \<open>Tdb_Loop\<close>: the loops \<open>accept_loop\<close>, \<open>io_worker\<close> and \<open>worker\<close>, three interpretations of the locale
    \<open>event_thread\<close>: on events as the kernel delivers them (\<open>delivers\<close>) they take only steps of the transition system. A
    worker answers whole batches of PUT and DEL and stops exactly at the shutdown event.
  \<^item> \<open>Tdb_Epoll\<close>: the branches of these loops completed by their calls of \<open>epoll_add\<close> and \<open>epoll_mod\<close>, and the labelled
    transition system \<open>net_step\<close>, in which an event needs an armed registration. Its runs are runs of \<open>server_step\<close>;
    the one-shot registrations keep the events of each client in order, the pointers in events are of the right kind,
    and two ways in which a registration is lost for ever are shown.
  \<^item> \<open>Tdb_Expiry\<close>: the TTL command and the timer against a function on lists of deadlines.
  \<^item> \<open>Tdb_Main\<close>: \<open>main_start\<close> from the command line to the running server, the cluster it joins, and
    \<open>shutdown\<close>, which never releases anything twice. The invariant of the tables also shows that every
    disconnection ends in the use of a released event.

  \<^bold>\<open>Bounds and fuel.\<close> Recursions of the source that are not structural have termination proofs
  (\<open>expire_loop\<close>, \<open>get_loop\<close>, \<open>quicksort_loop\<close>, \<open>config_lines\<close>, the length field). Fuel is used where the source can run
  forever or through the stack: \<open>hashtable_put\<close> takes one unit for each turn and each insertion of a
  rehash, and the theorems ask for as much as the table can grow; sorting and walking a list takes the
  length of the list and one, which the hypotheses state; \<open>quicksort\<close> takes the depth of the stack. Running out is
  the fault \<open>StackExhausted\<close>, and the theorems say that it does not occur.

  \<^bold>\<open>What the properties leave open.\<close> Some paths of the program do fail, and theorems say where: commands
  without an unpacking function, disconnections, the removal of a key with a timer, long replies, range queries without
  a match, flushing. For the database, therefore, properties of whole runs speak of the steps that return; for PUT and DEL,
  and for GET with a short reply, they say that the step does return.

  \<^bold>\<open>Not modelled.\<close> \<^verbatim>\<open>read_packet\<close> and \<^verbatim>\<open>unpack_triedb_response\<close>, which nothing calls and which write through
  pointers that were never set; \<^verbatim>\<open>oom\<close> and the signal handler, which end the process or write to the event
  descriptor the loops wait for; starting and joining threads: \<open>start_server\<close> is what the source does for the state, the ring
  and the start time, as if the threads started behind it; the release of the three static acknowledgements. Responses are values, so their release in the
  handlers is not seen. Messages of the logger in between (\<^verbatim>\<open>tdebug\<close>, \<^verbatim>\<open>tinfo\<close>, \<^verbatim>\<open>perror\<close>) are left out of the operations that
  print them. Two threads inside a handler at once are not modelled either: a step is a whole handler, as the spin lock
  around the changes of the database intends. In particular a worker is done with an event before its reply is written, while
  in the source it reads the event twice after \<^verbatim>\<open>epoll_mod\<close>. In \<open>Tdb_Epoll\<close> the data of an event says whether it is a descriptor or a pointer; that a part
  of a pointer could equal the number of a descriptor, which the loops would mistake for it, is left out.
\<close>

end
